theory Spec2Isabelle
  imports Main
begin

section \<open>ZeroGraph: values, objects and the store\<close>

text \<open>
  The development embeds the engine of \<^verbatim>\<open>src/index.ts\<close> (lines 1 to 324).

  \<^item> A JavaScript value of type \<^verbatim>\<open>any\<close> is a \<open>jsval\<close>. Numbers are restricted to
    integers. \<open>VError m\<close> is \<^verbatim>\<open>new Error(m)\<close>, \<open>VTypeError m\<close> a \<^verbatim>\<open>TypeError\<close>
    raised by the runtime.
  \<^item> A transition label has the type \<^verbatim>\<open>ActionType | null\<close> of \<^verbatim>\<open>getNextNode\<close>:
    \<open>None\<close> is \<^verbatim>\<open>null\<close>.
  \<^item> Nodes are objects in a store; a reference is an address. The methods a user
    class overrides (\<^verbatim>\<open>prep\<close>, \<^verbatim>\<open>exec\<close>, \<^verbatim>\<open>post\<close>, \<^verbatim>\<open>execFallback\<close> and their
    suspendable forms) are functions that read the fields of \<^verbatim>\<open>this\<close>, read and
    write the world \<open>'w\<close> (the shared store together with everything the closures of
    the user's classes reach), and either return or throw. They do not assign to
    fields of engine objects: every assignment to a node field in the model is one
    the engine itself performs.
  \<^item> \<^verbatim>\<open>console.warn\<close> appends to the \<open>console\<close> of the state. The busy wait between
    two attempts only lets time pass and has no counterpart.
  \<^item> A call of an \<^verbatim>\<open>async\<close> method of the user runs the body of the method as one
    step, as a call of a blocking method does, and returns a settled promise. The
    engine's own \<^verbatim>\<open>await\<close>s are the points where a suspended function gives way; when
    several are suspended under a \<^verbatim>\<open>Promise.all\<close>, the one that goes on next is read
    from the \<open>schedule\<close> of the state, which stands for the order in which the
    runtime resumes them. A timer only lets time pass: it is one suspension.
\<close>

datatype jsval =
    VUndefined
  | VNull
  | VBool bool
  | VNum int
  | VStr string
  | VArr "jsval list"
  | VObj "(string \<times> jsval) list"
  | VError string
  | VTypeError string

fun truthy :: "jsval \<Rightarrow> bool" where
  "truthy VUndefined = False"
| "truthy VNull = False"
| "truthy (VBool b) = b"
| "truthy (VNum n) = (n \<noteq> 0)"
| "truthy (VStr s) = (s \<noteq> [])"
| "truthy _ = True"

type_synonym action = "string option"
type_synonym addr = nat

text \<open>The instance fields of the engine classes (\<^verbatim>\<open>BaseNode\<close>, \<^verbatim>\<open>Node\<close>, \<^verbatim>\<open>Flow\<close>).\<close>

record fields =
  params :: "(string \<times> jsval) list"
  successors :: "(string \<times> addr) list"
  maxRetries :: int
  wait :: int
  curRetry :: int
  startNode :: "addr option"

text \<open>The overridable methods. \<open>Inl\<close> is a thrown value.\<close>

record 'w methods =
  prep :: "fields \<Rightarrow> 'w \<Rightarrow> (jsval + jsval) \<times> 'w"
  exec :: "fields \<Rightarrow> jsval \<Rightarrow> 'w \<Rightarrow> (jsval + jsval) \<times> 'w"
  post :: "fields \<Rightarrow> jsval \<Rightarrow> jsval \<Rightarrow> 'w \<Rightarrow> (jsval + action) \<times> 'w"
  execFallback :: "fields \<Rightarrow> jsval \<Rightarrow> jsval \<Rightarrow> 'w \<Rightarrow> (jsval + jsval) \<times> 'w"
  prepAsync :: "fields \<Rightarrow> 'w \<Rightarrow> (jsval + jsval) \<times> 'w"
  execAsync :: "fields \<Rightarrow> jsval \<Rightarrow> 'w \<Rightarrow> (jsval + jsval) \<times> 'w"
  postAsync :: "fields \<Rightarrow> jsval \<Rightarrow> jsval \<Rightarrow> 'w \<Rightarrow> (jsval + action) \<times> 'w"
  execFallbackAsync :: "fields \<Rightarrow> jsval \<Rightarrow> jsval \<Rightarrow> 'w \<Rightarrow> (jsval + jsval) \<times> 'w"

text \<open>The engine class an object's class derives from (its prototype chain).\<close>

datatype kind =
    BaseNode | Node | BatchNode | Flow | BatchFlow
  | AsyncNode | AsyncBatchNode | AsyncParallelBatchNode
  | AsyncFlow | AsyncBatchFlow | AsyncParallelBatchFlow

record 'w obj =
  kind :: kind
  meths :: "'w methods"
  flds :: fields

record 'w state =
  heap :: "addr \<Rightarrow> 'w obj"
  nxt :: addr
  world :: 'w
  console :: "string list"
  schedule :: "nat list"

definition this_fields :: "'w state \<Rightarrow> addr \<Rightarrow> fields" where
  "this_fields st a = flds (heap st a)"

definition this_meths :: "'w state \<Rightarrow> addr \<Rightarrow> 'w methods" where
  "this_meths st a = meths (heap st a)"

definition set_curRetry :: "addr \<Rightarrow> int \<Rightarrow> 'w state \<Rightarrow> 'w state" where
  "set_curRetry a c st =
     st\<lparr>heap := (heap st)(a := (heap st a)\<lparr>flds := (flds (heap st a))\<lparr>curRetry := c\<rparr>\<rparr>)\<rparr>"

definition set_world :: "'w \<Rightarrow> 'w state \<Rightarrow> 'w state" where
  "set_world w st = st\<lparr>world := w\<rparr>"

definition warn :: "string \<Rightarrow> 'w state \<Rightarrow> 'w state" where
  "warn msg st = st\<lparr>console := console st @ [msg]\<rparr>"

section \<open>Default methods\<close>

text \<open>\<^verbatim>\<open>BaseNode.prep\<close>, \<^verbatim>\<open>BaseNode.exec\<close>, \<^verbatim>\<open>BaseNode.post\<close> (lines 33 to 43).\<close>

definition default_prep :: "fields \<Rightarrow> 'w \<Rightarrow> (jsval + jsval) \<times> 'w" where
  "default_prep this w = (Inr VUndefined, w)"

definition default_exec :: "fields \<Rightarrow> jsval \<Rightarrow> 'w \<Rightarrow> (jsval + jsval) \<times> 'w" where
  "default_exec this prepRes w = (Inr VUndefined, w)"

definition default_post :: "fields \<Rightarrow> jsval \<Rightarrow> jsval \<Rightarrow> 'w \<Rightarrow> (jsval + action) \<times> 'w" where
  "default_post this prepRes execRes w = (Inr (Some ''default''), w)"

text \<open>\<^verbatim>\<open>Node.execFallback\<close> (lines 83 to 85): \<^verbatim>\<open>throw exc\<close>.\<close>

definition default_execFallback :: "fields \<Rightarrow> jsval \<Rightarrow> jsval \<Rightarrow> 'w \<Rightarrow> (jsval + jsval) \<times> 'w" where
  "default_execFallback this prepRes exc w = (Inl exc, w)"

text \<open>
  A label handed on as a value, and back. \<^verbatim>\<open>Flow.post\<close> (lines 167 to 169) returns its
  \<^verbatim>\<open>execRes\<close>, which the engine always passes as a label or \<^verbatim>\<open>null\<close>.
\<close>

fun action_val :: "action \<Rightarrow> jsval" where
  "action_val None = VNull"
| "action_val (Some s) = VStr s"

fun val_action :: "jsval \<Rightarrow> action" where
  "val_action (VStr s) = Some s"
| "val_action _ = None"

definition default_flow_post :: "fields \<Rightarrow> jsval \<Rightarrow> jsval \<Rightarrow> 'w \<Rightarrow> (jsval + action) \<times> 'w" where
  "default_flow_post this prepRes execRes w = (Inr (val_action execRes), w)"

definition node_methods :: "'w methods" where
  "node_methods =
     \<lparr>prep = default_prep, exec = default_exec, post = default_post,
      execFallback = default_execFallback,
      prepAsync = default_prep, execAsync = default_exec, postAsync = default_post,
      execFallbackAsync = default_execFallback\<rparr>"

definition flow_methods :: "'w methods" where
  "flow_methods = node_methods\<lparr>post := default_flow_post, postAsync := default_flow_post\<rparr>"

section \<open>The retry wrapper\<close>

text \<open>
  \<^verbatim>\<open>Node._exec\<close> (lines 87 to 102). The loop variable is the field \<^verbatim>\<open>this.curRetry\<close>;
  the loop below is entered after \<^verbatim>\<open>this.curRetry = 0\<close>. Falling out of the loop
  returns \<^verbatim>\<open>undefined\<close>.
\<close>

function Node_exec_loop :: "addr \<Rightarrow> jsval \<Rightarrow> 'w state \<Rightarrow> (jsval + jsval) \<times> 'w state" where
  "Node_exec_loop this prepRes st =
     (if curRetry (this_fields st this) < maxRetries (this_fields st this) then
        (case exec (this_meths st this) (this_fields st this) prepRes (world st) of
           (Inr r, w) \<Rightarrow> (Inr r, set_world w st)
         | (Inl e, w) \<Rightarrow>
             if curRetry (this_fields st this) = maxRetries (this_fields st this) - 1 then
               (case execFallback (this_meths st this) (this_fields st this) prepRes e w of
                  (r, w') \<Rightarrow> (r, set_world w' st))
             else
               Node_exec_loop this prepRes
                 (set_curRetry this (curRetry (this_fields st this) + 1) (set_world w st)))
      else (Inr VUndefined, st))"
  by pat_completeness auto
termination
  by (relation "measure (\<lambda>(this, prepRes, st).
        nat (maxRetries (this_fields st this) - curRetry (this_fields st this)))")
     (auto simp: this_fields_def set_curRetry_def set_world_def)

definition Node_exec :: "addr \<Rightarrow> jsval \<Rightarrow> 'w state \<Rightarrow> (jsval + jsval) \<times> 'w state" where
  "Node_exec this prepRes st = Node_exec_loop this prepRes (set_curRetry this 0 st)"

text \<open>
  \<^verbatim>\<open>BatchNode._exec\<close> (lines 105 to 109): \<^verbatim>\<open>(items || []).map(item => super._exec(item))\<close>.
  A thrown value leaves \<^verbatim>\<open>map\<close> at once. A truthy value that is not an array has no
  method \<^verbatim>\<open>map\<close>.
\<close>

fun map_items ::
  "(jsval \<Rightarrow> 's \<Rightarrow> (jsval + jsval) \<times> 's) \<Rightarrow> jsval list \<Rightarrow> 's \<Rightarrow> (jsval + jsval list) \<times> 's" where
  "map_items f [] st = (Inr [], st)"
| "map_items f (x # xs) st =
     (case f x st of
        (Inl e, st') \<Rightarrow> (Inl e, st')
      | (Inr r, st') \<Rightarrow>
          (case map_items f xs st' of
             (Inl e, st'') \<Rightarrow> (Inl e, st'')
           | (Inr rs, st'') \<Rightarrow> (Inr (r # rs), st'')))"

definition BatchNode_exec :: "addr \<Rightarrow> jsval \<Rightarrow> 'w state \<Rightarrow> (jsval + jsval) \<times> 'w state" where
  "BatchNode_exec this items st =
     (if \<not> truthy items then (Inr (VArr []), st)
      else case items of
        VArr xs \<Rightarrow>
          (case map_items (Node_exec this) xs st of
             (Inl e, st') \<Rightarrow> (Inl e, st')
           | (Inr rs, st') \<Rightarrow> (Inr (VArr rs), st'))
      | _ \<Rightarrow> (Inl (VTypeError ''(items || []).map is not a function''), st))"

section \<open>The lifecycle of a task\<close>

text \<open>\<^verbatim>\<open>BaseNode._exec\<close> (lines 45 to 47).\<close>

definition BaseNode_exec :: "addr \<Rightarrow> jsval \<Rightarrow> 'w state \<Rightarrow> (jsval + jsval) \<times> 'w state" where
  "BaseNode_exec this prepRes st =
     (case exec (this_meths st this) (this_fields st this) prepRes (world st) of
        (r, w) \<Rightarrow> (r, set_world w st))"

text \<open>
  \<^verbatim>\<open>BaseNode._run\<close> (lines 49 to 53); \<open>ex\<close> is the \<^verbatim>\<open>_exec\<close> of the object's class.
\<close>

definition BaseNode_run ::
  "(addr \<Rightarrow> jsval \<Rightarrow> 'w state \<Rightarrow> (jsval + jsval) \<times> 'w state) \<Rightarrow> addr \<Rightarrow> 'w state
     \<Rightarrow> (jsval + action) \<times> 'w state" where
  "BaseNode_run ex this st =
     (case prep (this_meths st this) (this_fields st this) (world st) of
        (Inl e, w) \<Rightarrow> (Inl e, set_world w st)
      | (Inr p, w) \<Rightarrow>
          (case ex this p (set_world w st) of
             (Inl e, st') \<Rightarrow> (Inl e, st')
           | (Inr r, st') \<Rightarrow>
               (case post (this_meths st' this) (this_fields st' this) p r (world st') of
                  (l, w') \<Rightarrow> (l, set_world w' st'))))"

section \<open>The graph and its traversal\<close>

text \<open>\<^verbatim>\<open>setParams\<close> (lines 21 to 23).\<close>

definition setParams :: "addr \<Rightarrow> (string \<times> jsval) list \<Rightarrow> 'w state \<Rightarrow> 'w state" where
  "setParams this p st =
     st\<lparr>heap := (heap st)(this := (heap st this)\<lparr>flds := (flds (heap st this))\<lparr>params := p\<rparr>\<rparr>)\<rparr>"

text \<open>
  The successor table is a plain object created by \<^verbatim>\<open>{}\<close>: a property read that finds
  no own key continues in \<^verbatim>\<open>Object.prototype\<close>, whose members are functions (and, for
  \<^verbatim>\<open>__proto__\<close>, the prototype object itself), all of them truthy.
\<close>

definition object_prototype_keys :: "string list" where
  "object_prototype_keys =
     [''constructor'', ''hasOwnProperty'', ''isPrototypeOf'', ''propertyIsEnumerable'',
      ''toLocaleString'', ''toString'', ''valueOf'', ''__proto__'',
      ''__defineGetter__'', ''__defineSetter__'', ''__lookupGetter__'', ''__lookupSetter__'']"

datatype lookup = Absent | Own addr | Inherited

definition get_successor :: "(string \<times> addr) list \<Rightarrow> string \<Rightarrow> lookup" where
  "get_successor tbl key =
     (case map_of tbl key of
        Some n \<Rightarrow> Own n
      | None \<Rightarrow> if key \<in> set object_prototype_keys then Inherited else Absent)"

fun assign_prop :: "string \<Rightarrow> 'a \<Rightarrow> (string \<times> 'a) list \<Rightarrow> (string \<times> 'a) list" where
  "assign_prop k v [] = [(k, v)]"
| "assign_prop k v ((k', v') # ps) =
     (if k = k' then (k, v) # ps else (k', v') # assign_prop k v ps)"

text \<open>
  \<^verbatim>\<open>next\<close> (lines 25 to 31). The assignment \<^verbatim>\<open>this.successors['__proto__'] = node\<close>
  replaces the prototype of the table instead of adding a key; the store has no
  place for that, and the operation is left undefined (\<open>None\<close>) at this label.
\<close>

definition BaseNode_next :: "addr \<Rightarrow> addr \<Rightarrow> string \<Rightarrow> 'w state \<Rightarrow> (addr \<times> 'w state) option" where
  "BaseNode_next this node action st =
     (if action = ''__proto__'' then None
      else
        let st1 = (if get_successor (successors (this_fields st this)) action \<noteq> Absent
                   then warn (''Overwriting successor for action '' @ [CHR 0x27] @ action @ [CHR 0x27]) st
                   else st)
        in Some (node,
             st1\<lparr>heap := (heap st1)(this := (heap st1 this)\<lparr>flds := (flds (heap st1 this))
               \<lparr>successors := assign_prop action node (successors (flds (heap st1 this)))\<rparr>\<rparr>)\<rparr>))"

text \<open>\<^verbatim>\<open>Flow.start\<close> (lines 119 to 122).\<close>

definition Flow_start :: "addr \<Rightarrow> addr \<Rightarrow> 'w state \<Rightarrow> addr \<times> 'w state" where
  "Flow_start this start st =
     (start, st\<lparr>heap := (heap st)(this := (heap st this)\<lparr>flds := (flds (heap st this))
                 \<lparr>startNode := Some start\<rparr>\<rparr>)\<rparr>)"

text \<open>
  \<^verbatim>\<open>Object.assign(Object.create(Object.getPrototypeOf(x)), x)\<close>: a new object of the
  same class with the same field values.
\<close>

definition clone :: "addr \<Rightarrow> 'w state \<Rightarrow> addr \<times> 'w state" where
  "clone a st = (nxt st, st\<lparr>heap := (heap st)(nxt st := heap st a), nxt := Suc (nxt st)\<rparr>)"

fun join_comma :: "string list \<Rightarrow> string" where
  "join_comma [] = []"
| "join_comma [k] = k"
| "join_comma (k # ks) = k @ '', '' @ join_comma ks"

fun show_action :: "action \<Rightarrow> string" where
  "show_action None = ''null''"
| "show_action (Some s) = s"

text \<open>The value the loop variable \<^verbatim>\<open>curr\<close> of the orchestrator holds.\<close>

datatype cur = CNull | CNode addr | CForeign

text \<open>
  \<^verbatim>\<open>getNextNode\<close> (lines 124 to 135); \<open>action_key\<close> is \<^verbatim>\<open>action || 'default'\<close>.
  \<open>CForeign\<close> is a member of \<^verbatim>\<open>Object.prototype\<close> found through the prototype chain: it
  is truthy, so no warning is printed and it is returned as the next node.
\<close>

definition action_key :: "action \<Rightarrow> string" where
  "action_key action = (case action of None \<Rightarrow> ''default'' | Some s \<Rightarrow> if s = [] then ''default'' else s)"

definition getNextNode :: "addr \<Rightarrow> action \<Rightarrow> 'w state \<Rightarrow> cur \<times> 'w state" where
  "getNextNode cn action st =
     (let tbl = successors (this_fields st cn)
      in case get_successor tbl (action_key action) of
           Own n \<Rightarrow> (CNode n, st)
         | Inherited \<Rightarrow> (CForeign, st)
         | Absent \<Rightarrow>
             (CNull,
              if tbl \<noteq> [] then
                warn (''Flow ends: '' @ [CHR 0x27] @ show_action action @ [CHR 0x27]
                        @ '' not found in ['' @ join_comma (map fst tbl) @ '']'') st
              else st))"

text \<open>
  Object spread \<^verbatim>\<open>{ ...a, ...b }\<close>: the own enumerable properties of \<open>a\<close>, then those of
  \<open>b\<close>, assigned in order to a new object.
\<close>

fun digit_char :: "nat \<Rightarrow> char" where
  "digit_char n = char_of (48 + n)"

function show_nat :: "nat \<Rightarrow> string" where
  "show_nat n = (if n < 10 then [digit_char n] else show_nat (n div 10) @ [digit_char (n mod 10)])"
  by pat_completeness auto
termination
  by (relation "measure id") auto

fun own_entries :: "jsval \<Rightarrow> (string \<times> jsval) list" where
  "own_entries (VObj kvs) = kvs"
| "own_entries (VArr xs) = zip (map show_nat [0..<length xs]) xs"
| "own_entries (VStr s) = zip (map show_nat [0..<length s]) (map (\<lambda>c. VStr [c]) s)"
| "own_entries _ = []"

definition spread :: "(string \<times> jsval) list \<Rightarrow> (string \<times> jsval) list \<Rightarrow> (string \<times> jsval) list" where
  "spread a b = foldl (\<lambda>acc (k, v). assign_prop k v acc) [] (a @ b)"

text \<open>
  The values a \<^verbatim>\<open>for ... of\<close> loop draws from \<open>v\<close>; a value that is not iterable throws.
\<close>

fun iterate :: "jsval \<Rightarrow> jsval + jsval list" where
  "iterate (VArr xs) = Inr xs"
| "iterate (VStr s) = Inr (map (\<lambda>c. VStr [c]) s)"
| "iterate _ = Inl (VTypeError ''value is not iterable'')"

definition or_empty :: "jsval \<Rightarrow> jsval" where
  "or_empty v = (if truthy v then v else VArr [])"

definition is_AsyncNode :: "kind \<Rightarrow> bool" where
  "is_AsyncNode k = (k = AsyncNode \<or> k = AsyncBatchNode \<or> k = AsyncParallelBatchNode)"

definition is_BatchFlow :: "kind \<Rightarrow> bool" where
  "is_BatchFlow k = (k = BatchFlow)"

definition is_Flow :: "kind \<Rightarrow> bool" where
  "is_Flow k = (k = Flow \<or> k = BatchFlow \<or> k = AsyncFlow \<or> k = AsyncBatchFlow
                  \<or> k = AsyncParallelBatchFlow)"

text \<open>
  The blocking engine. \<open>call_run n this st\<close> is the method call \<^verbatim>\<open>this._run(shared)\<close>,
  dispatched on the class of \<open>this\<close>:
  \<^item> \<^verbatim>\<open>BaseNode._run\<close> (lines 49 to 53) for \<^verbatim>\<open>BaseNode\<close>, \<^verbatim>\<open>Node\<close> and \<^verbatim>\<open>BatchNode\<close>;
  \<^item> \<^verbatim>\<open>AsyncNode._run\<close> (lines 231 to 233) for \<^verbatim>\<open>AsyncNode\<close> and its two subclasses;
  \<^item> \<^verbatim>\<open>BatchFlow._run\<close> (lines 173 to 179) for \<^verbatim>\<open>BatchFlow\<close>;
  \<^item> \<^verbatim>\<open>Flow._run\<close> (lines 161 to 165) for \<^verbatim>\<open>Flow\<close> and for \<^verbatim>\<open>AsyncFlow\<close> and its
    subclasses, which do not override it.
  \<open>Flow_orch\<close> is \<^verbatim>\<open>_orch\<close> (lines 137 to 159) and \<open>Flow_orch_loop\<close> its \<^verbatim>\<open>while\<close> loop;
  \<open>BatchFlow_loop\<close> is the \<^verbatim>\<open>for\<close> loop of \<^verbatim>\<open>BatchFlow._run\<close>. A traversal need not
  end and flows nest, so the functions take fuel: \<open>None\<close> is a run that has not
  returned within it.
\<close>

function (sequential) call_run :: "nat \<Rightarrow> addr \<Rightarrow> 'w state \<Rightarrow> ((jsval + action) \<times> 'w state) option"
and Flow_orch :: "nat \<Rightarrow> addr \<Rightarrow> (string \<times> jsval) list option \<Rightarrow> 'w state
                    \<Rightarrow> ((jsval + action) \<times> 'w state) option"
and Flow_orch_loop :: "nat \<Rightarrow> cur \<Rightarrow> (string \<times> jsval) list \<Rightarrow> action \<Rightarrow> 'w state
                    \<Rightarrow> ((jsval + action) \<times> 'w state) option"
and BatchFlow_loop :: "nat \<Rightarrow> addr \<Rightarrow> jsval list \<Rightarrow> 'w state
                    \<Rightarrow> ((jsval + unit) \<times> 'w state) option"
where
  "call_run 0 this st = None"
| "call_run (Suc n) this st =
     (if kind (heap st this) = BaseNode then Some (BaseNode_run BaseNode_exec this st)
      else if kind (heap st this) = Node then Some (BaseNode_run Node_exec this st)
      else if kind (heap st this) = BatchNode then Some (BaseNode_run BatchNode_exec this st)
      else if is_AsyncNode (kind (heap st this)) then Some (Inl (VError ''Use runAsync.''), st)
      else if is_BatchFlow (kind (heap st this)) then
        (case prep (this_meths st this) (this_fields st this) (world st) of
           (Inl e, w) \<Rightarrow> Some (Inl e, set_world w st)
         | (Inr v, w) \<Rightarrow>
             (case iterate (or_empty v) of
                Inl e \<Rightarrow> Some (Inl e, set_world w st)
              | Inr bps \<Rightarrow>
                  (case BatchFlow_loop n this bps (set_world w st) of
                     None \<Rightarrow> None
                   | Some (Inl e, st') \<Rightarrow> Some (Inl e, st')
                   | Some (Inr u, st') \<Rightarrow>
                       (case post (this_meths st' this) (this_fields st' this)
                               (or_empty v) VNull (world st') of
                          (l, w') \<Rightarrow> Some (l, set_world w' st')))))
      else
        (case prep (this_meths st this) (this_fields st this) (world st) of
           (Inl e, w) \<Rightarrow> Some (Inl e, set_world w st)
         | (Inr p, w) \<Rightarrow>
             (case Flow_orch n this None (set_world w st) of
                None \<Rightarrow> None
              | Some (Inl e, st') \<Rightarrow> Some (Inl e, st')
              | Some (Inr ob, st') \<Rightarrow>
                  (case post (this_meths st' this) (this_fields st' this)
                          p (action_val ob) (world st') of
                     (l, w') \<Rightarrow> Some (l, set_world w' st')))))"
| "Flow_orch 0 this ps st = None"
| "Flow_orch (Suc n) this ps st =
     (let p = (case ps of Some q \<Rightarrow> q | None \<Rightarrow> spread (params (this_fields st this)) [])
      in case startNode (this_fields st this) of
           None \<Rightarrow> Flow_orch_loop n CNull p (Some ''default'') st
         | Some s \<Rightarrow>
             (case clone s st of
                (c, st1) \<Rightarrow> Flow_orch_loop n (CNode c) p (Some ''default'') st1))"
| "Flow_orch_loop n CNull p lastAction st = Some (Inr lastAction, st)"
| "Flow_orch_loop n CForeign p lastAction st =
     Some (Inl (VTypeError ''curr.setParams is not a function''), st)"
| "Flow_orch_loop 0 (CNode cn) p lastAction st = None"
| "Flow_orch_loop (Suc n) (CNode cn) p lastAction st =
     (case call_run n cn (setParams cn p st) of
        None \<Rightarrow> None
      | Some (Inl e, st') \<Rightarrow> Some (Inl e, st')
      | Some (Inr a, st') \<Rightarrow>
          (case getNextNode cn a st' of
             (CNode b, st'') \<Rightarrow>
               (case clone b st'' of (c, st3) \<Rightarrow> Flow_orch_loop n (CNode c) p a st3)
           | (nx, st'') \<Rightarrow> Flow_orch_loop n nx p a st''))"
| "BatchFlow_loop n this [] st = Some (Inr (), st)"
| "BatchFlow_loop 0 this (bp # bps) st = None"
| "BatchFlow_loop (Suc n) this (bp # bps) st =
     (case Flow_orch n this (Some (spread (params (this_fields st this)) (own_entries bp))) st of
        None \<Rightarrow> None
      | Some (Inl e, st') \<Rightarrow> Some (Inl e, st')
      | Some (Inr a, st') \<Rightarrow> BatchFlow_loop n this bps st')"

  by pat_completeness auto
termination
  by (relation "measure (\<lambda>x. case x of
        Inl (Inl (n, _)) \<Rightarrow> n | Inl (Inr (n, _)) \<Rightarrow> n
      | Inr (Inl (n, _)) \<Rightarrow> n | Inr (Inr (n, _)) \<Rightarrow> n)") simp_all

text \<open>\<^verbatim>\<open>run\<close> (lines 55 to 60).\<close>

definition warn_successors :: "addr \<Rightarrow> 'w state \<Rightarrow> 'w state" where
  "warn_successors this st =
     (if successors (this_fields st this) \<noteq> []
      then warn ''Node won't run successors. Use Flow.'' st else st)"

definition run :: "nat \<Rightarrow> addr \<Rightarrow> 'w state \<Rightarrow> ((jsval + action) \<times> 'w state) option" where
  "run n this st = call_run n this (warn_successors this st)"

section \<open>Suspendable functions\<close>

text \<open>
  A promise that an \<^verbatim>\<open>async\<close> function returns is a \<open>task\<close>: it is settled (\<open>Done\<close>, with
  \<open>Inl\<close> for a rejection), or the function is suspended at an \<^verbatim>\<open>await\<close> (\<open>Await u k\<close>): when
  the runtime resumes it in a state \<open>st\<close>, it runs up to its next \<^verbatim>\<open>await\<close> or to its end,
  which leaves the state \<open>u st\<close> and the promise \<open>k st\<close>. \<open>Stuck\<close> is a promise whose function
  has run out of fuel. A call of an \<^verbatim>\<open>async\<close> function is a \<open>proc\<close>: it runs the function up
  to its first \<^verbatim>\<open>await\<close> and returns the promise.
\<close>

datatype ('a, 'w) task =
    Done "jsval + 'a"
  | Stuck
  | Await "'w state \<Rightarrow> 'w state" "'w state \<Rightarrow> ('a, 'w) task"

type_synonym ('a, 'w) proc = "'w state \<Rightarrow> ('a, 'w) task \<times> 'w state"

definition susp :: "('a, 'w) proc \<Rightarrow> ('a, 'w) task" where
  "susp p = Await (\<lambda>st. snd (p st)) (\<lambda>st. fst (p st))"

text \<open>
  \<^verbatim>\<open>await p\<close> followed by the rest \<open>c\<close> of the function, which receives what \<open>p\<close> settles
  to: the function is suspended also when \<open>p\<close> is settled already. \<open>settled r\<close> ends the
  function: \<^verbatim>\<open>return\<close>, or a \<^verbatim>\<open>throw\<close> that nothing catches. \<open>or_throw c\<close> is a rest that does
  not catch. \<open>async_call f\<close> is a call of an \<^verbatim>\<open>async\<close> method \<open>f\<close> of the user.
\<close>

primrec await_then :: "('a, 'w) task \<Rightarrow> (jsval + 'a \<Rightarrow> ('b, 'w) proc) \<Rightarrow> ('b, 'w) task" where
  "await_then (Done r) c = susp (c r)"
| "await_then Stuck c = Stuck"
| "await_then (Await u k) c = Await u (\<lambda>st. await_then (k st) c)"

definition await :: "('a, 'w) proc \<Rightarrow> (jsval + 'a \<Rightarrow> ('b, 'w) proc) \<Rightarrow> ('b, 'w) proc" where
  "await p c st = (case p st of (t, st') \<Rightarrow> (await_then t c, st'))"

definition settled :: "jsval + 'a \<Rightarrow> ('a, 'w) proc" where
  "settled r st = (Done r, st)"

definition or_throw :: "('a \<Rightarrow> ('b, 'w) proc) \<Rightarrow> jsval + 'a \<Rightarrow> ('b, 'w) proc" where
  "or_throw c r = (case r of Inl e \<Rightarrow> settled (Inl e) | Inr v \<Rightarrow> c v)"

definition async_call :: "('w \<Rightarrow> (jsval + 'a) \<times> 'w) \<Rightarrow> ('a, 'w) proc" where
  "async_call f st = (case f (world st) of (r, w) \<Rightarrow> (Done r, set_world w st))"

text \<open>
  The runtime resumes a suspended function until its promise is settled; \<open>drive\<close>
  counts the resumptions and returns those it has not used. \<open>complete n p st\<close> calls
  \<open>p\<close> in \<open>st\<close> and waits for the promise.
\<close>

fun drive :: "nat \<Rightarrow> ('a, 'w) task \<Rightarrow> 'w state \<Rightarrow> ((jsval + 'a) \<times> 'w state \<times> nat) option" where
  "drive n (Done r) st = Some (r, st, n)"
| "drive n Stuck st = None"
| "drive 0 (Await u k) st = None"
| "drive (Suc n) (Await u k) st = drive n (k st) (u st)"

definition complete :: "nat \<Rightarrow> ('a, 'w) proc \<Rightarrow> 'w state \<Rightarrow> ((jsval + 'a) \<times> 'w state) option" where
  "complete n p st =
     (case p st of (t, st') \<Rightarrow> map_option (\<lambda>(r, s, m). (r, s)) (drive n t st'))"

text \<open>
  \<^verbatim>\<open>AsyncNode._exec\<close> (lines 203 to 216). The loop variable is the local \<^verbatim>\<open>i\<close>; the
  fields are read when the statement that reads them runs. The loop takes fuel, since
  the states in which it is resumed are not of its making.
\<close>

fun AsyncNode_exec_loop :: "nat \<Rightarrow> addr \<Rightarrow> jsval \<Rightarrow> int \<Rightarrow> (jsval, 'w) proc" where
  "AsyncNode_exec_loop 0 this prepRes i st = (Stuck, st)"
| "AsyncNode_exec_loop (Suc n) this prepRes i st =
     (if i < maxRetries (this_fields st this) then
        await (async_call (execAsync (this_meths st this) (this_fields st this) prepRes))
          (\<lambda>r. case r of
                  Inr v \<Rightarrow> settled (Inr v)
                | Inl e \<Rightarrow>
                    (\<lambda>st'. if i = maxRetries (this_fields st' this) - 1 then
                             await (async_call (execFallbackAsync (this_meths st' this)
                                                  (this_fields st' this) prepRes e))
                               settled st'
                           else if wait (this_fields st' this) > 0 then
                             await (settled (Inr ()))
                               (\<lambda>u st''. AsyncNode_exec_loop n this prepRes (i + 1) st'') st'
                           else AsyncNode_exec_loop n this prepRes (i + 1) st'))
          st
      else settled (Inr VUndefined) st)"

definition AsyncNode_exec :: "nat \<Rightarrow> addr \<Rightarrow> jsval \<Rightarrow> (jsval, 'w) proc" where
  "AsyncNode_exec n this prepRes = AsyncNode_exec_loop n this prepRes 0"

text \<open>\<^verbatim>\<open>AsyncBatchNode._exec\<close> (lines 237 to 243).\<close>

fun AsyncBatchNode_loop :: "nat \<Rightarrow> addr \<Rightarrow> jsval list \<Rightarrow> jsval list \<Rightarrow> (jsval, 'w) proc" where
  "AsyncBatchNode_loop n this [] results st = settled (Inr (VArr results)) st"
| "AsyncBatchNode_loop n this (item # items) results st =
     await (AsyncNode_exec n this item)
       (or_throw (\<lambda>r st'. AsyncBatchNode_loop n this items (results @ [r]) st')) st"

definition AsyncBatchNode_exec :: "nat \<Rightarrow> addr \<Rightarrow> jsval \<Rightarrow> (jsval, 'w) proc" where
  "AsyncBatchNode_exec n this items =
     (case iterate items of
        Inl e \<Rightarrow> settled (Inl e)
      | Inr xs \<Rightarrow> AsyncBatchNode_loop n this xs [])"

text \<open>
  \<^verbatim>\<open>xs.map(x => f(x))\<close> for an \<^verbatim>\<open>async\<close> function \<open>f\<close>: the calls are made one after the
  other, each running up to its first \<^verbatim>\<open>await\<close>.
\<close>

fun launch :: "('a, 'w) proc list \<Rightarrow> 'w state \<Rightarrow> ('a, 'w) task list \<times> 'w state" where
  "launch [] st = ([], st)"
| "launch (p # ps) st =
     (case p st of (t, st') \<Rightarrow> (case launch ps st' of (ts, st'') \<Rightarrow> (t # ts, st'')))"

text \<open>
  \<^verbatim>\<open>Promise.all\<close>. It is rejected as soon as one of the promises is, and fulfilled with
  the values in the order of the promises once all are fulfilled. Otherwise one of the
  suspended functions is resumed: the one the head of the \<open>schedule\<close> selects among the
  \<open>pending\<close> ones, the first of them when the schedule is empty. After a rejection the
  functions still suspended are not followed further.
\<close>

primrec is_Stuck :: "('a, 'w) task \<Rightarrow> bool" where
  "is_Stuck (Done r) = False"
| "is_Stuck Stuck = True"
| "is_Stuck (Await u k) = False"

primrec is_Await :: "('a, 'w) task \<Rightarrow> bool" where
  "is_Await (Done r) = False"
| "is_Await Stuck = False"
| "is_Await (Await u k) = True"

fun rejection :: "('a, 'w) task list \<Rightarrow> jsval option" where
  "rejection [] = None"
| "rejection (Done (Inl e) # ts) = Some e"
| "rejection (t # ts) = rejection ts"

fun fulfilled :: "('a, 'w) task list \<Rightarrow> 'a list" where
  "fulfilled [] = []"
| "fulfilled (Done (Inr v) # ts) = v # fulfilled ts"
| "fulfilled (t # ts) = fulfilled ts"

definition pending :: "('a, 'w) task list \<Rightarrow> nat list" where
  "pending ts = filter (\<lambda>i. is_Await (ts ! i)) [0..<length ts]"

definition chosen :: "nat list \<Rightarrow> 'w state \<Rightarrow> nat" where
  "chosen ps st = (case schedule st of [] \<Rightarrow> hd ps | c # cs \<Rightarrow> ps ! (c mod length ps))"

definition scheduled :: "'w state \<Rightarrow> 'w state" where
  "scheduled st = st\<lparr>schedule := tl (schedule st)\<rparr>"

primrec resume_state :: "('a, 'w) task \<Rightarrow> 'w state \<Rightarrow> 'w state" where
  "resume_state (Done r) st = st"
| "resume_state Stuck st = st"
| "resume_state (Await u k) st = u st"

primrec resume_task :: "('a, 'w) task \<Rightarrow> 'w state \<Rightarrow> ('a, 'w) task" where
  "resume_task (Done r) st = Done r"
| "resume_task Stuck st = Stuck"
| "resume_task (Await u k) st = k st"

fun Promise_all :: "nat \<Rightarrow> ('a, 'w) task list \<Rightarrow> ('a list, 'w) task" where
  "Promise_all n ts =
     (if list_ex is_Stuck ts then Stuck
      else case rejection ts of
        Some e \<Rightarrow> Done (Inl e)
      | None \<Rightarrow>
          if pending ts = [] then Done (Inr (fulfilled ts))
          else case n of
            0 \<Rightarrow> Stuck
          | Suc m \<Rightarrow>
              Await (\<lambda>st. resume_state (ts ! chosen (pending ts) st) (scheduled st))
                    (\<lambda>st. Promise_all m
                            (ts[chosen (pending ts) st :=
                                  resume_task (ts ! chosen (pending ts) st) (scheduled st)])))"

definition promise :: "('a, 'w) task \<Rightarrow> ('a, 'w) proc" where
  "promise t st = (t, st)"

text \<open>
  \<^verbatim>\<open>AsyncParallelBatchNode._exec\<close> (lines 247 to 249). A value that is not an array has
  no method \<^verbatim>\<open>map\<close>.
\<close>

definition AsyncParallelBatchNode_exec :: "nat \<Rightarrow> addr \<Rightarrow> jsval \<Rightarrow> (jsval, 'w) proc" where
  "AsyncParallelBatchNode_exec n this items st =
     (case items of
        VArr xs \<Rightarrow>
          (case launch (map (AsyncNode_exec n this) xs) st of
             (ts, st') \<Rightarrow>
               await (promise (Promise_all n ts)) (or_throw (\<lambda>rs. settled (Inr (VArr rs)))) st')
      | _ \<Rightarrow> settled (Inl (VTypeError ''items.map is not a function'')) st)"

text \<open>
  \<^verbatim>\<open>this._exec\<close> in \<^verbatim>\<open>AsyncNode._runAsync\<close>, dispatched on the class of \<open>this\<close>, and
  \<^verbatim>\<open>AsyncNode._runAsync\<close> (lines 225 to 229).
\<close>

definition AsyncNode_exec_of :: "nat \<Rightarrow> addr \<Rightarrow> jsval \<Rightarrow> (jsval, 'w) proc" where
  "AsyncNode_exec_of n this prepRes st =
     (if kind (heap st this) = AsyncBatchNode then AsyncBatchNode_exec n this prepRes st
      else if kind (heap st this) = AsyncParallelBatchNode
        then AsyncParallelBatchNode_exec n this prepRes st
      else AsyncNode_exec n this prepRes st)"

definition AsyncNode_runAsync :: "nat \<Rightarrow> addr \<Rightarrow> (action, 'w) proc" where
  "AsyncNode_runAsync n this st =
     await (async_call (prepAsync (this_meths st this) (this_fields st this)))
       (or_throw (\<lambda>p.
          await (AsyncNode_exec_of n this p)
            (or_throw (\<lambda>e st'.
               await (async_call (postAsync (this_meths st' this) (this_fields st' this) p e))
                 settled st'))))
       st"

text \<open>
  \<^verbatim>\<open>AsyncFlow._orchAsync\<close> (lines 253 to 278). \<open>AsyncFlow_loop\<close> is its \<^verbatim>\<open>while\<close> loop and
  \<open>AsyncFlow_next\<close> the rest of the loop body once \<^verbatim>\<open>lastAction\<close> is assigned. An object
  whose class derives from \<^verbatim>\<open>AsyncNode\<close> is run with \<^verbatim>\<open>_runAsync\<close>; any other, a flow of
  class \<^verbatim>\<open>AsyncFlow\<close> among them, with the blocking \<^verbatim>\<open>_run\<close>.
\<close>

function (sequential) AsyncFlow_loop :: "nat \<Rightarrow> cur \<Rightarrow> (string \<times> jsval) list \<Rightarrow> action \<Rightarrow> (action, 'w) proc"
and AsyncFlow_next :: "nat \<Rightarrow> addr \<Rightarrow> (string \<times> jsval) list \<Rightarrow> action \<Rightarrow> (action, 'w) proc"
where
  "AsyncFlow_loop n CNull p lastAction st = settled (Inr lastAction) st"
| "AsyncFlow_loop n CForeign p lastAction st =
     settled (Inl (VTypeError ''curr.setParams is not a function'')) st"
| "AsyncFlow_loop 0 (CNode cn) p lastAction st = (Stuck, st)"
| "AsyncFlow_loop (Suc n) (CNode cn) p lastAction st =
     (if is_AsyncNode (kind (heap st cn)) then
        await (AsyncNode_runAsync n cn) (or_throw (\<lambda>a st'. AsyncFlow_next n cn p a st'))
          (setParams cn p st)
      else
        (case call_run n cn (setParams cn p st) of
           None \<Rightarrow> (Stuck, setParams cn p st)
         | Some (Inl e, st') \<Rightarrow> settled (Inl e) st'
         | Some (Inr a, st') \<Rightarrow> AsyncFlow_next n cn p a st'))"
| "AsyncFlow_next n cn p a st =
     (case getNextNode cn a st of
        (CNode b, st') \<Rightarrow> (case clone b st' of (c, st'') \<Rightarrow> AsyncFlow_loop n (CNode c) p a st'')
      | (nx, st') \<Rightarrow> AsyncFlow_loop n nx p a st')"
  by pat_completeness auto
termination
  by (relation "measure (\<lambda>x. case x of
        Inl (n, cu, _) \<Rightarrow> 2 * n + (case cu of CNode c \<Rightarrow> 0 | _ \<Rightarrow> 0)
      | Inr (n, _) \<Rightarrow> 2 * n + 1)") simp_all

definition AsyncFlow_orchAsync ::
  "nat \<Rightarrow> addr \<Rightarrow> (string \<times> jsval) list option \<Rightarrow> (action, 'w) proc" where
  "AsyncFlow_orchAsync n this ps st =
     (let p = (case ps of Some q \<Rightarrow> q | None \<Rightarrow> spread (params (this_fields st this)) [])
      in case startNode (this_fields st this) of
           None \<Rightarrow> AsyncFlow_loop n CNull p (Some ''default'') st
         | Some s \<Rightarrow>
             (case clone s st of
                (c, st1) \<Rightarrow> AsyncFlow_loop n (CNode c) p (Some ''default'') st1))"

text \<open>
  \<^verbatim>\<open>AsyncFlow._runAsync\<close> (lines 280 to 284), \<^verbatim>\<open>AsyncBatchFlow._runAsync\<close> (lines 307 to
  313) and \<^verbatim>\<open>AsyncParallelBatchFlow._runAsync\<close> (lines 317 to 323).
\<close>

definition AsyncFlow_runAsync :: "nat \<Rightarrow> addr \<Rightarrow> (action, 'w) proc" where
  "AsyncFlow_runAsync n this st =
     await (async_call (prepAsync (this_meths st this) (this_fields st this)))
       (or_throw (\<lambda>p.
          await (AsyncFlow_orchAsync n this None)
            (or_throw (\<lambda>ob st'.
               await (async_call (postAsync (this_meths st' this) (this_fields st' this)
                                    p (action_val ob)))
                 settled st'))))
       st"

fun AsyncBatchFlow_loop :: "nat \<Rightarrow> addr \<Rightarrow> jsval \<Rightarrow> jsval list \<Rightarrow> (action, 'w) proc" where
  "AsyncBatchFlow_loop n this pr [] st =
     await (async_call (postAsync (this_meths st this) (this_fields st this) pr VNull))
       settled st"
| "AsyncBatchFlow_loop n this pr (bp # bps) st =
     await (AsyncFlow_orchAsync n this
              (Some (spread (params (this_fields st this)) (own_entries bp))))
       (or_throw (\<lambda>a st'. AsyncBatchFlow_loop n this pr bps st')) st"

definition AsyncBatchFlow_runAsync :: "nat \<Rightarrow> addr \<Rightarrow> (action, 'w) proc" where
  "AsyncBatchFlow_runAsync n this st =
     await (async_call (prepAsync (this_meths st this) (this_fields st this)))
       (or_throw (\<lambda>v.
          case iterate (or_empty v) of
            Inl e \<Rightarrow> settled (Inl e)
          | Inr bps \<Rightarrow> AsyncBatchFlow_loop n this (or_empty v) bps))
       st"

definition AsyncParallelBatchFlow_runAsync :: "nat \<Rightarrow> addr \<Rightarrow> (action, 'w) proc" where
  "AsyncParallelBatchFlow_runAsync n this st =
     await (async_call (prepAsync (this_meths st this) (this_fields st this)))
       (or_throw (\<lambda>v.
          case or_empty v of
            VArr bps \<Rightarrow>
              (\<lambda>st1.
                 case launch (map (\<lambda>bp st'. AsyncFlow_orchAsync n this
                                    (Some (spread (params (this_fields st' this)) (own_entries bp))) st')
                              bps) st1 of
                   (ts, st2) \<Rightarrow>
                     await (promise (Promise_all n ts))
                       (or_throw (\<lambda>rs st3.
                          await (async_call (postAsync (this_meths st3 this) (this_fields st3 this)
                                               (or_empty v) VNull))
                            settled st3))
                       st2)
          | _ \<Rightarrow> settled (Inl (VTypeError ''pr.map is not a function''))))
       st"

text \<open>
  \<^verbatim>\<open>runAsync\<close> of \<^verbatim>\<open>AsyncNode\<close> (lines 218 to 223) and of \<^verbatim>\<open>AsyncFlow\<close> (lines 298 to 303).
  The other classes have no such method.
\<close>

definition warn_successors_async :: "string \<Rightarrow> addr \<Rightarrow> 'w state \<Rightarrow> 'w state" where
  "warn_successors_async msg this st =
     (if successors (this_fields st this) \<noteq> [] then warn msg st else st)"

definition runAsync :: "nat \<Rightarrow> addr \<Rightarrow> (action, 'w) proc" where
  "runAsync n this st =
     (if is_AsyncNode (kind (heap st this)) then
        await (AsyncNode_runAsync n this) settled
          (warn_successors_async ''Node won't run successors. Use AsyncFlow.'' this st)
      else if kind (heap st this) = AsyncFlow then
        await (AsyncFlow_runAsync n this) settled
          (warn_successors_async ''Flow won't run successors. Use parent AsyncFlow.'' this st)
      else if kind (heap st this) = AsyncBatchFlow then
        await (AsyncBatchFlow_runAsync n this) settled
          (warn_successors_async ''Flow won't run successors. Use parent AsyncFlow.'' this st)
      else if kind (heap st this) = AsyncParallelBatchFlow then
        await (AsyncParallelBatchFlow_runAsync n this) settled
          (warn_successors_async ''Flow won't run successors. Use parent AsyncFlow.'' this st)
      else settled (Inl (VTypeError ''this.runAsync is not a function'')) st)"

section \<open>Construction\<close>

text \<open>
  The constructors of \<^verbatim>\<open>Node\<close> (lines 77 to 81) and \<^verbatim>\<open>Flow\<close> (lines 114 to 117) with
  the field initialisers of lines 18, 19 and 75. \<open>k\<close> is the engine class the
  constructed class derives from and \<open>m\<close> its methods.
\<close>

definition new_fields :: fields where
  "new_fields = \<lparr>params = [], successors = [], maxRetries = 1, wait = 0, curRetry = 0,
                 startNode = None\<rparr>"

definition alloc :: "'w obj \<Rightarrow> 'w state \<Rightarrow> addr \<times> 'w state" where
  "alloc ob st = (nxt st, st\<lparr>heap := (heap st)(nxt st := ob), nxt := Suc (nxt st)\<rparr>)"

definition new_Node :: "kind \<Rightarrow> 'w methods \<Rightarrow> int \<Rightarrow> int \<Rightarrow> 'w state \<Rightarrow> addr \<times> 'w state" where
  "new_Node k m retries w st =
     alloc \<lparr>kind = k, meths = m, flds = new_fields\<lparr>maxRetries := retries, wait := w\<rparr>\<rparr> st"

definition new_Flow :: "kind \<Rightarrow> 'w methods \<Rightarrow> addr option \<Rightarrow> 'w state \<Rightarrow> addr \<times> 'w state" where
  "new_Flow k m start st =
     alloc \<lparr>kind = k, meths = m, flds = new_fields\<lparr>startNode := start\<rparr>\<rparr> st"

definition init_state :: "'w \<Rightarrow> 'w state" where
  "init_state w =
     \<lparr>heap = (\<lambda>a. \<lparr>kind = BaseNode, meths = node_methods, flds = new_fields\<rparr>),
      nxt = 0, world = w, console = [], schedule = []\<rparr>"

section \<open>Observing the attempts of one execute cycle\<close>

text \<open>
  \<open>failed_attempts ex f p i n w\<close> runs \<open>ex\<close> on \<open>p\<close> for the \<open>n\<close> attempts numbered
  \<open>i, i + 1, \<dots>\<close>, one after the other from the world \<open>w\<close>, each with the attempt number
  in the field \<^verbatim>\<open>curRetry\<close>. It is \<open>Some (es, w')\<close> when every one of them throws:
  \<open>es\<close> are the thrown values in order and \<open>w'\<close> is the world they leave.
\<close>

fun failed_attempts ::
  "(fields \<Rightarrow> jsval \<Rightarrow> 'w \<Rightarrow> (jsval + jsval) \<times> 'w) \<Rightarrow> fields \<Rightarrow> jsval \<Rightarrow> int \<Rightarrow> nat \<Rightarrow> 'w
     \<Rightarrow> (jsval list \<times> 'w) option" where
  "failed_attempts ex f p i 0 w = Some ([], w)"
| "failed_attempts ex f p i (Suc n) w =
     (case ex (f\<lparr>curRetry := i\<rparr>) p w of
        (Inr r, w') \<Rightarrow> None
      | (Inl e, w') \<Rightarrow>
          (case failed_attempts ex f p (i + 1) n w' of
             None \<Rightarrow> None
           | Some (es, w'') \<Rightarrow> Some (e # es, w'')))"


section \<open>Example nodes\<close>

text \<open>
  A node in the manner of the repository's retry test: the world counts the calls of
  \<^verbatim>\<open>exec\<close> and of \<^verbatim>\<open>execFallback\<close>; \<^verbatim>\<open>exec\<close> throws while fewer than \<open>good\<close> calls
  came before.
\<close>

definition counting_methods :: "nat \<Rightarrow> (nat \<times> nat) methods" where
  "counting_methods good =
     node_methods
       \<lparr>exec := (\<lambda>this p (a, b).
                  (if a < good then Inl (VError ''Simulated failure'') else Inr (VStr ''success''),
                   (Suc a, b))),
        execFallback := (\<lambda>this p e (a, b). (Inr (VStr ''fallback''), (a, Suc b)))\<rparr>"


definition counting_node :: "nat \<Rightarrow> bool \<Rightarrow> int \<Rightarrow> (nat \<times> nat) state" where
  "counting_node good fb k =
     snd (new_Node Node
            (if fb then counting_methods good
             else (counting_methods good)\<lparr>execFallback := default_execFallback\<rparr>)
            k 0 (init_state (0, 0)))"

section \<open>Observing the items of a batch\<close>

text \<open>
  \<open>item_state f xs st j\<close> is the state in which item number \<open>j\<close> of \<open>xs\<close> is taken up,
  when \<open>f\<close> is applied to the items one after the other from \<open>st\<close>.
\<close>

fun item_state :: "(jsval \<Rightarrow> 's \<Rightarrow> (jsval + jsval) \<times> 's) \<Rightarrow> jsval list \<Rightarrow> 's \<Rightarrow> nat \<Rightarrow> 's" where
  "item_state f xs st 0 = st"
| "item_state f [] st (Suc j) = st"
| "item_state f (x # xs) st (Suc j) = item_state f xs (snd (f x st)) j"


text \<open>
  A batch node in the manner of the repository's batch test; an item that is not a
  string makes \<^verbatim>\<open>exec\<close> throw, and \<^verbatim>\<open>execFallback\<close> answers \<open>''skipped''\<close>. The world
  counts the calls of \<^verbatim>\<open>exec\<close>.
\<close>

definition batch_example :: "nat state" where
  "batch_example =
     snd (new_Node BatchNode
            (node_methods
               \<lparr>exec := (\<lambda>this item w.
                    (case item of VStr s \<Rightarrow> Inr (VStr (''processed: '' @ s))
                                | _ \<Rightarrow> Inl (VError ''not a string''), Suc w)),
                execFallback := (\<lambda>this item e w. (Inr (VStr ''skipped''), w))\<rparr>)
            2 0 (init_state 0))"

section \<open>What a run may write\<close>

text \<open>
  \<open>frame A st st'\<close>: from \<open>st\<close> to \<open>st'\<close> no object is freed, and every object that
  exists in \<open>st\<close>, those at the addresses in \<open>A\<close> apart, is the same in \<open>st'\<close>.
  \<open>run_frame this st st'\<close>: moreover the object \<open>this\<close> differs at most in its retry
  counter, and not at all when it is a flow.
\<close>

definition frame :: "addr set \<Rightarrow> 'w state \<Rightarrow> 'w state \<Rightarrow> bool" where
  "frame A st st' \<longleftrightarrow> nxt st \<le> nxt st' \<and> (\<forall>a<nxt st. a \<notin> A \<longrightarrow> heap st' a = heap st a)"

definition with_curRetry :: "int \<Rightarrow> 'w obj \<Rightarrow> 'w obj" where
  "with_curRetry c ob = ob\<lparr>flds := (flds ob)\<lparr>curRetry := c\<rparr>\<rparr>"


definition run_frame :: "addr \<Rightarrow> 'w state \<Rightarrow> 'w state \<Rightarrow> bool" where
  "run_frame this st st' \<longleftrightarrow>
     frame {this} st st' \<and>
     (this < nxt st \<longrightarrow>
        (\<exists>c. heap st' this = with_curRetry c (heap st this)) \<and>
        (is_Flow (kind (heap st this)) \<longrightarrow> heap st' this = heap st this))"

section \<open>Example graphs\<close>

text \<open>
  Nodes that append the name of each phase they run to the world and whose \<^verbatim>\<open>post\<close>
  returns a fixed label; a flow over two of them, built as in the repository's flow
  test: \<open>A\<close> at address 0 with \<open>B\<close> at address 1 as its successor under \<open>key\<close>, and the
  flow at address 2 with start node \<open>A\<close>. A node of class \<^verbatim>\<open>AsyncNode\<close> with the default
  methods.
\<close>

definition tracing_methods :: "string \<Rightarrow> action \<Rightarrow> (string list) methods" where
  "tracing_methods name label =
     node_methods
       \<lparr>prep := (\<lambda>this w. (Inr (VStr name), w @ [name @ ''.prep''])),
        exec := (\<lambda>this p w. (Inr p, w @ [name @ ''.exec''])),
        post := (\<lambda>this p e w. (Inr label, w @ [name @ ''.post'']))\<rparr>"

definition two_node_flow :: "action \<Rightarrow> string \<Rightarrow> action \<Rightarrow> (string list) state" where
  "two_node_flow la key lb =
     (let (a, s1) = new_Node Node (tracing_methods ''A'' la) 1 0 (init_state []);
          (b, s2) = new_Node Node (tracing_methods ''B'' lb) 1 0 s1;
          s3 = (case BaseNode_next a b key s2 of Some (n, s) \<Rightarrow> s | None \<Rightarrow> s2);
          (f, s4) = new_Flow Flow flow_methods (Some a) s3
      in s4)"


definition async_example :: "unit state" where
  "async_example = snd (new_Node AsyncNode node_methods 1 0 (init_state ()))"

section \<open>Relating two runs\<close>

text \<open>
  The objects a caller has built are those below an address \<open>n\<close>. \<open>refs_below n ob\<close>:
  the successors and the start node of \<open>ob\<close> are among them; \<open>closed n st\<close>: this holds of
  each of them. \<open>agree n s1 s2\<close>: two states hold the same objects below \<open>n\<close> and the same
  world. \<open>paired n s1 s2 t1 t2\<close>: the object \<open>t1\<close> of \<open>s1\<close> and the object \<open>t2\<close> of \<open>s2\<close> are
  equal, and are the same object when either is below \<open>n\<close>; \<open>cur_rel\<close> is \<open>paired\<close> for
  the loop variable of the orchestrator.
\<close>

definition refs_below :: "nat \<Rightarrow> 'w obj \<Rightarrow> bool" where
  "refs_below n ob \<longleftrightarrow>
     (\<forall>b\<in>snd ` set (successors (flds ob)). b < n) \<and>
     (\<forall>s. startNode (flds ob) = Some s \<longrightarrow> s < n)"

definition closed :: "nat \<Rightarrow> 'w state \<Rightarrow> bool" where
  "closed n st \<longleftrightarrow> n \<le> nxt st \<and> (\<forall>a<n. refs_below n (heap st a))"

definition agree :: "nat \<Rightarrow> 'w state \<Rightarrow> 'w state \<Rightarrow> bool" where
  "agree n s1 s2 \<longleftrightarrow>
     n \<le> nxt s1 \<and> n \<le> nxt s2 \<and> (\<forall>a<n. heap s1 a = heap s2 a) \<and> world s1 = world s2"

definition paired :: "nat \<Rightarrow> 'w state \<Rightarrow> 'w state \<Rightarrow> addr \<Rightarrow> addr \<Rightarrow> bool" where
  "paired n s1 s2 t1 t2 \<longleftrightarrow>
     heap s1 t1 = heap s2 t2 \<and> t1 < nxt s1 \<and> t2 < nxt s2 \<and>
     (t1 < n \<or> t2 < n \<longrightarrow> t1 = t2) \<and> refs_below n (heap s1 t1)"

definition cur_rel :: "nat \<Rightarrow> 'w state \<Rightarrow> 'w state \<Rightarrow> cur \<Rightarrow> cur \<Rightarrow> bool" where
  "cur_rel n s1 s2 cu1 cu2 \<longleftrightarrow>
     (case (cu1, cu2) of
        (CNull, CNull) \<Rightarrow> True
      | (CForeign, CForeign) \<Rightarrow> True
      | (CNode c1, CNode c2) \<Rightarrow> paired n s1 s2 c1 c2
      | _ \<Rightarrow> False)"

text \<open>
  The four functions of the engine, run from two states that agree on two paired
  objects with fuel \<open>n\<close>: when the first run returns, the second returns the same
  value, and the final states agree.
\<close>

definition sim_run :: "nat \<Rightarrow> nat \<Rightarrow> 'w itself \<Rightarrow> bool" where
  "sim_run n0 n w \<longleftrightarrow>
     (\<forall>t1 t2 (s1 :: 'w state) s2 r s1'.
        agree n0 s1 s2 \<longrightarrow> closed n0 s1 \<longrightarrow> paired n0 s1 s2 t1 t2 \<longrightarrow>
        call_run n t1 s1 = Some (r, s1') \<longrightarrow>
        (\<exists>s2'. call_run n t2 s2 = Some (r, s2') \<and> agree n0 s1' s2' \<and> heap s1' t1 = heap s2' t2))"

definition sim_orch :: "nat \<Rightarrow> nat \<Rightarrow> 'w itself \<Rightarrow> bool" where
  "sim_orch n0 n w \<longleftrightarrow>
     (\<forall>t1 t2 ps (s1 :: 'w state) s2 r s1'.
        agree n0 s1 s2 \<longrightarrow> closed n0 s1 \<longrightarrow> paired n0 s1 s2 t1 t2 \<longrightarrow>
        Flow_orch n t1 ps s1 = Some (r, s1') \<longrightarrow>
        (\<exists>s2'. Flow_orch n t2 ps s2 = Some (r, s2') \<and> agree n0 s1' s2'))"

definition sim_loop :: "nat \<Rightarrow> nat \<Rightarrow> 'w itself \<Rightarrow> bool" where
  "sim_loop n0 n w \<longleftrightarrow>
     (\<forall>cu1 cu2 p la (s1 :: 'w state) s2 r s1'.
        agree n0 s1 s2 \<longrightarrow> closed n0 s1 \<longrightarrow> cur_rel n0 s1 s2 cu1 cu2 \<longrightarrow>
        Flow_orch_loop n cu1 p la s1 = Some (r, s1') \<longrightarrow>
        (\<exists>s2'. Flow_orch_loop n cu2 p la s2 = Some (r, s2') \<and> agree n0 s1' s2'))"

definition sim_batch :: "nat \<Rightarrow> nat \<Rightarrow> 'w itself \<Rightarrow> bool" where
  "sim_batch n0 n w \<longleftrightarrow>
     (\<forall>t1 t2 bps (s1 :: 'w state) s2 r s1'.
        agree n0 s1 s2 \<longrightarrow> closed n0 s1 \<longrightarrow> paired n0 s1 s2 t1 t2 \<longrightarrow>
        BatchFlow_loop n t1 bps s1 = Some (r, s1') \<longrightarrow>
        (\<exists>s2'. BatchFlow_loop n t2 bps s2 = Some (r, s2') \<and> agree n0 s1' s2'))"

text \<open>What a caller sees of a run: the value returned, or thrown, and the world.\<close>

definition outcome :: "(('a \<times> 'w state) option) \<Rightarrow> ('a \<times> 'w) option" where
  "outcome X = map_option (\<lambda>(r, s). (r, world s)) X"

text \<open>
  A node that records in the world, each time its \<^verbatim>\<open>prep\<close> runs, the parameters and the
  retry counter it finds in its fields, whose \<^verbatim>\<open>exec\<close> throws on the first attempt and
  whose \<^verbatim>\<open>post\<close> returns \<open>again\<close> until two records are there; with two attempts
  allowed and itself as its successor under \<open>again\<close>, it is the start node of a flow
  whose parameters bind \<open>k\<close>.
\<close>

definition observing_methods :: "((string \<times> jsval) list \<times> int) list methods" where
  "observing_methods =
     node_methods
       \<lparr>prep := (\<lambda>this w. (Inr VUndefined, w @ [(params this, curRetry this)])),
        exec := (\<lambda>this p w. (if curRetry this = 0 then Inl (VError ''first attempt'')
                              else Inr VUndefined, w)),
        post := (\<lambda>this p e w. (Inr (Some (if length w < 2 then ''again'' else ''done'')), w))\<rparr>"

definition loop_example :: "((string \<times> jsval) list \<times> int) list state" where
  "loop_example =
     (let (a, s1) = new_Node Node observing_methods 2 0 (init_state []);
          s2 = (case BaseNode_next a a ''again'' s1 of Some (n, s) \<Rightarrow> s | None \<Rightarrow> s1);
          (f, s3) = new_Flow Flow flow_methods (Some a) s2
      in setParams f [(''k'', VNum 1)] s3)"

section \<open>What a suspended function may write\<close>

text \<open>
  \<open>kept n st st'\<close>: from \<open>st\<close> to \<open>st'\<close> no object is freed and the objects below \<open>n\<close> are the
  same. \<open>keeps n t\<close>: whenever the promise \<open>t\<close> is resumed, now or later, in a state that
  holds \<open>n\<close> objects or more, the step keeps the objects below \<open>n\<close>; \<open>keeps_proc\<close> is the
  same for a call and the promise it returns.
\<close>

definition kept :: "nat \<Rightarrow> 'w state \<Rightarrow> 'w state \<Rightarrow> bool" where
  "kept n0 st st' \<longleftrightarrow> nxt st \<le> nxt st' \<and> (\<forall>a<n0. heap st' a = heap st a)"

primrec keeps :: "nat \<Rightarrow> ('a, 'w) task \<Rightarrow> bool" where
  "keeps n0 (Done r) = True"
| "keeps n0 Stuck = True"
| "keeps n0 (Await u k) = (\<forall>st. n0 \<le> nxt st \<longrightarrow> kept n0 st (u st) \<and> keeps n0 (k st))"

definition keeps_proc :: "nat \<Rightarrow> ('a, 'w) proc \<Rightarrow> bool" where
  "keeps_proc n0 p \<longleftrightarrow> (\<forall>st. n0 \<le> nxt st \<longrightarrow> kept n0 st (snd (p st)) \<and> keeps n0 (fst (p st)))"

text \<open>
  A suspendable node that records in the world, each time its \<^verbatim>\<open>prepAsync\<close> runs, the
  parameters and the retry counter it finds in its fields, and whose \<^verbatim>\<open>postAsync\<close>
  returns \<open>again\<close> until two records are there. It is its own successor under \<open>again\<close>
  and the start node of an \<^verbatim>\<open>AsyncFlow\<close> whose parameters bind \<open>k\<close>; and, without a
  successor, the start node of an \<^verbatim>\<open>AsyncParallelBatchFlow\<close> whose \<^verbatim>\<open>prepAsync\<close> returns
  two parameter sets, in a state whose schedule resumes the second traversal first.
\<close>

definition observing_async_methods :: "((string \<times> jsval) list \<times> int) list methods" where
  "observing_async_methods =
     node_methods
       \<lparr>prepAsync := (\<lambda>this w. (Inr VUndefined, w @ [(params this, curRetry this)])),
        postAsync := (\<lambda>this p e w. (Inr (Some (if length w < 2 then ''again'' else ''done'')), w))\<rparr>"

definition async_loop_example :: "((string \<times> jsval) list \<times> int) list state" where
  "async_loop_example =
     (let (a, s1) = new_Node AsyncNode observing_async_methods 1 0 (init_state []);
          s2 = (case BaseNode_next a a ''again'' s1 of Some (n, s) \<Rightarrow> s | None \<Rightarrow> s1);
          (f, s3) = new_Flow AsyncFlow flow_methods (Some a) s2
      in setParams f [(''k'', VNum 1)] s3)"

definition parallel_flow_example :: "((string \<times> jsval) list \<times> int) list state" where
  "parallel_flow_example =
     (let (a, s1) = new_Node AsyncNode observing_async_methods 1 0 (init_state []);
          (f, s2) = new_Flow AsyncParallelBatchFlow
                      (flow_methods\<lparr>prepAsync := (\<lambda>this w.
                          (Inr (VArr [VObj [(''k'', VNum 1)], VObj [(''k'', VNum 2)]]), w))\<rparr>)
                      (Some a) s1
      in s2\<lparr>schedule := [1, 0, 1]\<rparr>)"

section \<open>What a promise settles to\<close>

text \<open>
  \<open>settles P d t r\<close>: resumed in states that satisfy \<open>P\<close>, the promise \<open>t\<close> is settled to \<open>r\<close>
  after \<open>d\<close> resumptions at most, each of which keeps \<open>P\<close>; \<open>settles_proc\<close> is the same
  for a call and the promise it returns. \<open>unchanged this ob\<close> is the \<open>P\<close> used: the object
  \<open>this\<close> has the fields and the methods of \<open>ob\<close>.
\<close>

fun settles :: "('w state \<Rightarrow> bool) \<Rightarrow> nat \<Rightarrow> ('a, 'w) task \<Rightarrow> jsval + 'a \<Rightarrow> bool" where
  "settles P d (Done r') r = (r' = r)"
| "settles P d Stuck r = False"
| "settles P 0 (Await u k) r = False"
| "settles P (Suc d) (Await u k) r = (\<forall>s. P s \<longrightarrow> P (u s) \<and> settles P d (k s) r)"

definition settles_proc :: "('w state \<Rightarrow> bool) \<Rightarrow> nat \<Rightarrow> ('a, 'w) proc \<Rightarrow> jsval + 'a \<Rightarrow> bool" where
  "settles_proc P d p r \<longleftrightarrow> (\<forall>s. P s \<longrightarrow> P (snd (p s)) \<and> settles P d (fst (p s)) r)"

definition unchanged :: "addr \<Rightarrow> 'w obj \<Rightarrow> 'w state \<Rightarrow> bool" where
  "unchanged this ob s \<longleftrightarrow> flds (heap s this) = flds ob \<and> meths (heap s this) = meths ob"

text \<open>
  \<open>pure_exec ob\<close>: what \<^verbatim>\<open>execAsync\<close> and \<^verbatim>\<open>execFallbackAsync\<close> of \<open>ob\<close> return or throw
  does not depend on the world (they may still write it). Then one item has one
  result, \<open>item_result\<close>, whatever runs before or between its attempts, and
  \<open>seq_result\<close> is what a loop over the items makes of these results.
\<close>

definition pure_exec :: "'w obj \<Rightarrow> bool" where
  "pure_exec ob \<longleftrightarrow>
     (\<forall>x w w'. fst (execAsync (meths ob) (flds ob) x w) = fst (execAsync (meths ob) (flds ob) x w')) \<and>
     (\<forall>x e w w'. fst (execFallbackAsync (meths ob) (flds ob) x e w)
                  = fst (execFallbackAsync (meths ob) (flds ob) x e w'))"

definition item_result :: "'w obj \<Rightarrow> 'w \<Rightarrow> jsval \<Rightarrow> jsval + jsval" where
  "item_result ob w x =
     (if maxRetries (flds ob) \<le> 0 then Inr VUndefined
      else case fst (execAsync (meths ob) (flds ob) x w) of
             Inr v \<Rightarrow> Inr v
           | Inl e \<Rightarrow> fst (execFallbackAsync (meths ob) (flds ob) x e w))"

fun seq_result :: "(jsval + jsval) list \<Rightarrow> jsval list \<Rightarrow> jsval + jsval" where
  "seq_result [] acc = Inr (VArr acc)"
| "seq_result (Inl e # rs) acc = Inl e"
| "seq_result (Inr v # rs) acc = seq_result rs (acc @ [v])"

text \<open>
  Two nodes with two attempts. The \<^verbatim>\<open>execAsync\<close> of the first counts its calls in the
  world, throws on the first call and returns the count on the others. The
  \<^verbatim>\<open>execAsync\<close> of the second tags a string and throws on anything else, counting its
  calls as well, and its \<^verbatim>\<open>execFallbackAsync\<close> returns a fixed value.
\<close>

definition flaky_methods :: "nat methods" where
  "flaky_methods =
     node_methods
       \<lparr>execAsync := (\<lambda>this item c.
           (if c = 0 then Inl (VError ''busy'') else Inr (VNum (int c)), Suc c))\<rparr>"

definition flaky_node :: "kind \<Rightarrow> nat state" where
  "flaky_node k = snd (new_Node k flaky_methods 2 0 (init_state 0))"

definition tagging_methods :: "nat methods" where
  "tagging_methods =
     node_methods
       \<lparr>execAsync := (\<lambda>this item c.
           (case item of VStr s \<Rightarrow> Inr (VStr (''done: '' @ s)) | _ \<Rightarrow> Inl (VError ''not a string''),
            Suc c)),
        execFallbackAsync := (\<lambda>this item e c. (Inr (VStr ''skipped''), c))\<rparr>"

definition tagging_node :: "kind \<Rightarrow> nat list \<Rightarrow> nat state" where
  "tagging_node k sch = (snd (new_Node k tagging_methods 2 0 (init_state 0)))\<lparr>schedule := sch\<rparr>"

section \<open>Facts about the store and the retry loop\<close>

declare Node_exec_loop.simps [simp del]

lemma this_fields_set_curRetry [simp]:
  "this_fields (set_curRetry a c st) b = (if b = a then (this_fields st a)\<lparr>curRetry := c\<rparr> else this_fields st b)"
  by (simp add: this_fields_def set_curRetry_def)

lemma this_meths_set_curRetry [simp]: "this_meths (set_curRetry a c st) b = this_meths st b"
  by (simp add: this_meths_def set_curRetry_def)

lemma this_fields_set_world [simp]: "this_fields (set_world w st) b = this_fields st b"
  by (simp add: this_fields_def set_world_def)

lemma this_meths_set_world [simp]: "this_meths (set_world w st) b = this_meths st b"
  by (simp add: this_meths_def set_world_def)

lemma world_set_world [simp]: "world (set_world w st) = w"
  by (simp add: set_world_def)

lemma world_set_curRetry [simp]: "world (set_curRetry a c st) = world st"
  by (simp add: set_curRetry_def)

lemma set_world_set_world [simp]: "set_world w (set_world w' st) = set_world w st"
  by (simp add: set_world_def)

lemma set_curRetry_set_curRetry [simp]: "set_curRetry a c (set_curRetry a c' st) = set_curRetry a c st"
  by (simp add: set_curRetry_def)

lemma set_curRetry_set_world: "set_curRetry a c (set_world w st) = set_world w (set_curRetry a c st)"
  by (simp add: set_curRetry_def set_world_def)

lemma set_curRetry_same [simp]: "set_curRetry a (curRetry (this_fields st a)) st = st"
  by (simp add: set_curRetry_def this_fields_def)

lemma set_world_same [simp]: "set_world (world st) st = st"
  by (simp add: set_world_def)

lemma Node_exec_loop_failed:
  "failed_attempts (exec (this_meths st this)) (this_fields st this) p
       (curRetry (this_fields st this)) n (world st) = Some (es, w) \<Longrightarrow>
   curRetry (this_fields st this) + int n < maxRetries (this_fields st this) \<Longrightarrow>
   Node_exec_loop this p st =
     Node_exec_loop this p (set_world w (set_curRetry this (curRetry (this_fields st this) + int n) st))"
proof (induction n arbitrary: st es)
  case 0
  then show ?case by auto
next
  case (Suc n)
  let ?f = "this_fields st this"
  from Suc.prems(1) obtain e w1 es' where
    ex: "exec (this_meths st this) ?f p (world st) = (Inl e, w1)" and
    rest: "failed_attempts (exec (this_meths st this)) ?f p (curRetry ?f + 1) n w1 = Some (es', w)"
    by (auto split: prod.splits sum.splits option.splits)
  let ?st1 = "set_curRetry this (curRetry ?f + 1) (set_world w1 st)"
  have step: "Node_exec_loop this p st = Node_exec_loop this p ?st1"
    using ex Suc.prems(2) by (subst Node_exec_loop.simps) simp
  have fa: "failed_attempts ex (f\<lparr>curRetry := c\<rparr>) p i m w0 = failed_attempts ex f p i m w0"
    for ex f c i m and w0 :: 'w
    by (induction m arbitrary: i w0) (simp_all split: prod.splits sum.splits)
  have "Node_exec_loop this p ?st1 =
        Node_exec_loop this p (set_world w (set_curRetry this (curRetry (this_fields ?st1 this) + int n) ?st1))"
  proof (rule Suc.IH)
    show "failed_attempts (exec (this_meths ?st1 this)) (this_fields ?st1 this) p
            (curRetry (this_fields ?st1 this)) n (world ?st1) = Some (es', w)"
      using rest by (simp add: fa set_curRetry_set_world)
    show "curRetry (this_fields ?st1 this) + int n < maxRetries (this_fields ?st1 this)"
      using Suc.prems(2) by simp
  qed
  then show ?case using step
    by (simp add: set_curRetry_set_world add.assoc)
qed


lemma failed_attempts_length:
  "failed_attempts ex f p i n w = Some (es, w') \<Longrightarrow> length es = n"
  by (induction n arbitrary: i w es) (auto split: prod.splits sum.splits option.splits)

lemma failed_attempts_update [simp]:
  "failed_attempts ex (f\<lparr>curRetry := c\<rparr>) p i m w0 = failed_attempts ex f p i m w0"
  by (induction m arbitrary: i w0) (simp_all split: prod.splits sum.splits)

lemma failed_attempts_snoc:
  "failed_attempts ex f p i (Suc n) w = Some (es, w') \<Longrightarrow>
   \<exists>es0 w1. failed_attempts ex f p i n w = Some (es0, w1) \<and>
            ex (f\<lparr>curRetry := i + int n\<rparr>) p w1 = (Inl (last es), w') \<and> es = es0 @ [last es]"
proof (induction n arbitrary: i w es)
  case 0
  then show ?case by (auto split: prod.splits sum.splits)
next
  case (Suc n)
  from Suc.prems obtain e w1 es' where
    ex: "ex (f\<lparr>curRetry := i\<rparr>) p w = (Inl e, w1)" and
    rest: "failed_attempts ex f p (i + 1) (Suc n) w1 = Some (es', w')" and es: "es = e # es'"
    by (auto split: prod.splits sum.splits option.splits)
  from Suc.IH[OF rest] obtain es0 w2 where
    a: "failed_attempts ex f p (i + 1) n w1 = Some (es0, w2)" and
    b: "ex (f\<lparr>curRetry := i + 1 + int n\<rparr>) p w2 = (Inl (last es'), w')" and
    c: "es' = es0 @ [last es']"
    by blast
  have ne: "es' \<noteq> []" using c by auto
  have "failed_attempts ex f p i (Suc n) w = Some (e # es0, w2)"
    using ex a by simp
  moreover have "ex (f\<lparr>curRetry := i + int (Suc n)\<rparr>) p w2 = (Inl (last es), w')"
    using b es ne by (simp add: add.commute add.left_commute)
  moreover have "es = (e # es0) @ [last es]"
    using es c ne by auto
  ultimately show ?case by blast
qed

lemma Node_exec_exhausted:
  assumes k: "maxRetries (this_fields st this) = int k" "1 \<le> k"
      and fails: "failed_attempts (exec (this_meths st this)) (this_fields st this) p 0 k (world st)
                    = Some (es, w)"
  shows "Node_exec this p st =
           (case execFallback (this_meths st this) ((this_fields st this)\<lparr>curRetry := int k - 1\<rparr>)
                   p (last es) w of
              (r, w') \<Rightarrow> (r, set_world w' (set_curRetry this (int k - 1) st)))"
proof -
  obtain m where m: "k = Suc m" using k(2) by (cases k) auto
  let ?st0 = "set_curRetry this 0 st"
  from failed_attempts_snoc[OF fails[unfolded m]] obtain es0 w1 where
    a: "failed_attempts (exec (this_meths st this)) (this_fields st this) p 0 m (world st) = Some (es0, w1)" and
    b: "exec (this_meths st this) ((this_fields st this)\<lparr>curRetry := 0 + int m\<rparr>) p w1 = (Inl (last es), w)"
    by blast
  have "Node_exec_loop this p ?st0 =
        Node_exec_loop this p (set_world w1 (set_curRetry this (curRetry (this_fields ?st0 this) + int m) ?st0))"
    by (rule Node_exec_loop_failed) (use a k m in simp_all)
  also have "\<dots> = Node_exec_loop this p (set_world w1 (set_curRetry this (int m) st))"
    by simp
  also have "\<dots> = (case execFallback (this_meths st this) ((this_fields st this)\<lparr>curRetry := int m\<rparr>)
                   p (last es) w of
              (r, w') \<Rightarrow> (r, set_world w' (set_curRetry this (int m) st)))"
    using b k m by (subst Node_exec_loop.simps) (simp split: prod.splits)
  finally show ?thesis by (simp add: Node_exec_def m)
qed

lemma Node_exec_succeeds:
  assumes k: "maxRetries (this_fields st this) = int k" "1 \<le> k"
      and fails: "failed_attempts (exec (this_meths st this)) (this_fields st this) p 0 (k - 1) (world st)
                    = Some (es, w1)"
      and ok: "exec (this_meths st this) ((this_fields st this)\<lparr>curRetry := int k - 1\<rparr>) p w1 = (Inr r, w2)"
  shows "Node_exec this p st = (Inr r, set_world w2 (set_curRetry this (int k - 1) st))"
proof -
  obtain m where m: "k = Suc m" using k(2) by (cases k) auto
  let ?st0 = "set_curRetry this 0 st"
  have "Node_exec_loop this p ?st0 =
        Node_exec_loop this p (set_world w1 (set_curRetry this (curRetry (this_fields ?st0 this) + int m) ?st0))"
    by (rule Node_exec_loop_failed) (use fails k m in simp_all)
  also have "\<dots> = Node_exec_loop this p (set_world w1 (set_curRetry this (int m) st))"
    by simp
  also have "\<dots> = (Inr r, set_world w2 (set_curRetry this (int m) st))"
    using ok k m by (subst Node_exec_loop.simps) simp
  finally show ?thesis by (simp add: Node_exec_def m)
qed

lemma Node_exec_zero:
  "maxRetries (this_fields st this) \<le> 0 \<Longrightarrow> Node_exec this p st = (Inr VUndefined, set_curRetry this 0 st)"
  unfolding Node_exec_def by (subst Node_exec_loop.simps) simp

lemma this_fields_warn [simp]: "this_fields (warn m st) a = this_fields st a"
  by (simp add: this_fields_def warn_def)

lemma this_meths_warn [simp]: "this_meths (warn m st) a = this_meths st a"
  by (simp add: this_meths_def warn_def)

lemma world_warn [simp]: "world (warn m st) = world st"
  by (simp add: warn_def)

lemma heap_warn [simp]: "heap (warn m st) = heap st"
  by (simp add: warn_def)

lemma heap_set_world [simp]: "heap (set_world w st) = heap st"
  by (simp add: set_world_def)

lemma kind_set_curRetry [simp]: "kind (heap (set_curRetry a c st) b) = kind (heap st b)"
  by (simp add: set_curRetry_def)

lemma call_run_Node:
  "kind (heap st this) = Node \<Longrightarrow> call_run (Suc n) this st = Some (BaseNode_run Node_exec this st)"
  by simp


lemma counting_node_simps [simp]:
  "kind (heap (counting_node good fb k) 0) = Node"
  "this_fields (counting_node good fb k) 0 = new_fields\<lparr>maxRetries := k, wait := 0\<rparr>"
  "this_meths (counting_node good fb k) 0 =
     (if fb then counting_methods good
      else (counting_methods good)\<lparr>execFallback := default_execFallback\<rparr>)"
  "world (counting_node good fb k) = (0, 0)"
  by (simp_all add: counting_node_def new_Node_def alloc_def init_state_def this_fields_def
        this_meths_def)


section \<open>Retry and fallback\<close>

text \<open>
  Claim C2. A node of class \<^verbatim>\<open>Node\<close> with \<^verbatim>\<open>maxRetries = k\<close>, \<open>k \<ge> 1\<close>, whose \<^verbatim>\<open>exec\<close>
  throws on each of its \<open>k\<close> attempts: the retry wrapper returns what one call of
  \<^verbatim>\<open>execFallback\<close> returns, made in the world the \<open>k\<close> attempts leave, on the unchanged
  result of \<^verbatim>\<open>prep\<close> and the value thrown by the \<open>k\<close>-th attempt. With the default
  \<^verbatim>\<open>execFallback\<close> that value is thrown out of \<^verbatim>\<open>run\<close>.
\<close>

theorem retry_exhaustion_invokes_fallback_once:
  fixes st :: "'w state"
  assumes "kind (heap st this) = Node"
      and "maxRetries (this_fields st this) = int k" and "1 \<le> k"
      and "prep (this_meths st this) (this_fields st this) (world st) = (Inr p, w0)"
      and "failed_attempts (exec (this_meths st this)) (this_fields st this) p 0 k w0 = Some (es, w)"
  shows "length es = k \<and>
         Node_exec this p (set_world w0 st) =
           (case execFallback (this_meths st this) ((this_fields st this)\<lparr>curRetry := int k - 1\<rparr>)
                   p (last es) w of
              (r, w') \<Rightarrow> (r, set_world w' (set_curRetry this (int k - 1) st))) \<and>
         (execFallback (this_meths st this) = default_execFallback \<longrightarrow>
            (\<exists>st'. run (Suc n) this st = Some (Inl (last es), st') \<and> world st' = w))"
proof (intro conjI impI)
  show "length es = k" using assms(5) by (rule failed_attempts_length)
  have "Node_exec this p (set_world w0 st) =
           (case execFallback (this_meths (set_world w0 st) this)
                   ((this_fields (set_world w0 st) this)\<lparr>curRetry := int k - 1\<rparr>) p (last es) w of
              (r, w') \<Rightarrow> (r, set_world w' (set_curRetry this (int k - 1) (set_world w0 st))))"
    by (rule Node_exec_exhausted) (use assms in simp_all)
  then show ex: "Node_exec this p (set_world w0 st) =
           (case execFallback (this_meths st this) ((this_fields st this)\<lparr>curRetry := int k - 1\<rparr>)
                   p (last es) w of
              (r, w') \<Rightarrow> (r, set_world w' (set_curRetry this (int k - 1) st)))"
    by (simp add: set_curRetry_set_world)
  assume d: "execFallback (this_meths st this) = default_execFallback"
  define sw where "sw = warn_successors this st"
  have sw: "kind (heap sw this) = Node" "this_meths sw this = this_meths st this"
    "this_fields sw this = this_fields st this" "world sw = world st"
    using assms(1) by (simp_all add: sw_def warn_successors_def)
  have "Node_exec this p (set_world w0 sw) =
           (case execFallback (this_meths (set_world w0 sw) this)
                   ((this_fields (set_world w0 sw) this)\<lparr>curRetry := int k - 1\<rparr>) p (last es) w of
              (r, w') \<Rightarrow> (r, set_world w' (set_curRetry this (int k - 1) (set_world w0 sw))))"
    by (rule Node_exec_exhausted) (use assms sw in simp_all)
  then have "Node_exec this p (set_world w0 sw) = (Inl (last es), set_world w (set_curRetry this (int k - 1) sw))"
    using d sw by (simp add: default_execFallback_def set_curRetry_set_world)
  then have "run (Suc n) this st = Some (Inl (last es), set_world w (set_curRetry this (int k - 1) sw))"
    unfolding run_def sw_def[symmetric] using sw assms(4)
    by (simp add: BaseNode_run_def)
  then show "\<exists>st'. run (Suc n) this st = Some (Inl (last es), st') \<and> world st' = w"
    by simp
qed



theorem retry_exhaustion_witness:
  "Node_exec 0 VUndefined (counting_node 5 True 2) =
     (Inr (VStr ''fallback''), set_world (2, 1) (set_curRetry 0 1 (counting_node 5 True 2))) \<and>
   (\<exists>st'. run 1 0 (counting_node 5 False 2) = Some (Inl (VError ''Simulated failure''), st')
          \<and> world st' = (2, 0))"
proof -
  have p: "prep (this_meths (counting_node 5 fb 2) 0) (this_fields (counting_node 5 fb 2) 0)
             (world (counting_node 5 fb 2)) = (Inr VUndefined, (0, 0))" for fb
    by (simp add: counting_methods_def node_methods_def default_prep_def)
  have f: "failed_attempts (exec (this_meths (counting_node 5 fb 2) 0))
             (this_fields (counting_node 5 fb 2) 0) VUndefined 0 2 (0, 0)
           = Some ([VError ''Simulated failure'', VError ''Simulated failure''], (2, 0))" for fb
    by (simp add: counting_methods_def node_methods_def numeral_2_eq_2)
  have m: "maxRetries (this_fields (counting_node 5 fb 2) 0) = int 2" for fb
    by simp
  have k: "kind (heap (counting_node 5 fb 2) 0) = Node" for fb
    by simp
  have w: "set_world (0, 0) (counting_node 5 fb 2) = counting_node 5 fb 2" for fb
    using set_world_same[of "counting_node 5 fb 2"] by simp
  show ?thesis
    using retry_exhaustion_invokes_fallback_once[OF k m _ p f, of True 0]
          retry_exhaustion_invokes_fallback_once[OF k m _ p f, of False 0]
    by (simp add: w counting_methods_def node_methods_def)
qed

text \<open>
  Claim C3, as amended. A node of class \<^verbatim>\<open>Node\<close> with \<^verbatim>\<open>maxRetries = k\<close>, \<open>k \<ge> 1\<close>, whose
  \<^verbatim>\<open>exec\<close> throws on the first \<open>k - 1\<close> attempts and returns \<open>r\<close> on attempt \<open>k\<close>: the
  retry wrapper returns \<open>r\<close> at once, in the world that attempt leaves, so no call of
  \<^verbatim>\<open>execFallback\<close> takes place; the successful attempt reads \<open>k - 1\<close> in
  \<^verbatim>\<open>this.curRetry\<close>, and the field holds that value afterwards. \<^verbatim>\<open>run\<close> hands \<open>r\<close> to
  \<^verbatim>\<open>post\<close> and returns the label of \<^verbatim>\<open>post\<close>.
\<close>

theorem retry_success_after_failures:
  fixes st :: "'w state"
  assumes "kind (heap st this) = Node"
      and "maxRetries (this_fields st this) = int k" and "1 \<le> k"
      and "prep (this_meths st this) (this_fields st this) (world st) = (Inr p, w0)"
      and "failed_attempts (exec (this_meths st this)) (this_fields st this) p 0 (k - 1) w0
             = Some (es, w1)"
      and "exec (this_meths st this) ((this_fields st this)\<lparr>curRetry := int k - 1\<rparr>) p w1 = (Inr r, w2)"
      and "post (this_meths st this) ((this_fields st this)\<lparr>curRetry := int k - 1\<rparr>) p r w2 = (l, w3)"
  shows "Node_exec this p (set_world w0 st) = (Inr r, set_world w2 (set_curRetry this (int k - 1) st)) \<and>
         (\<exists>st'. run (Suc n) this st = Some (l, st') \<and> world st' = w3 \<and>
                curRetry (this_fields st' this) = int k - 1)"
proof
  have "Node_exec this p (set_world w0 st) =
          (Inr r, set_world w2 (set_curRetry this (int k - 1) (set_world w0 st)))"
    by (rule Node_exec_succeeds[where es = es and ?w1.0 = w1]) (use assms in simp_all)
  then show "Node_exec this p (set_world w0 st) = (Inr r, set_world w2 (set_curRetry this (int k - 1) st))"
    by (simp add: set_curRetry_set_world)
  define sw where "sw = warn_successors this st"
  have sw: "kind (heap sw this) = Node" "this_meths sw this = this_meths st this"
    "this_fields sw this = this_fields st this" "world sw = world st"
    using assms(1) by (simp_all add: sw_def warn_successors_def)
  have "Node_exec this p (set_world w0 sw) =
          (Inr r, set_world w2 (set_curRetry this (int k - 1) (set_world w0 sw)))"
    by (rule Node_exec_succeeds[where es = es and ?w1.0 = w1]) (use assms sw in simp_all)
  then have "run (Suc n) this st = Some (l, set_world w3 (set_world w2 (set_curRetry this (int k - 1) sw)))"
    unfolding run_def sw_def[symmetric] using sw assms(4,7)
    by (simp add: BaseNode_run_def set_curRetry_set_world)
  then show "\<exists>st'. run (Suc n) this st = Some (l, st') \<and> world st' = w3 \<and>
                curRetry (this_fields st' this) = int k - 1"
    by simp
qed

theorem retry_success_witness:
  "Node_exec 0 VUndefined (counting_node 2 True 3) =
     (Inr (VStr ''success''), set_world (3, 0) (set_curRetry 0 2 (counting_node 2 True 3))) \<and>
   (\<exists>st'. run 1 0 (counting_node 2 True 3) = Some (Inr (Some ''default''), st') \<and>
          world st' = (3, 0) \<and> curRetry (this_fields st' 0) = 2)"
proof -
  let ?st = "counting_node 2 True 3"
  have p: "prep (this_meths ?st 0) (this_fields ?st 0) (world ?st) = (Inr VUndefined, (0, 0))"
    by (simp add: counting_methods_def node_methods_def default_prep_def)
  have f: "failed_attempts (exec (this_meths ?st 0)) (this_fields ?st 0) VUndefined 0 (3 - 1) (0, 0)
           = Some ([VError ''Simulated failure'', VError ''Simulated failure''], (2, 0))"
    by (simp add: counting_methods_def node_methods_def numeral_2_eq_2)
  have e: "exec (this_meths ?st 0) ((this_fields ?st 0)\<lparr>curRetry := int 3 - 1\<rparr>) VUndefined (2, 0)
           = (Inr (VStr ''success''), (3, 0))"
    by (simp add: counting_methods_def node_methods_def)
  have q: "post (this_meths ?st 0) ((this_fields ?st 0)\<lparr>curRetry := int 3 - 1\<rparr>) VUndefined
             (VStr ''success'') (3, 0) = (Inr (Some ''default''), (3, 0))"
    by (simp add: counting_methods_def node_methods_def default_post_def)
  have m: "maxRetries (this_fields ?st 0) = int 3" by simp
  have k: "kind (heap ?st 0) = Node" by simp
  have w: "set_world (0, 0) ?st = ?st"
    using set_world_same[of ?st] by simp
  show ?thesis
    using retry_success_after_failures[OF k m _ p f e q, of 0]
    by (simp add: w)
qed


text \<open>
  The claim as first stated has \<^verbatim>\<open>run\<close> return the successful result. It returns the
  label of \<^verbatim>\<open>post\<close>: a node whose only attempt returns \<open>''success''\<close> and whose \<^verbatim>\<open>post\<close>
  is the default one returns \<open>''default''\<close>.
\<close>

theorem run_returns_label_counterexample:
  "fst (Node_exec 0 VUndefined (counting_node 0 True 1)) = Inr (VStr ''success'') \<and>
   map_option fst (run 1 0 (counting_node 0 True 1)) = Some (Inr (Some ''default'')) \<and>
   action_val (Some ''default'') \<noteq> VStr ''success''"
proof -
  let ?st = "counting_node 0 True 1"
  have a: "Node_exec 0 VUndefined ?st = (Inr (VStr ''success''), set_world (1, 0) (set_curRetry 0 0 ?st))"
    unfolding Node_exec_def
    by (subst Node_exec_loop.simps) (simp add: counting_methods_def node_methods_def)
  have w: "set_world (0, 0) ?st = ?st"
    using set_world_same[of ?st] by simp
  have "run 1 0 ?st = Some (Inr (Some ''default''), set_world (1, 0) (set_curRetry 0 0 ?st))"
    unfolding run_def warn_successors_def
    by (simp add: BaseNode_run_def a w new_fields_def)
       (simp add: counting_methods_def node_methods_def default_prep_def default_post_def a w)
  then show ?thesis using a by simp
qed

text \<open>
  Claim C10. A node of class \<^verbatim>\<open>Node\<close> with \<^verbatim>\<open>maxRetries = 0\<close>: the retry wrapper
  returns \<^verbatim>\<open>undefined\<close> and leaves the world as it is, so neither \<^verbatim>\<open>exec\<close> nor
  \<^verbatim>\<open>execFallback\<close> is called; \<^verbatim>\<open>run\<close> hands \<^verbatim>\<open>undefined\<close> to \<^verbatim>\<open>post\<close> and returns
  what \<^verbatim>\<open>post\<close> returns.
\<close>

theorem zero_retries_skips_exec:
  fixes st :: "'w state"
  assumes "kind (heap st this) = Node"
      and "maxRetries (this_fields st this) = 0"
  shows "Node_exec this p st = (Inr VUndefined, set_curRetry this 0 st) \<and>
         (\<forall>w0 l w1.
            prep (this_meths st this) (this_fields st this) (world st) = (Inr p, w0) \<longrightarrow>
            post (this_meths st this) ((this_fields st this)\<lparr>curRetry := 0\<rparr>) p VUndefined w0 = (l, w1) \<longrightarrow>
            (\<exists>st'. run (Suc n) this st = Some (l, st') \<and> world st' = w1))"
proof (intro conjI allI impI)
  show "Node_exec this p st = (Inr VUndefined, set_curRetry this 0 st)"
    using assms(2) by (simp add: Node_exec_zero)
  fix w0 l w1
  assume p: "prep (this_meths st this) (this_fields st this) (world st) = (Inr p, w0)"
     and q: "post (this_meths st this) ((this_fields st this)\<lparr>curRetry := 0\<rparr>) p VUndefined w0 = (l, w1)"
  define sw where "sw = warn_successors this st"
  have sw: "kind (heap sw this) = Node" "this_meths sw this = this_meths st this"
    "this_fields sw this = this_fields st this" "world sw = world st"
    using assms(1) by (simp_all add: sw_def warn_successors_def)
  have "run (Suc n) this st = Some (l, set_world w1 (set_curRetry this 0 (set_world w0 sw)))"
    unfolding run_def sw_def[symmetric] using sw assms(2) p q
    by (simp add: BaseNode_run_def Node_exec_zero)
  then show "\<exists>st'. run (Suc n) this st = Some (l, st') \<and> world st' = w1"
    by simp
qed

theorem zero_retries_witness:
  "Node_exec 0 (VStr ''x'') (counting_node 0 True 0)
     = (Inr VUndefined, set_curRetry 0 0 (counting_node 0 True 0)) \<and>
   (\<exists>st'. run 1 0 (counting_node 0 True 0) = Some (Inr (Some ''default''), st') \<and> world st' = (0, 0))"
proof -
  let ?st = "counting_node 0 True 0"
  have p: "prep (this_meths ?st 0) (this_fields ?st 0) (world ?st) = (Inr VUndefined, (0, 0))"
    by (simp add: counting_methods_def node_methods_def default_prep_def)
  have q: "post (this_meths ?st 0) ((this_fields ?st 0)\<lparr>curRetry := 0\<rparr>) VUndefined VUndefined (0, 0)
             = (Inr (Some ''default''), (0, 0))"
    by (simp add: counting_methods_def node_methods_def default_post_def)
  have m: "maxRetries (this_fields ?st 0) = 0" by simp
  have k: "kind (heap ?st 0) = Node" by simp
  show ?thesis
    using zero_retries_skips_exec[OF k m, of "VStr ''x''" 0]
          zero_retries_skips_exec[OF k m, of VUndefined 0] p q
    by simp
qed

section \<open>Batched tasks\<close>

lemma map_items_Inr:
  "map_items f xs st = (Inr rs, st') \<Longrightarrow>
   length rs = length xs \<and> st' = item_state f xs st (length xs) \<and>
   (\<forall>j<length xs. f (xs ! j) (item_state f xs st j) = (Inr (rs ! j), item_state f xs st (Suc j)))"
proof (induction xs arbitrary: st rs)
  case Nil
  then show ?case by simp
next
  case (Cons x xs)
  from Cons.prems obtain r st1 rs' where
    fx: "f x st = (Inr r, st1)" and rest: "map_items f xs st1 = (Inr rs', st')" and rs: "rs = r # rs'"
    by (auto split: prod.splits sum.splits)
  note ih = Cons.IH[OF rest]
  show ?case
  proof (intro conjI allI impI)
    show "length rs = length (x # xs)" using ih rs by simp
    show "st' = item_state f (x # xs) st (length (x # xs))" using ih fx by simp
    fix j assume "j < length (x # xs)"
    then show "f ((x # xs) ! j) (item_state f (x # xs) st j)
                 = (Inr (rs ! j), item_state f (x # xs) st (Suc j))"
      using ih fx rs by (cases j) auto
  qed
qed

lemma map_items_Inl:
  "map_items f xs st = (Inl e, st') \<Longrightarrow>
   \<exists>j<length xs.
     (\<forall>i<j. \<exists>r. f (xs ! i) (item_state f xs st i) = (Inr r, item_state f xs st (Suc i))) \<and>
     f (xs ! j) (item_state f xs st j) = (Inl e, st')"
proof (induction xs arbitrary: st)
  case Nil
  then show ?case by simp
next
  case (Cons x xs)
  show ?case
  proof (cases "f x st")
    case (Pair a st1)
    show ?thesis
    proof (cases a)
      case (Inl e')
      with Pair Cons.prems have "f x st = (Inl e, st')" by simp
      then have "(\<forall>i<0. \<exists>r. f ((x # xs) ! i) (item_state f (x # xs) st i)
                        = (Inr r, item_state f (x # xs) st (Suc i))) \<and>
                 f ((x # xs) ! 0) (item_state f (x # xs) st 0) = (Inl e, st')"
        by simp
      then show ?thesis by blast
    next
      case (Inr r)
      with Pair Cons.prems have rest: "map_items f xs st1 = (Inl e, st')"
        by (auto split: prod.splits sum.splits)
      from Cons.IH[OF rest] obtain j where j: "j < length xs"
        "\<forall>i<j. \<exists>r. f (xs ! i) (item_state f xs st1 i) = (Inr r, item_state f xs st1 (Suc i))"
        "f (xs ! j) (item_state f xs st1 j) = (Inl e, st')"
        by blast
      have "\<forall>i<Suc j. \<exists>r. f ((x # xs) ! i) (item_state f (x # xs) st i)
                        = (Inr r, item_state f (x # xs) st (Suc i))"
      proof (intro allI impI)
        fix i assume "i < Suc j"
        then show "\<exists>r. f ((x # xs) ! i) (item_state f (x # xs) st i)
                        = (Inr r, item_state f (x # xs) st (Suc i))"
          using j(2) Pair Inr by (cases i) auto
      qed
      moreover have "f ((x # xs) ! Suc j) (item_state f (x # xs) st (Suc j)) = (Inl e, st')"
        using j(3) Pair by simp
      moreover have "Suc j < length (x # xs)" using j(1) by simp
      ultimately show ?thesis by blast
    qed
  qed
qed

lemma Node_exec_loop_Inl:
  "Node_exec_loop this p st = (Inl e, st') \<Longrightarrow>
   \<exists>e0 w w'. execFallback (this_meths st this)
                ((this_fields st this)\<lparr>curRetry := maxRetries (this_fields st this) - 1\<rparr>) p e0 w
              = (Inl e, w')"
proof (induction this p st rule: Node_exec_loop.induct)
  case (1 this p st)
  show ?case
  proof (cases "curRetry (this_fields st this) < maxRetries (this_fields st this)")
    case False
    with "1.prems" show ?thesis by (subst (asm) Node_exec_loop.simps) simp
  next
    case lt: True
    obtain a w1 where ex: "exec (this_meths st this) (this_fields st this) p (world st) = (a, w1)"
      by (cases "exec (this_meths st this) (this_fields st this) p (world st)")
    show ?thesis
    proof (cases a)
      case (Inr r)
      with "1.prems" lt ex show ?thesis by (subst (asm) Node_exec_loop.simps) simp
    next
      case (Inl e1)
      show ?thesis
      proof (cases "curRetry (this_fields st this) = maxRetries (this_fields st this) - 1")
        case True
        with "1.prems" lt ex Inl
        have "fst (execFallback (this_meths st this) (this_fields st this) p e1 w1) = Inl e"
          by (subst (asm) Node_exec_loop.simps) (auto split: prod.splits)
        moreover have "(this_fields st this)\<lparr>curRetry := maxRetries (this_fields st this) - 1\<rparr>
                         = this_fields st this"
          using True by simp
        ultimately show ?thesis by (metis prod.collapse)
      next
        case False
        let ?st1 = "set_curRetry this (curRetry (this_fields st this) + 1) (set_world w1 st)"
        from "1.prems" lt ex Inl False have "Node_exec_loop this p ?st1 = (Inl e, st')"
          by (subst (asm) Node_exec_loop.simps) simp
        from "1.IH"[OF lt ex[symmetric] Inl False this]
        show ?thesis by simp
      qed
    qed
  qed
qed

lemma Node_exec_Inl:
  "Node_exec this p st = (Inl e, st') \<Longrightarrow>
   \<exists>e0 w w'. execFallback (this_meths st this)
                ((this_fields st this)\<lparr>curRetry := maxRetries (this_fields st this) - 1\<rparr>) p e0 w
              = (Inl e, w')"
  unfolding Node_exec_def by (drule Node_exec_loop_Inl) simp

lemma Node_exec_reset:
  "Node_exec this p (set_curRetry this c st) = Node_exec this p st"
  by (simp add: Node_exec_def)


lemma Node_exec_loop_state:
  "\<exists>c w. snd (Node_exec_loop this p st) = set_world w (set_curRetry this c st)"
proof (induction this p st rule: Node_exec_loop.induct)
  case (1 this p st)
  have id: "st = set_world (world st) (set_curRetry this (curRetry (this_fields st this)) st)"
    by simp
  show ?case
  proof (cases "curRetry (this_fields st this) < maxRetries (this_fields st this)")
    case False
    then have "snd (Node_exec_loop this p st) = st"
      by (subst Node_exec_loop.simps) simp
    then show ?thesis using id by metis
  next
    case lt: True
    obtain a w1 where ex: "exec (this_meths st this) (this_fields st this) p (world st) = (a, w1)"
      by (cases "exec (this_meths st this) (this_fields st this) p (world st)")
    show ?thesis
    proof (cases a)
      case (Inr r)
      with lt ex have "snd (Node_exec_loop this p st) = set_world w1 st"
        by (subst Node_exec_loop.simps) simp
      then have "snd (Node_exec_loop this p st)
                   = set_world w1 (set_curRetry this (curRetry (this_fields st this)) st)"
        by simp
      then show ?thesis by blast
    next
      case (Inl e1)
      show ?thesis
      proof (cases "curRetry (this_fields st this) = maxRetries (this_fields st this) - 1")
        case True
        with lt ex Inl
        have "snd (Node_exec_loop this p st)
                = set_world (snd (execFallback (this_meths st this) (this_fields st this) p e1 w1)) st"
          by (subst Node_exec_loop.simps) (simp split: prod.splits)
        then have "snd (Node_exec_loop this p st)
                = set_world (snd (execFallback (this_meths st this) (this_fields st this) p e1 w1))
                    (set_curRetry this (curRetry (this_fields st this)) st)"
          by simp
        then show ?thesis by blast
      next
        case False
        let ?st1 = "set_curRetry this (curRetry (this_fields st this) + 1) (set_world w1 st)"
        from lt ex Inl False have eq: "Node_exec_loop this p st = Node_exec_loop this p ?st1"
          by (subst Node_exec_loop.simps) simp
        from "1.IH"[OF lt ex[symmetric] Inl False]
        obtain c w where "snd (Node_exec_loop this p ?st1) = set_world w (set_curRetry this c ?st1)"
          by blast
        then have "snd (Node_exec_loop this p st) = set_world w (set_curRetry this c st)"
          using eq by (simp add: set_curRetry_set_world)
        then show ?thesis by blast
      qed
    qed
  qed
qed

lemma Node_exec_state:
  "\<exists>c w. snd (Node_exec this p st) = set_world w (set_curRetry this c st)"
  using Node_exec_loop_state[of this p "set_curRetry this 0 st"]
  by (simp add: Node_exec_def)

lemma state_self:
  "\<exists>c w. st = set_world w (set_curRetry this c st)"
proof -
  have "st = set_world (world st) (set_curRetry this (curRetry (this_fields st this)) st)"
    by simp
  then show ?thesis by blast
qed

lemma item_state_Node_exec:
  "\<exists>c w. item_state (Node_exec this) xs st j = set_world w (set_curRetry this c st)"
proof (induction xs arbitrary: st j)
  case Nil
  show ?case using state_self[of st this] by (cases j) simp_all
next
  case (Cons x xs)
  show ?case
  proof (cases j)
    case 0
    then show ?thesis using state_self[of st this] by simp
  next
    case (Suc i)
    obtain c w where a: "snd (Node_exec this x st) = set_world w (set_curRetry this c st)"
      using Node_exec_state[of this x st] by blast
    obtain c' w' where "item_state (Node_exec this) xs (snd (Node_exec this x st)) i
                          = set_world w' (set_curRetry this c' (snd (Node_exec this x st)))"
      using Cons.IH[of "snd (Node_exec this x st)" i] by blast
    then have "item_state (Node_exec this) (x # xs) st j = set_world w' (set_curRetry this c' st)"
      using a Suc by (simp add: set_curRetry_set_world)
    then show ?thesis by blast
  qed
qed


lemma batch_example_simps [simp]:
  "kind (heap batch_example 0) = BatchNode"
  "this_fields batch_example 0 = new_fields\<lparr>maxRetries := 2, wait := 0\<rparr>"
  "world batch_example = 0"
  by (simp_all add: batch_example_def new_Node_def alloc_def init_state_def this_fields_def)

lemma batch_example_exec [simp]:
  "exec (this_meths batch_example 0) f item w =
     (case item of VStr s \<Rightarrow> Inr (VStr (''processed: '' @ s))
                                | _ \<Rightarrow> Inl (VError ''not a string''), Suc w)"
  "execFallback (this_meths batch_example 0) f item e w = (Inr (VStr ''skipped''), w)"
  by (simp_all add: batch_example_def new_Node_def alloc_def init_state_def this_meths_def)

lemma batch_example_run:
  "BatchNode_exec 0 (VArr [VStr ''a'', VNum 7, VStr ''c'']) batch_example =
     (Inr (VArr [VStr ''processed: a'', VStr ''skipped'', VStr ''processed: c'']),
      set_world 4 (set_curRetry 0 0 batch_example))"
  by (simp add: BatchNode_exec_def Node_exec_def Node_exec_loop.simps set_curRetry_set_world
        eval_nat_numeral)


text \<open>
  Claim C5. \<^verbatim>\<open>BatchNode._exec\<close> on the items \<open>xs\<close>. When it returns, it returns an array
  of the length of \<open>xs\<close> whose \<open>j\<close>-th element is what the retry wrapper \<^verbatim>\<open>Node._exec\<close>
  returned for the \<open>j\<close>-th item (the result of \<^verbatim>\<open>exec\<close>, or of \<^verbatim>\<open>execFallback\<close> once the
  attempts are used up), the items being processed in input order. When it throws,
  the thrown value was thrown by \<^verbatim>\<open>execFallback\<close> for some item, and every item before
  that one was processed to its result. Each item's cycle sets the retry counter
  itself, so the counter an earlier item left does not reach it.
\<close>

theorem batch_results_in_input_order:
  fixes st :: "'w state"
  assumes "BatchNode_exec this (VArr xs) st = (r, st')"
  shows "(\<forall>v. r = Inr v \<longrightarrow>
            (\<exists>rs. v = VArr rs \<and> length rs = length xs \<and>
                  st' = item_state (Node_exec this) xs st (length xs) \<and>
                  (\<forall>j<length xs.
                      Node_exec this (xs ! j) (item_state (Node_exec this) xs st j)
                        = (Inr (rs ! j), item_state (Node_exec this) xs st (Suc j))))) \<and>
         (\<forall>e. r = Inl e \<longrightarrow>
            (\<exists>j<length xs.
                (\<forall>i<j. \<exists>ri. Node_exec this (xs ! i) (item_state (Node_exec this) xs st i)
                                = (Inr ri, item_state (Node_exec this) xs st (Suc i))) \<and>
                Node_exec this (xs ! j) (item_state (Node_exec this) xs st j) = (Inl e, st') \<and>
                (\<exists>e0 w w'. execFallback (this_meths st this)
                              ((this_fields st this)\<lparr>curRetry := maxRetries (this_fields st this) - 1\<rparr>)
                              (xs ! j) e0 w = (Inl e, w')))) \<and>
         (\<forall>j c s. Node_exec this (xs ! j) (set_curRetry this c s) = Node_exec this (xs ! j) (s :: 'w state))"
proof (intro conjI allI impI)
  fix v assume "r = Inr v"
  with assms obtain rs where rs: "map_items (Node_exec this) xs st = (Inr rs, st')" "v = VArr rs"
    by (auto simp: BatchNode_exec_def split: prod.splits sum.splits)
  from map_items_Inr[OF rs(1)] rs(2)
  show "\<exists>rs. v = VArr rs \<and> length rs = length xs \<and>
                  st' = item_state (Node_exec this) xs st (length xs) \<and>
                  (\<forall>j<length xs.
                      Node_exec this (xs ! j) (item_state (Node_exec this) xs st j)
                        = (Inr (rs ! j), item_state (Node_exec this) xs st (Suc j)))"
    by blast
next
  fix e assume "r = Inl e"
  with assms have "map_items (Node_exec this) xs st = (Inl e, st')"
    by (auto simp: BatchNode_exec_def split: prod.splits sum.splits)
  from map_items_Inl[OF this] obtain j where j: "j < length xs"
    "\<forall>i<j. \<exists>ri. Node_exec this (xs ! i) (item_state (Node_exec this) xs st i)
                = (Inr ri, item_state (Node_exec this) xs st (Suc i))"
    "Node_exec this (xs ! j) (item_state (Node_exec this) xs st j) = (Inl e, st')"
    by blast
  obtain c w where sj: "item_state (Node_exec this) xs st j = set_world w (set_curRetry this c st)"
    using item_state_Node_exec[of this xs st j] by blast
  from Node_exec_Inl[OF j(3)]
  have "\<exists>e0 w w'. execFallback (this_meths st this)
                              ((this_fields st this)\<lparr>curRetry := maxRetries (this_fields st this) - 1\<rparr>)
                              (xs ! j) e0 w = (Inl e, w')"
    by (simp add: sj)
  with j show "\<exists>j<length xs.
                (\<forall>i<j. \<exists>ri. Node_exec this (xs ! i) (item_state (Node_exec this) xs st i)
                                = (Inr ri, item_state (Node_exec this) xs st (Suc i))) \<and>
                Node_exec this (xs ! j) (item_state (Node_exec this) xs st j) = (Inl e, st') \<and>
                (\<exists>e0 w w'. execFallback (this_meths st this)
                              ((this_fields st this)\<lparr>curRetry := maxRetries (this_fields st this) - 1\<rparr>)
                              (xs ! j) e0 w = (Inl e, w'))"
    by blast
next
  fix j c and s :: "'w state"
  show "Node_exec this (xs ! j) (set_curRetry this c s) = Node_exec this (xs ! j) s"
    by (rule Node_exec_reset)
qed


theorem batch_results_witness:
  "Node_exec 0 (VNum 7) (item_state (Node_exec 0) [VStr ''a'', VNum 7, VStr ''c''] batch_example 1)
     = (Inr (VStr ''skipped''),
        item_state (Node_exec 0) [VStr ''a'', VNum 7, VStr ''c''] batch_example 2) \<and>
   Node_exec 0 (VStr ''c'') (item_state (Node_exec 0) [VStr ''a'', VNum 7, VStr ''c''] batch_example 2)
     = (Inr (VStr ''processed: c''),
        item_state (Node_exec 0) [VStr ''a'', VNum 7, VStr ''c''] batch_example 3)"
proof -
  from batch_results_in_input_order[OF batch_example_run]
  obtain rs where rs: "[VStr ''processed: a'', VStr ''skipped'', VStr ''processed: c''] = rs"
    and all: "\<forall>j<length [VStr ''a'', VNum 7, VStr ''c''].
                Node_exec 0 ([VStr ''a'', VNum 7, VStr ''c''] ! j)
                  (item_state (Node_exec 0) [VStr ''a'', VNum 7, VStr ''c''] batch_example j)
                = (Inr (rs ! j),
                   item_state (Node_exec 0) [VStr ''a'', VNum 7, VStr ''c''] batch_example (Suc j))"
    by auto
  from all[rule_format, of 1] all[rule_format, of 2] rs[symmetric]
  show ?thesis by (simp add: eval_nat_numeral)
qed

section \<open>The frame of the blocking engine\<close>

lemma BaseNode_exec_state:
  "\<exists>c w. snd (BaseNode_exec this p st) = set_world w (set_curRetry this c st)"
proof -
  have "snd (BaseNode_exec this p st)
          = set_world (snd (exec (this_meths st this) (this_fields st this) p (world st)))
              (set_curRetry this (curRetry (this_fields st this)) st)"
    by (simp add: BaseNode_exec_def split: prod.splits)
  then show ?thesis by blast
qed

lemma map_items_state:
  "snd (map_items f xs st) = item_state f xs st (length xs) \<or>
   (\<exists>j<length xs. snd (map_items f xs st) = snd (f (xs ! j) (item_state f xs st j)))"
proof (cases "map_items f xs st")
  case (Pair a st')
  show ?thesis
  proof (cases a)
    case (Inl e)
    with Pair map_items_Inl[of f xs st e st'] show ?thesis by fastforce
  next
    case (Inr rs)
    with Pair map_items_Inr[of f xs st rs st'] show ?thesis by simp
  qed
qed

lemma BatchNode_exec_state:
  "\<exists>c w. snd (BatchNode_exec this p st) = set_world w (set_curRetry this c st)"
proof -
  have m: "\<exists>c w. snd (map_items (Node_exec this) xs st) = set_world w (set_curRetry this c st)" for xs
  proof -
    from map_items_state[of "Node_exec this" xs st]
    show ?thesis
    proof
      assume "snd (map_items (Node_exec this) xs st) = item_state (Node_exec this) xs st (length xs)"
      then show ?thesis using item_state_Node_exec[of this xs st "length xs"] by simp
    next
      assume "\<exists>j<length xs. snd (map_items (Node_exec this) xs st)
                = snd (Node_exec this (xs ! j) (item_state (Node_exec this) xs st j))"
      then obtain j where j: "snd (map_items (Node_exec this) xs st)
                = snd (Node_exec this (xs ! j) (item_state (Node_exec this) xs st j))" by blast
      obtain c w where a: "item_state (Node_exec this) xs st j = set_world w (set_curRetry this c st)"
        using item_state_Node_exec[of this xs st j] by blast
      obtain c' w' where "snd (Node_exec this (xs ! j) (item_state (Node_exec this) xs st j))
           = set_world w' (set_curRetry this c' (item_state (Node_exec this) xs st j))"
        using Node_exec_state[of this "xs ! j" "item_state (Node_exec this) xs st j"] by blast
      then have "snd (map_items (Node_exec this) xs st) = set_world w' (set_curRetry this c' st)"
        using a j by (simp add: set_curRetry_set_world)
      then show ?thesis by blast
    qed
  qed
  show ?thesis
  proof (cases "truthy p")
    case False
    then show ?thesis using state_self[of st this] by (simp add: BatchNode_exec_def)
  next
    case True
    show ?thesis
    proof (cases p)
      case (VArr xs)
      obtain c w where "snd (map_items (Node_exec this) xs st) = set_world w (set_curRetry this c st)"
        using m[of xs] by blast
      then have "snd (BatchNode_exec this p st) = set_world w (set_curRetry this c st)"
        using VArr by (auto simp add: BatchNode_exec_def split: prod.splits sum.splits)
      then show ?thesis by blast
    qed (use True state_self[of st this] in \<open>simp_all add: BatchNode_exec_def\<close>)
  qed
qed

lemma BaseNode_run_state:
  assumes "\<And>p s. \<exists>c w. snd (ex this p s) = set_world w (set_curRetry this c s)"
  shows "\<exists>c w. snd (BaseNode_run ex this st) = set_world w (set_curRetry this c st)"
proof (cases "prep (this_meths st this) (this_fields st this) (world st)")
  case (Pair a w0)
  show ?thesis
  proof (cases a)
    case (Inl e)
    then have "snd (BaseNode_run ex this st) = set_world w0 st"
      using Pair by (simp add: BaseNode_run_def)
    then have "snd (BaseNode_run ex this st)
                 = set_world w0 (set_curRetry this (curRetry (this_fields st this)) st)"
      by simp
    then show ?thesis by blast
  next
    case (Inr p)
    obtain c w where e: "snd (ex this p (set_world w0 st)) = set_world w (set_curRetry this c (set_world w0 st))"
      using assms[of p "set_world w0 st"] by blast
    obtain b st1 where b: "ex this p (set_world w0 st) = (b, st1)"
      by (cases "ex this p (set_world w0 st)")
    with e have st1: "st1 = set_world w (set_curRetry this c st)"
      by (simp add: set_curRetry_set_world)
    show ?thesis
    proof (cases b)
      case (Inl e')
      then have "snd (BaseNode_run ex this st) = st1"
        using Pair Inr b by (simp add: BaseNode_run_def)
      then show ?thesis using st1 by blast
    next
      case r: (Inr r)
      then have "snd (BaseNode_run ex this st)
                   = set_world (snd (post (this_meths st1 this) (this_fields st1 this) p r (world st1))) st1"
        using Pair Inr b by (simp add: BaseNode_run_def split: prod.splits)
      then have "snd (BaseNode_run ex this st)
                   = set_world (snd (post (this_meths st1 this) (this_fields st1 this) p r (world st1)))
                       (set_curRetry this c st)"
        using st1 by simp
      then show ?thesis by blast
    qed
  qed
qed


lemma frame_refl [simp]: "frame A st st"
  by (simp add: frame_def)

lemma frame_trans:
  "frame A st st' \<Longrightarrow> frame B st' st'' \<Longrightarrow> (\<And>b. b \<in> B \<Longrightarrow> b \<in> A \<or> nxt st \<le> b) \<Longrightarrow> frame A st st''"
  unfolding frame_def by (metis dual_order.trans leD order_less_le_trans)

lemma frame_mono: "frame A st st' \<Longrightarrow> A \<subseteq> B \<Longrightarrow> frame B st st'"
  unfolding frame_def by blast

lemma nxt_set_world [simp]: "nxt (set_world w st) = nxt st"
  by (simp add: set_world_def)

lemma nxt_set_curRetry [simp]: "nxt (set_curRetry a c st) = nxt st"
  by (simp add: set_curRetry_def)

lemma heap_set_curRetry [simp]:
  "heap (set_curRetry a c st) b = (if b = a then with_curRetry c (heap st a) else heap st b)"
  by (simp add: set_curRetry_def with_curRetry_def)

lemma nxt_setParams [simp]: "nxt (setParams a p st) = nxt st"
  by (simp add: setParams_def)

lemma heap_setParams_other [simp]: "b \<noteq> a \<Longrightarrow> heap (setParams a p st) b = heap st b"
  by (simp add: setParams_def)

lemma world_setParams [simp]: "world (setParams a p st) = world st"
  by (simp add: setParams_def)

lemma nxt_warn [simp]: "nxt (warn m st) = nxt st"
  by (simp add: warn_def)

lemma getNextNode_state:
  "getNextNode c a st = (nx, st') \<Longrightarrow> heap st' = heap st \<and> nxt st' = nxt st \<and> world st' = world st"
  by (auto simp: getNextNode_def Let_def split: lookup.splits if_splits)

lemma clone_state:
  "clone b st = (c, st') \<Longrightarrow>
   c = nxt st \<and> nxt st' = Suc (nxt st) \<and> heap st' = (heap st)(nxt st := heap st b) \<and> world st' = world st"
  by (auto simp: clone_def)

lemma frame_set_world [simp]: "frame A st (set_world w st)"
  by (simp add: frame_def)

lemma frame_set_world_left [simp]: "frame A (set_world w st) st' = frame A st st'"
  by (simp add: frame_def)

lemma frame_set_world_right [simp]: "frame A st (set_world w st') = frame A st st'"
  by (simp add: frame_def)

lemma frame_setParams: "frame {a} st (setParams a p st)"
  by (simp add: frame_def)

lemma frame_leaf:
  "st' = set_world w (set_curRetry this c st) \<Longrightarrow>
   frame {this} st st' \<and> heap st' this = with_curRetry c (heap st this)"
  by (simp add: frame_def)

lemma with_curRetry_kind [simp]: "kind (with_curRetry c ob) = kind ob"
  by (simp add: with_curRetry_def)


lemma with_curRetry_same: "with_curRetry (curRetry (flds ob)) ob = ob"
  by (simp add: with_curRetry_def)

lemma run_frame_leaf:
  assumes "\<exists>c w. st' = set_world w (set_curRetry this c st)" "\<not> is_Flow (kind (heap st this))"
  shows "run_frame this st st'"
  using assms by (auto simp: run_frame_def frame_def)

lemma frame_all:
  "(\<forall>this (st :: 'w state) r st'. call_run n this st = Some (r, st') \<longrightarrow> run_frame this st st') \<and>
   (\<forall>this ps (st :: 'w state) r st'. Flow_orch n this ps st = Some (r, st') \<longrightarrow> frame {} st st') \<and>
   (\<forall>cu p la (st :: 'w state) r st'. Flow_orch_loop n cu p la st = Some (r, st') \<longrightarrow>
        frame (case cu of CNode c \<Rightarrow> {c} | _ \<Rightarrow> {}) st st') \<and>
   (\<forall>this bps (st :: 'w state) r st'. BatchFlow_loop n this bps st = Some (r, st') \<longrightarrow> frame {} st st')"
proof (induction n)
  case 0
  show ?case
  proof (intro conjI allI impI)
    fix cu p la and st st' :: "'w state" and r
    assume "Flow_orch_loop 0 cu p la st = Some (r, st')"
    then show "frame (case cu of CNode c \<Rightarrow> {c} | _ \<Rightarrow> {}) st st'"
      by (cases cu) auto
  next
    fix this bps and st st' :: "'w state" and r
    assume "BatchFlow_loop 0 this bps st = Some (r, st')"
    then show "frame {} st st'" by (cases bps) auto
  qed simp_all
next
  case (Suc n)
  then have run: "\<And>this (st :: 'w state) r st'. call_run n this st = Some (r, st') \<Longrightarrow> run_frame this st st'"
    and orch: "\<And>this ps (st :: 'w state) r st'. Flow_orch n this ps st = Some (r, st') \<Longrightarrow> frame {} st st'"
    and loop: "\<And>cu p la (st :: 'w state) r st'. Flow_orch_loop n cu p la st = Some (r, st') \<Longrightarrow>
        frame (case cu of CNode c \<Rightarrow> {c} | _ \<Rightarrow> {}) st st'"
    and batch: "\<And>this bps (st :: 'w state) r st'. BatchFlow_loop n this bps st = Some (r, st') \<Longrightarrow> frame {} st st'"
    by blast+
  show ?case
  proof (intro conjI allI impI)
    fix this and st st' :: "'w state" and r
    assume a: "call_run (Suc n) this st = Some (r, st')"
    let ?k = "kind (heap st this)"
    consider (base) "?k = BaseNode" | (node) "?k = Node" | (bnode) "?k = BatchNode"
      | (async) "is_AsyncNode ?k" | (bflow) "is_BatchFlow ?k"
      | (flow) "?k \<noteq> BaseNode" "?k \<noteq> Node" "?k \<noteq> BatchNode" "\<not> is_AsyncNode ?k" "\<not> is_BatchFlow ?k"
      by blast
    then show "run_frame this st st'"
    proof cases
      case base
      with a have "st' = snd (BaseNode_run BaseNode_exec this st)" by simp
      then show ?thesis
        using BaseNode_run_state[of BaseNode_exec this st, OF BaseNode_exec_state] base
        by (intro run_frame_leaf) (auto simp: is_Flow_def)
    next
      case node
      with a have "st' = snd (BaseNode_run Node_exec this st)" by simp
      then show ?thesis
        using BaseNode_run_state[of Node_exec this st, OF Node_exec_state] node
        by (intro run_frame_leaf) (auto simp: is_Flow_def)
    next
      case bnode
      with a have "st' = snd (BaseNode_run BatchNode_exec this st)" by simp
      then show ?thesis
        using BaseNode_run_state[of BatchNode_exec this st, OF BatchNode_exec_state] bnode
        by (intro run_frame_leaf) (auto simp: is_Flow_def)
    next
      case async
      with a have "st' = st" by (auto simp: is_AsyncNode_def)
      then show ?thesis by (simp add: run_frame_def with_curRetry_same[symmetric]) (metis with_curRetry_same)
    next
      case bflow
      then have k: "?k = BatchFlow" by (simp add: is_BatchFlow_def)
      have "frame {} st st'"
        using a k batch
        by (auto simp: is_AsyncNode_def is_BatchFlow_def
                 split: prod.splits sum.splits option.splits dest!: batch)
      then show ?thesis
        unfolding run_frame_def frame_def by (metis empty_iff with_curRetry_same)
    next
      case flow
      have "frame {} st st'"
        using a flow orch
        by (auto split: prod.splits sum.splits option.splits dest!: orch)
      then show ?thesis
        unfolding run_frame_def frame_def by (metis empty_iff with_curRetry_same)
    qed
  next
    fix this ps and st st' :: "'w state" and r
    assume a: "Flow_orch (Suc n) this ps st = Some (r, st')"
    show "frame {} st st'"
    proof (cases "startNode (this_fields st this)")
      case None
      with a loop[of CNull _ _ st r st'] show ?thesis by (simp add: Let_def)
    next
      case (Some s)
      obtain c st1 where c: "clone s st = (c, st1)" by (cases "clone s st")
      with a Some obtain p where "Flow_orch_loop n (CNode c) p (Some ''default'') st1 = Some (r, st')"
        by (simp add: Let_def)
      from loop[OF this] have "frame {c} st1 st'" by simp
      moreover have "frame {} st st1" "c = nxt st"
        using clone_state[OF c] by (auto simp: frame_def)
      ultimately show ?thesis by (auto intro: frame_trans)
    qed
  next
    fix cu p la and st st' :: "'w state" and r
    assume a: "Flow_orch_loop (Suc n) cu p la st = Some (r, st')"
    show "frame (case cu of CNode c \<Rightarrow> {c} | _ \<Rightarrow> {}) st st'"
    proof (cases cu)
      case (CNode c)
      from a CNode obtain r1 st1 where r1: "call_run n c (setParams c p st) = Some (r1, st1)"
        by (auto split: option.splits)
      from run[OF r1] have f1: "frame {c} (setParams c p st) st1" by (simp add: run_frame_def)
      have f01: "frame {c} st st1"
        using frame_trans[OF frame_setParams f1] by simp
      show ?thesis
      proof (cases r1)
        case (Inl e)
        with a CNode r1 have "st' = st1" by simp
        with f01 CNode show ?thesis by simp
      next
        case (Inr l)
        obtain nx st2 where g: "getNextNode c l st1 = (nx, st2)" by (cases "getNextNode c l st1")
        have f12: "frame {} st1 st2" using getNextNode_state[OF g] by (simp add: frame_def)
        have f02: "frame {c} st st2" using frame_trans[OF f01 f12] by simp
        show ?thesis
        proof (cases nx)
          case (CNode b)
          obtain c' st3 where cl: "clone b st2 = (c', st3)" by (cases "clone b st2")
          have f23: "frame {} st2 st3" and c': "c' = nxt st2"
            using clone_state[OF cl] by (auto simp: frame_def)
          from a \<open>cu = CNode c\<close> r1 Inr g CNode cl
          have "Flow_orch_loop n (CNode c') p l st3 = Some (r, st')" by simp
          from loop[OF this] have f3: "frame {c'} st3 st'" by simp
          have f03: "frame {c} st st3" using frame_trans[OF f02 f23] by simp
          have "nxt st \<le> c'" using c' f02 by (simp add: frame_def)
          then have "frame {c} st st'" using frame_trans[OF f03 f3] by simp
          then show ?thesis using \<open>cu = CNode c\<close> by simp
        next
          case CNull
          with a \<open>cu = CNode c\<close> r1 Inr g have "st' = st2" by simp
          with f02 \<open>cu = CNode c\<close> show ?thesis by simp
        next
          case CForeign
          with a \<open>cu = CNode c\<close> r1 Inr g have "st' = st2" by simp
          with f02 \<open>cu = CNode c\<close> show ?thesis by simp
        qed
      qed
    qed (use a in auto)
  next
    fix this bps and st st' :: "'w state" and r
    assume a: "BatchFlow_loop (Suc n) this bps st = Some (r, st')"
    show "frame {} st st'"
    proof (cases bps)
      case Nil
      with a show ?thesis by simp
    next
      case (Cons bp bps')
      from a Cons obtain r1 st1 where
        o: "Flow_orch n this (Some (spread (params (this_fields st this)) (own_entries bp))) st = Some (r1, st1)"
        by (auto split: option.splits)
      from orch[OF o] have f1: "frame {} st st1" .
      show ?thesis
      proof (cases r1)
        case (Inl e)
        with a Cons o have "st' = st1" by simp
        with f1 show ?thesis by simp
      next
        case (Inr l)
        with a Cons o have "BatchFlow_loop n this bps' st1 = Some (r, st')" by simp
        from batch[OF this] f1 show ?thesis by (auto intro: frame_trans)
      qed
    qed
  qed
qed

section \<open>Fuel\<close>

text \<open>A run that returns within some fuel returns the same with more.\<close>

lemma fuel_step:
  "(\<forall>this (st :: 'w state) x. call_run n this st = Some x \<longrightarrow> call_run (Suc n) this st = Some x) \<and>
   (\<forall>this ps (st :: 'w state) x. Flow_orch n this ps st = Some x \<longrightarrow> Flow_orch (Suc n) this ps st = Some x) \<and>
   (\<forall>cu p la (st :: 'w state) x. Flow_orch_loop n cu p la st = Some x \<longrightarrow>
        Flow_orch_loop (Suc n) cu p la st = Some x) \<and>
   (\<forall>this bps (st :: 'w state) x. BatchFlow_loop n this bps st = Some x \<longrightarrow>
        BatchFlow_loop (Suc n) this bps st = Some x)"
proof (induction n)
  case 0
  show ?case
  proof (intro conjI allI impI)
    fix cu p la and st :: "'w state" and x
    assume "Flow_orch_loop 0 cu p la st = Some x"
    then show "Flow_orch_loop (Suc 0) cu p la st = Some x" by (cases cu) auto
  next
    fix this bps and st :: "'w state" and x
    assume "BatchFlow_loop 0 this bps st = Some x"
    then show "BatchFlow_loop (Suc 0) this bps st = Some x" by (cases bps) auto
  qed simp_all
next
  case (Suc n)
  then have run: "\<And>this (st :: 'w state) x. call_run n this st = Some x \<Longrightarrow> call_run (Suc n) this st = Some x"
    and orch: "\<And>this ps (st :: 'w state) x. Flow_orch n this ps st = Some x \<Longrightarrow> Flow_orch (Suc n) this ps st = Some x"
    and loop: "\<And>cu p la (st :: 'w state) x. Flow_orch_loop n cu p la st = Some x \<Longrightarrow>
        Flow_orch_loop (Suc n) cu p la st = Some x"
    and batch: "\<And>this bps (st :: 'w state) x. BatchFlow_loop n this bps st = Some x \<Longrightarrow>
        BatchFlow_loop (Suc n) this bps st = Some x"
    by blast+
  show ?case
  proof (intro conjI allI impI)
    fix this and st :: "'w state" and x
    assume a: "call_run (Suc n) this st = Some x"
    show "call_run (Suc (Suc n)) this st = Some x"
    proof (cases "kind (heap st this) = BaseNode \<or> kind (heap st this) = Node \<or>
                  kind (heap st this) = BatchNode \<or> is_AsyncNode (kind (heap st this))")
      case True
      with a show ?thesis by auto
    next
      case False
      obtain v w where p: "prep (this_meths st this) (this_fields st this) (world st) = (v, w)"
        by (cases "prep (this_meths st this) (this_fields st this) (world st)")
      show ?thesis
      proof (cases v)
        case (Inl e)
        with a False p show ?thesis by (auto split: if_splits)
      next
        case (Inr pv)
        show ?thesis
        proof (cases "is_BatchFlow (kind (heap st this))")
          case bf: True
          show ?thesis
          proof (cases "iterate (or_empty pv)")
            case (Inl e)
            with a False p Inr bf show ?thesis by (auto split: if_splits)
          next
            case it: (Inr bps)
            from a False p Inr bf it obtain y where
              y: "BatchFlow_loop n this bps (set_world w st) = Some y"
              by (auto split: option.splits)
            from batch[OF y] a False p Inr bf it y show ?thesis
              by (subst call_run.simps) (auto simp del: BatchFlow_loop.simps)
          qed
        next
          case nbf: False
          from a False p Inr nbf obtain y where
            y: "Flow_orch n this None (set_world w st) = Some y"
            by (auto split: option.splits)
          from orch[OF y] a False p Inr nbf y show ?thesis
            by (subst call_run.simps) (auto simp del: Flow_orch.simps)
        qed
      qed
    qed
  next
    fix this ps and st :: "'w state" and x
    assume a: "Flow_orch (Suc n) this ps st = Some x"
    show "Flow_orch (Suc (Suc n)) this ps st = Some x"
    proof (cases "startNode (this_fields st this)")
      case None
      with a have "Flow_orch_loop n CNull
          (case ps of None \<Rightarrow> spread (params (this_fields st this)) [] | Some q \<Rightarrow> q)
          (Some ''default'') st = Some x"
        by (simp add: Let_def)
      from loop[OF this] None show ?thesis
        by (subst Flow_orch.simps) (auto simp add: Let_def simp del: Flow_orch_loop.simps)
    next
      case (Some s)
      obtain c st1 where c: "clone s st = (c, st1)" by (cases "clone s st")
      with a Some have "Flow_orch_loop n (CNode c)
          (case ps of None \<Rightarrow> spread (params (this_fields st this)) [] | Some q \<Rightarrow> q)
          (Some ''default'') st1 = Some x"
        by (simp add: Let_def)
      from loop[OF this] Some c show ?thesis
        by (subst Flow_orch.simps) (auto simp add: Let_def simp del: Flow_orch_loop.simps)
    qed
  next
    fix cu p la and st :: "'w state" and x
    assume a: "Flow_orch_loop (Suc n) cu p la st = Some x"
    show "Flow_orch_loop (Suc (Suc n)) cu p la st = Some x"
    proof (cases cu)
      case (CNode c)
      note a' = a[unfolded CNode]
      from a' obtain r1 st1 where r1: "call_run n c (setParams c p st) = Some (r1, st1)"
        by (auto split: option.splits)
      note r1' = run[OF r1]
      have "Flow_orch_loop (Suc (Suc n)) (CNode c) p la st = Some x"
      proof (cases r1)
        case (Inl e)
        with a' r1 r1' show ?thesis
          by (subst Flow_orch_loop.simps) (auto simp del: call_run.simps)
      next
        case (Inr l)
        obtain nx st2 where g: "getNextNode c l st1 = (nx, st2)" by (cases "getNextNode c l st1")
        show ?thesis
        proof (cases nx)
          case nb: (CNode b)
          obtain c' st3 where cl: "clone b st2 = (c', st3)" by (cases "clone b st2")
          from a' r1 Inr g nb cl
          have "Flow_orch_loop n (CNode c') p l st3 = Some x" by simp
          from loop[OF this] r1' Inr g nb cl show ?thesis
            by (subst Flow_orch_loop.simps) (auto simp del: call_run.simps Flow_orch_loop.simps)
        next
          case CNull
          with a' r1 r1' Inr g show ?thesis
            by (subst Flow_orch_loop.simps) (auto simp del: call_run.simps)
        next
          case CForeign
          with a' r1 r1' Inr g show ?thesis
            by (subst Flow_orch_loop.simps) (auto simp del: call_run.simps)
        qed
      qed
      then show ?thesis unfolding CNode .
    qed (use a in auto)
  next
    fix this bps and st :: "'w state" and x
    assume a: "BatchFlow_loop (Suc n) this bps st = Some x"
    show "BatchFlow_loop (Suc (Suc n)) this bps st = Some x"
    proof (cases bps)
      case Nil
      with a show ?thesis by simp
    next
      case (Cons bp bps')
      note a' = a[unfolded Cons]
      from a' obtain r1 st1 where
        o: "Flow_orch n this (Some (spread (params (this_fields st this)) (own_entries bp))) st = Some (r1, st1)"
        by (auto split: option.splits)
      note o' = orch[OF o]
      have "BatchFlow_loop (Suc (Suc n)) this (bp # bps') st = Some x"
      proof (cases r1)
        case (Inl e)
        with a' o o' show ?thesis
          by (subst BatchFlow_loop.simps) (auto simp del: Flow_orch.simps)
      next
        case (Inr l)
        with a' o have "BatchFlow_loop n this bps' st1 = Some x" by simp
        from batch[OF this] o' Inr show ?thesis
          by (subst BatchFlow_loop.simps) (auto simp del: Flow_orch.simps BatchFlow_loop.simps)
      qed
      then show ?thesis unfolding Cons .
    qed
  qed
qed

lemma call_run_fuel: "call_run n this st = Some x \<Longrightarrow> call_run (n + k) this st = Some x"
proof (induction k)
  case (Suc k)
  then have "call_run (Suc (n + k)) this st = Some x" using fuel_step by blast
  then show ?case by (simp del: call_run.simps)
qed simp

lemma Flow_orch_fuel: "Flow_orch n this ps st = Some x \<Longrightarrow> Flow_orch (n + k) this ps st = Some x"
proof (induction k)
  case (Suc k)
  then have "Flow_orch (Suc (n + k)) this ps st = Some x" using fuel_step by blast
  then show ?case by (simp del: Flow_orch.simps)
qed simp

lemma Flow_orch_loop_fuel:
  "Flow_orch_loop n cu p la st = Some x \<Longrightarrow> Flow_orch_loop (n + k) cu p la st = Some x"
proof (induction k)
  case (Suc k)
  then have "Flow_orch_loop (Suc (n + k)) cu p la st = Some x" using fuel_step by blast
  then show ?case by (simp del: Flow_orch_loop.simps)
qed simp

lemma BatchFlow_loop_fuel:
  "BatchFlow_loop n this bps st = Some x \<Longrightarrow> BatchFlow_loop (n + k) this bps st = Some x"
proof (induction k)
  case (Suc k)
  then have "BatchFlow_loop (Suc (n + k)) this bps st = Some x" using fuel_step by blast
  then show ?case by (simp del: BatchFlow_loop.simps)
qed simp

section \<open>Suspendable nodes on the blocking path\<close>

lemma heap_setParams_same:
  "heap (setParams a p st) a = (heap st a)\<lparr>flds := (flds (heap st a))\<lparr>params := p\<rparr>\<rparr>"
  by (simp add: setParams_def)

lemma kind_setParams [simp]: "kind (heap (setParams a p st) b) = kind (heap st b)"
  by (simp add: setParams_def)

lemma this_meths_setParams [simp]: "this_meths (setParams a p st) b = this_meths st b"
  by (simp add: setParams_def this_meths_def)

lemma this_fields_setParams [simp]:
  "this_fields (setParams a p st) b = (if b = a then (this_fields st a)\<lparr>params := p\<rparr> else this_fields st b)"
  by (simp add: setParams_def this_fields_def)

lemma val_action_action_val [simp]: "val_action (action_val l) = l"
  by (cases l) simp_all

lemma run_state:
  "\<exists>sw. run n this st = call_run n this sw \<and> heap sw = heap st \<and> world sw = world st \<and> nxt sw = nxt st"
  unfolding run_def warn_successors_def by (auto simp: warn_def)


text \<open>
  Claim C9. A node of class \<^verbatim>\<open>AsyncNode\<close>, \<^verbatim>\<open>AsyncBatchNode\<close> or
  \<^verbatim>\<open>AsyncParallelBatchNode\<close> on the blocking path: \<^verbatim>\<open>run\<close> throws
  \<^verbatim>\<open>Error('Use runAsync.')\<close> and leaves the world as it is, so none of the three phases
  has run; the orchestrator of a blocking \<^verbatim>\<open>Flow\<close> throws the same when the node is its
  current node, be it the start node of the flow or the successor another node's label
  selects.
\<close>

theorem async_node_rejects_blocking_run:
  fixes st :: "'w state"
  assumes "is_AsyncNode (kind (heap st this))"
  shows "(\<exists>st'. run (Suc n) this st = Some (Inl (VError ''Use runAsync.''), st') \<and>
               world st' = world st \<and> heap st' = heap st) \<and>
         Flow_orch_loop (Suc (Suc n)) (CNode this) p la st
           = Some (Inl (VError ''Use runAsync.''), setParams this p st) \<and>
         (\<forall>flow ps. startNode (this_fields st flow) = Some this \<longrightarrow>
            (\<exists>st'. Flow_orch (Suc (Suc (Suc n))) flow ps st = Some (Inl (VError ''Use runAsync.''), st') \<and>
                   world st' = world st)) \<and>
         (\<forall>c l st0 st2.
            call_run (Suc (Suc n)) c (setParams c p st0) = Some (Inr l, st) \<longrightarrow>
            getNextNode c l st = (CNode this, st2) \<longrightarrow>
            (\<exists>st'. Flow_orch_loop (Suc (Suc (Suc n))) (CNode c) p la st0
                      = Some (Inl (VError ''Use runAsync.''), st') \<and> world st' = world st))"
proof (intro conjI allI impI)
  obtain sw where sw: "run (Suc n) this st = call_run (Suc n) this sw" "heap sw = heap st"
    "world sw = world st"
    using run_state[of "Suc n" this st] by blast
  have "call_run (Suc n) this sw = Some (Inl (VError ''Use runAsync.''), sw)"
    using assms sw(2) by (auto simp: is_AsyncNode_def)
  with sw show "\<exists>st'. run (Suc n) this st = Some (Inl (VError ''Use runAsync.''), st') \<and>
               world st' = world st \<and> heap st' = heap st"
    by simp
next
  have k: "is_AsyncNode (kind (heap (setParams this p st) this))" using assms by simp
  have "call_run (Suc n) this (setParams this p st)
          = Some (Inl (VError ''Use runAsync.''), setParams this p st)"
    using k by (auto simp: is_AsyncNode_def)
  then show "Flow_orch_loop (Suc (Suc n)) (CNode this) p la st
           = Some (Inl (VError ''Use runAsync.''), setParams this p st)"
    by (subst Flow_orch_loop.simps) (simp del: call_run.simps)
next
  fix flow ps
  assume s: "startNode (this_fields st flow) = Some this"
  obtain c st1 where c: "clone this st = (c, st1)" by (cases "clone this st")
  then have k: "is_AsyncNode (kind (heap (setParams c q st1) c))" and w: "world st1 = world st" for q
    using assms by (auto simp: clone_def)
  have "call_run (Suc n) c (setParams c q st1) = Some (Inl (VError ''Use runAsync.''), setParams c q st1)" for q
    using k[of q] by (auto simp: is_AsyncNode_def)
  then have "Flow_orch_loop (Suc (Suc n)) (CNode c) q (Some ''default'') st1
           = Some (Inl (VError ''Use runAsync.''), setParams c q st1)" for q
    by (subst Flow_orch_loop.simps) (simp del: call_run.simps)
  then have "Flow_orch (Suc (Suc (Suc n))) flow ps st
           = Some (Inl (VError ''Use runAsync.''),
                setParams c (case ps of None \<Rightarrow> spread (params (this_fields st flow)) [] | Some q \<Rightarrow> q) st1)"
    using s c by (subst Flow_orch.simps) (simp add: Let_def del: Flow_orch_loop.simps)
  then show "\<exists>st'. Flow_orch (Suc (Suc (Suc n))) flow ps st = Some (Inl (VError ''Use runAsync.''), st') \<and>
                   world st' = world st"
    using w by simp
next
  fix c l and st0 st2 :: "'w state"
  assume r: "call_run (Suc (Suc n)) c (setParams c p st0) = Some (Inr l, st)"
     and g: "getNextNode c l st = (CNode this, st2)"
  have h2: "heap st2 = heap st" "world st2 = world st"
    using getNextNode_state[OF g] by simp_all
  obtain c' st3 where cl: "clone this st2 = (c', st3)" by (cases "clone this st2")
  then have k: "is_AsyncNode (kind (heap (setParams c' p st3) c'))" and w: "world st3 = world st"
    using assms h2 by (auto simp: clone_def)
  have "call_run (Suc n) c' (setParams c' p st3) = Some (Inl (VError ''Use runAsync.''), setParams c' p st3)"
    using k by (auto simp: is_AsyncNode_def)
  then have "Flow_orch_loop (Suc (Suc n)) (CNode c') p l st3
           = Some (Inl (VError ''Use runAsync.''), setParams c' p st3)"
    by (subst Flow_orch_loop.simps) (simp del: call_run.simps)
  then have "Flow_orch_loop (Suc (Suc (Suc n))) (CNode c) p la st0
           = Some (Inl (VError ''Use runAsync.''), setParams c' p st3)"
    using r g cl by (subst Flow_orch_loop.simps) (simp del: call_run.simps Flow_orch_loop.simps)
  then show "\<exists>st'. Flow_orch_loop (Suc (Suc (Suc n))) (CNode c) p la st0
                      = Some (Inl (VError ''Use runAsync.''), st') \<and> world st' = world st"
    using w by simp
qed

theorem async_node_rejects_blocking_run_witness:
  "map_option fst (run 1 0 async_example) = Some (Inl (VError ''Use runAsync.'')) \<and>
   map_option fst (Flow_orch_loop 2 (CNode 0) [] None async_example)
     = Some (Inl (VError ''Use runAsync.''))"
proof -
  have "is_AsyncNode (kind (heap async_example 0))"
    by (simp add: async_example_def new_Node_def alloc_def init_state_def is_AsyncNode_def)
  from async_node_rejects_blocking_run[OF this, of 0 "[]" None]
  show ?thesis by (auto simp: eval_nat_numeral simp del: call_run.simps Flow_orch_loop.simps)
qed

section \<open>Traversal\<close>

lemma call_run_successors:
  assumes "call_run n c st = Some (r, st1)" "c < nxt st"
  shows "successors (this_fields st1 c) = successors (this_fields st c)"
    and "kind (heap st1 c) = kind (heap st c)"
    and "this_meths st1 c = this_meths st c"
proof -
  from assms frame_all[of n] have "run_frame c st st1" by blast
  with assms(2) obtain cr where "heap st1 c = with_curRetry cr (heap st c)"
    by (auto simp: run_frame_def)
  then show "successors (this_fields st1 c) = successors (this_fields st c)"
    and "kind (heap st1 c) = kind (heap st c)" and "this_meths st1 c = this_meths st c"
    by (simp_all add: this_fields_def this_meths_def with_curRetry_def)
qed

lemma call_run_frame:
  assumes "call_run n c st = Some (r, st1)" "a < nxt st" "a \<noteq> c"
  shows "heap st1 a = heap st a"
proof -
  from assms(1) frame_all[of n] have "run_frame c st st1" by blast
  then show ?thesis using assms(2,3) by (simp add: run_frame_def frame_def)
qed

lemma Flow_orch_frame:
  assumes "Flow_orch n flow ps st = Some (r, st1)" "a < nxt st"
  shows "heap st1 a = heap st a"
proof -
  from assms(1) frame_all[of n] have "frame {} st st1" by blast
  then show ?thesis using assms(2) by (simp add: frame_def)
qed

lemma Flow_orch_start:
  "startNode (this_fields st flow) = Some a \<Longrightarrow>
   Flow_orch (Suc n) flow None st =
     Flow_orch_loop n (CNode (nxt st)) (spread (params (this_fields st flow)) [])
       (Some ''default'') (snd (clone a st))"
  by (simp add: clone_def)

lemma Flow_orch_loop_next:
  assumes "call_run n c (setParams c p st) = Some (Inr l, st1)"
      and "map_of (successors (this_fields st1 c)) (action_key l) = Some b"
  shows "Flow_orch_loop (Suc n) (CNode c) p la st =
           Flow_orch_loop n (CNode (nxt st1)) p l (snd (clone b st1))"
  using assms
  by (subst Flow_orch_loop.simps)
     (simp add: getNextNode_def get_successor_def clone_def del: call_run.simps Flow_orch_loop.simps)

lemma Flow_orch_loop_end:
  assumes "call_run n c (setParams c p st) = Some (Inr l, st1)"
      and "get_successor (successors (this_fields st1 c)) (action_key l) = Absent"
  shows "\<exists>st2. Flow_orch_loop (Suc n) (CNode c) p la st = Some (Inr l, st2) \<and>
               heap st2 = heap st1 \<and> world st2 = world st1 \<and> nxt st2 = nxt st1"
  using assms
  by (subst Flow_orch_loop.simps)
     (auto simp add: getNextNode_def warn_def Let_def simp del: call_run.simps)

lemma Flow_run_default_post:
  assumes "kind (heap st flow) = Flow" "flow < nxt st"
      and "prep (this_meths st flow) (this_fields st flow) (world st) = (Inr pv, w0)"
      and "Flow_orch n flow None (set_world w0 st) = Some (Inr l, st2)"
      and "post (this_meths st flow) = default_flow_post"
  shows "call_run (Suc n) flow st = Some (Inr l, st2)"
proof -
  have "heap st2 flow = heap st flow"
    using Flow_orch_frame[OF assms(4), of flow] assms(2) by simp
  then have "post (this_meths st2 flow) = default_flow_post"
    using assms(5) by (simp add: this_meths_def)
  then show ?thesis
    using assms(1,3,4)
    by (simp add: is_AsyncNode_def is_BatchFlow_def default_flow_post_def del: Flow_orch.simps)
qed

lemma warn_successors_simps [simp]:
  "heap (warn_successors this st) = heap st"
  "world (warn_successors this st) = world st"
  "nxt (warn_successors this st) = nxt st"
  "this_fields (warn_successors this st) a = this_fields st a"
  "this_meths (warn_successors this st) a = this_meths st a"
  by (simp_all add: warn_successors_def)

lemma clone_simps [simp]:
  "fst (clone a st) = nxt st"
  "nxt (snd (clone a st)) = Suc (nxt st)"
  "world (snd (clone a st)) = world st"
  "heap (snd (clone a st)) b = (if b = nxt st then heap st a else heap st b)"
  by (simp_all add: clone_def)

lemma this_fields_clone [simp]:
  "this_fields (snd (clone a st)) b = (if b = nxt st then this_fields st a else this_fields st b)"
  by (simp add: this_fields_def)

lemma this_meths_clone [simp]:
  "this_meths (snd (clone a st)) b = (if b = nxt st then this_meths st a else this_meths st b)"
  by (simp add: this_meths_def)

lemma Flow_run_start:
  fixes st0 :: "'w state"
  assumes "kind (heap st0 flow) = Flow" "flow < nxt st0"
      and "post (this_meths st0 flow) = default_flow_post"
      and "startNode (this_fields st0 flow) = Some a"
      and "prep (this_meths st0 flow) (this_fields st0 flow) (world st0) = (Inr pv, w0)"
      and "Flow_orch_loop n (CNode (nxt st0)) (spread (params (this_fields st0 flow)) [])
             (Some ''default'') (snd (clone a (set_world w0 (warn_successors flow st0))))
           = Some (Inr l, st2)"
  shows "run (Suc (Suc n)) flow st0 = Some (Inr l, st2)"
proof -
  let ?sw = "warn_successors flow st0"
  have "Flow_orch (Suc n) flow None (set_world w0 ?sw) = Some (Inr l, st2)"
    using assms(4,6) by (subst Flow_orch_start[where a = a]) simp_all
  then have "call_run (Suc (Suc n)) flow ?sw = Some (Inr l, st2)"
    using assms(1,2,3,5) by (intro Flow_run_default_post[where pv = pv and ?w0.0 = w0]) simp_all
  then show ?thesis by (simp add: run_def del: call_run.simps)
qed

lemma two_node_flow_simps:
  "key \<noteq> ''__proto__'' \<Longrightarrow> key \<notin> set object_prototype_keys \<Longrightarrow>
   heap (two_node_flow la key lb) =
     (\<lambda>a. \<lparr>kind = BaseNode, meths = node_methods, flds = new_fields\<rparr>)
       (0 := \<lparr>kind = Node, meths = tracing_methods ''A'' la,
              flds = new_fields\<lparr>successors := [(key, 1)]\<rparr>\<rparr>,
        1 := \<lparr>kind = Node, meths = tracing_methods ''B'' lb, flds = new_fields\<rparr>,
        2 := \<lparr>kind = Flow, meths = flow_methods, flds = new_fields\<lparr>startNode := Some 0\<rparr>\<rparr>)"
  "key \<noteq> ''__proto__'' \<Longrightarrow> key \<notin> set object_prototype_keys \<Longrightarrow> nxt (two_node_flow la key lb) = 3"
  "key \<noteq> ''__proto__'' \<Longrightarrow> key \<notin> set object_prototype_keys \<Longrightarrow> world (two_node_flow la key lb) = []"
  by (auto simp add: two_node_flow_def new_Node_def new_Flow_def alloc_def init_state_def
        BaseNode_next_def get_successor_def new_fields_def this_fields_def Let_def fun_eq_iff)

lemma returns_with:
  "map_option fst X = Some v \<Longrightarrow> X = Some (v, snd (the X))"
  by (cases X) auto


text \<open>
  Claim C1, as amended. A flow of class \<^verbatim>\<open>Flow\<close> with the default \<^verbatim>\<open>post\<close>, whose start
  node \<open>A\<close> has \<open>B\<close> as its successor under a label \<open>x\<close> that is not empty. When the
  lifecycle of (the copy of) \<open>A\<close> returns \<open>x\<close>, and the lifecycle of (the copy of) \<open>B\<close>, run
  in the state \<open>A\<close> left, returns a label \<open>lb\<close> whose key \<^verbatim>\<open>lb || 'default'\<close> is neither a
  key of the successor table of \<open>B\<close> nor the name of a member of \<^verbatim>\<open>Object.prototype\<close>,
  then \<^verbatim>\<open>run\<close> on the flow returns \<open>lb\<close> in the world \<open>B\<close> left: it has run \<open>A\<close>, then \<open>B\<close>, and
  nothing else. In general \<^verbatim>\<open>run\<close> on the flow returns the label the orchestrator
  returns, which is the label of the last node it ran.
\<close>

theorem flow_runs_start_then_successor:
  fixes st0 :: "'w state"
  assumes flow: "kind (heap st0 flow) = Flow" "flow < nxt st0"
                "post (this_meths st0 flow) = default_flow_post"
      and start: "startNode (this_fields st0 flow) = Some a"
      and succ: "map_of (successors (this_fields st0 a)) x = Some b" "x \<noteq> []" "b < nxt st0"
      and prep: "prep (this_meths st0 flow) (this_fields st0 flow) (world st0) = (Inr pv, w0)"
      and p: "p = spread (params (this_fields st0 flow)) []"
      and runA: "call_run n (nxt st0)
                   (setParams (nxt st0) p (snd (clone a (set_world w0 (warn_successors flow st0)))))
                 = Some (Inr (Some x), st1)"
      and runB: "call_run n (nxt st1) (setParams (nxt st1) p (snd (clone b st1))) = Some (Inr lb, st2)"
      and endB: "get_successor (successors (this_fields st0 b)) (action_key lb) = Absent"
  shows "(\<exists>st3. run (n + 4) flow st0 = Some (Inr lb, st3) \<and> world st3 = world st2) \<and>
         (\<forall>m l s. Flow_orch m flow None (set_world w0 (warn_successors flow st0)) = Some (Inr l, s) \<longrightarrow>
                  run (Suc m) flow st0 = Some (Inr l, s))"
proof
  let ?sA = "snd (clone a (set_world w0 (warn_successors flow st0)))"
  let ?ca = "nxt st0"
  have runA': "call_run (Suc n) ?ca (setParams ?ca p ?sA) = Some (Inr (Some x), st1)"
    using call_run_fuel[OF runA, of 1] by (simp del: call_run.simps)
  have nx1: "nxt st0 < nxt st1"
  proof -
    from runA frame_all[of n] have "run_frame ?ca (setParams ?ca p ?sA) st1" by blast
    then show ?thesis by (simp add: run_frame_def frame_def)
  qed
  have "successors (this_fields st1 ?ca) = successors (this_fields (setParams ?ca p ?sA) ?ca)"
    by (rule call_run_successors(1)[OF runA]) simp
  then have sA: "map_of (successors (this_fields st1 ?ca)) (action_key (Some x)) = Some b"
    using succ(1,2) by (simp add: action_key_def)
  have stepA: "Flow_orch_loop (Suc (Suc n)) (CNode ?ca) p (Some ''default'') ?sA
                 = Flow_orch_loop (Suc n) (CNode (nxt st1)) p (Some x) (snd (clone b st1))"
    by (rule Flow_orch_loop_next[OF runA' sA])
  let ?cb = "nxt st1"
  have hb: "heap st1 b = heap st0 b"
  proof -
    have "heap st1 b = heap (setParams ?ca p ?sA) b"
      by (rule call_run_frame[OF runA]) (use succ(3) in simp_all)
    then show ?thesis using succ(3) by simp
  qed
  have "successors (this_fields st2 ?cb) = successors (this_fields (setParams ?cb p (snd (clone b st1))) ?cb)"
    by (rule call_run_successors(1)[OF runB]) simp
  moreover have "this_fields st1 b = this_fields st0 b"
    using hb by (simp add: this_fields_def)
  ultimately have "successors (this_fields st2 ?cb) = successors (this_fields st0 b)"
    by simp
  then have sB: "get_successor (successors (this_fields st2 ?cb)) (action_key lb) = Absent"
    using endB by simp
  obtain st3 where
    stepB: "Flow_orch_loop (Suc n) (CNode ?cb) p (Some x) (snd (clone b st1)) = Some (Inr lb, st3)"
    and w3: "world st3 = world st2"
    using Flow_orch_loop_end[OF runB sB, of "Some x"] by blast
  have "run (Suc (Suc (Suc (Suc n)))) flow st0 = Some (Inr lb, st3)"
    using stepA stepB unfolding p
    by (intro Flow_run_start[OF flow start prep]) (simp del: Flow_orch_loop.simps)
  then show "\<exists>st3. run (n + 4) flow st0 = Some (Inr lb, st3) \<and> world st3 = world st2"
    using w3 by (simp add: eval_nat_numeral del: call_run.simps)
next
  show "\<forall>m l s. Flow_orch m flow None (set_world w0 (warn_successors flow st0)) = Some (Inr l, s) \<longrightarrow>
                  run (Suc m) flow st0 = Some (Inr l, s)"
  proof (intro allI impI)
    fix m l s
    assume o: "Flow_orch m flow None (set_world w0 (warn_successors flow st0)) = Some (Inr l, s)"
    have "call_run (Suc m) flow (warn_successors flow st0) = Some (Inr l, s)"
      using flow prep o by (intro Flow_run_default_post[where pv = pv and ?w0.0 = w0]) simp_all
    then show "run (Suc m) flow st0 = Some (Inr l, s)"
      by (simp add: run_def del: call_run.simps)
  qed
qed



theorem flow_runs_start_then_successor_witness:
  "\<exists>st3. run 5 2 (two_node_flow (Some ''x'') ''x'' (Some ''done'')) = Some (Inr (Some ''done''), st3) \<and>
         world st3 = [''A.prep'', ''A.exec'', ''A.post'', ''B.prep'', ''B.exec'', ''B.post'']"
proof -
  let ?st0 = "two_node_flow (Some ''x'') ''x'' (Some ''done'')"
  note s = two_node_flow_simps[of "''x''" "Some ''x''" "Some ''done''", simplified object_prototype_keys_def, simplified]
  let ?sA = "setParams (nxt ?st0) [] (snd (clone 0 (set_world [] (warn_successors 2 ?st0))))"
  define st1 where "st1 = snd (the (call_run 1 (nxt ?st0) ?sA))"
  let ?sB = "setParams (nxt st1) [] (snd (clone 1 st1))"
  define st2 where "st2 = snd (the (call_run 1 (nxt st1) ?sB))"
  have flow: "kind (heap ?st0 2) = Flow" "2 < nxt ?st0" "post (this_meths ?st0 2) = default_flow_post"
    by (simp_all add: s this_meths_def flow_methods_def)
  have start: "startNode (this_fields ?st0 2) = Some 0"
    by (simp add: s this_fields_def new_fields_def)
  have succ: "map_of (successors (this_fields ?st0 0)) ''x'' = Some 1" "''x'' \<noteq> []" "1 < nxt ?st0"
    by (simp_all add: s this_fields_def)
  have prep: "prep (this_meths ?st0 2) (this_fields ?st0 2) (world ?st0) = (Inr VUndefined, [])"
    by (simp add: s this_meths_def flow_methods_def node_methods_def default_prep_def)
  have p: "[] = spread (params (this_fields ?st0 2)) []"
    by (simp add: s this_fields_def new_fields_def spread_def)
  have "map_option fst (call_run 1 (nxt ?st0) ?sA) = Some (Inr (Some ''x''))"
    by code_simp
  then have runA: "call_run 1 (nxt ?st0) ?sA = Some (Inr (Some ''x''), st1)"
    unfolding st1_def by (rule returns_with)
  have "map_option fst (call_run 1 (nxt st1) ?sB) = Some (Inr (Some ''done''))"
    unfolding st1_def by code_simp
  then have runB: "call_run 1 (nxt st1) ?sB = Some (Inr (Some ''done''), st2)"
    unfolding st2_def by (rule returns_with)
  have endB: "get_successor (successors (this_fields ?st0 1)) (action_key (Some ''done'')) = Absent"
    by (simp add: s this_fields_def new_fields_def get_successor_def action_key_def
          object_prototype_keys_def)
  have w: "world st2 = [''A.prep'', ''A.exec'', ''A.post'', ''B.prep'', ''B.exec'', ''B.post'']"
    unfolding st2_def st1_def by code_simp
  from flow_runs_start_then_successor[OF flow start succ prep p runA runB endB]
  show ?thesis using w by (simp del: call_run.simps)
qed

text \<open>
  The claim as first stated has no condition on the label \<open>x\<close>. Below \<open>B\<close> is registered
  as the successor of \<open>A\<close> under the empty label and \<^verbatim>\<open>post\<close> of \<open>A\<close> returns the empty label:
  the orchestrator looks up \<open>''default''\<close>, finds nothing, and the flow returns the label
  of \<open>A\<close> without having run \<open>B\<close>.
\<close>

theorem empty_label_successor_never_runs_counterexample:
  "map_of (successors (this_fields (two_node_flow (Some []) [] (Some ''done'')) 0)) [] = Some 1 \<and>
   fst (post (this_meths (two_node_flow (Some []) [] (Some ''done'')) 0)
          (this_fields (two_node_flow (Some []) [] (Some ''done'')) 0)
          (VStr ''A'') (VStr ''A'') []) = Inr (Some []) \<and>
   fst (post (this_meths (two_node_flow (Some []) [] (Some ''done'')) 1)
          (this_fields (two_node_flow (Some []) [] (Some ''done'')) 1)
          (VStr ''B'') (VStr ''B'') []) = Inr (Some ''done'') \<and>
   map_option fst (run 5 2 (two_node_flow (Some []) [] (Some ''done'')))
     = Some (Inr (Some [])) \<and>
   map_option (world \<circ> snd) (run 5 2 (two_node_flow (Some []) [] (Some ''done'')))
     = Some [''A.prep'', ''A.exec'', ''A.post'']"
  by code_simp


text \<open>
  Nor has it a condition on the label of \<open>B\<close>. Below \<open>B\<close> has no successor and its \<^verbatim>\<open>post\<close>
  returns the name of a member of \<^verbatim>\<open>Object.prototype\<close>: both nodes run, and the next
  step of the orchestrator throws instead of returning the label of \<open>B\<close>.
\<close>

theorem inherited_last_label_raises:
  "successors (this_fields (two_node_flow (Some ''x'') ''x'' (Some ''toString'')) 1) = [] \<and>
   map_option fst (run 5 2 (two_node_flow (Some ''x'') ''x'' (Some ''toString'')))
     = Some (Inl (VTypeError ''curr.setParams is not a function'')) \<and>
   map_option (world \<circ> snd) (run 5 2 (two_node_flow (Some ''x'') ''x'' (Some ''toString'')))
     = Some [''A.prep'', ''A.exec'', ''A.post'', ''B.prep'', ''B.exec'', ''B.post'']"
  by code_simp


text \<open>
  Claim C4, as amended. The current node of a traversal returns a label \<open>l\<close>, and the
  key \<^verbatim>\<open>l || 'default'\<close> is neither a key of the node's successor table nor the name
  of a member of \<^verbatim>\<open>Object.prototype\<close>: the traversal ends after that node, without a
  throw, and returns \<open>l\<close>; when the node is the start node of a flow with the default
  \<^verbatim>\<open>post\<close>, \<^verbatim>\<open>run\<close> on the flow returns \<open>l\<close>.
\<close>

theorem unmatched_label_ends_traversal:
  fixes st :: "'w state"
  assumes "call_run n c (setParams c p st) = Some (Inr l, st1)"
      and "get_successor (successors (this_fields st1 c)) (action_key l) = Absent"
  shows "(\<exists>st2. Flow_orch_loop (Suc n) (CNode c) p la st = Some (Inr l, st2) \<and>
               heap st2 = heap st1 \<and> world st2 = world st1) \<and>
         (\<forall>flow a (st0 :: 'w state) pv w0.
            kind (heap st0 flow) = Flow \<longrightarrow> flow < nxt st0 \<longrightarrow>
            post (this_meths st0 flow) = default_flow_post \<longrightarrow>
            startNode (this_fields st0 flow) = Some a \<longrightarrow>
            prep (this_meths st0 flow) (this_fields st0 flow) (world st0) = (Inr pv, w0) \<longrightarrow>
            c = nxt st0 \<longrightarrow> p = spread (params (this_fields st0 flow)) [] \<longrightarrow>
            st = snd (clone a (set_world w0 (warn_successors flow st0))) \<longrightarrow>
            (\<exists>st3. run (Suc (Suc (Suc n))) flow st0 = Some (Inr l, st3) \<and> world st3 = world st1))"
proof (intro conjI allI impI)
  show "\<exists>st2. Flow_orch_loop (Suc n) (CNode c) p la st = Some (Inr l, st2) \<and>
               heap st2 = heap st1 \<and> world st2 = world st1"
    using Flow_orch_loop_end[OF assms] by blast
next
  fix flow a pv w0 and st0 :: "'w state"
  assume k: "kind (heap st0 flow) = Flow" and lt: "flow < nxt st0"
     and po: "post (this_meths st0 flow) = default_flow_post"
     and s: "startNode (this_fields st0 flow) = Some a"
     and pr: "prep (this_meths st0 flow) (this_fields st0 flow) (world st0) = (Inr pv, w0)"
     and c: "c = nxt st0" and p: "p = spread (params (this_fields st0 flow)) []"
     and st: "st = snd (clone a (set_world w0 (warn_successors flow st0)))"
  obtain st2 where l: "Flow_orch_loop (Suc n) (CNode c) p (Some ''default'') st = Some (Inr l, st2)"
    and w: "world st2 = world st1"
    using Flow_orch_loop_end[OF assms, of "Some ''default''"] by blast
  have "run (Suc (Suc (Suc n))) flow st0 = Some (Inr l, st2)"
    using l unfolding c p st by (rule Flow_run_start[OF k lt po s pr])
  with w show "\<exists>st3. run (Suc (Suc (Suc n))) flow st0 = Some (Inr l, st3) \<and> world st3 = world st1"
    by blast
qed


theorem unmatched_label_witness:
  "map_option fst (run 4 2 (two_node_flow (Some ''stop'') ''go'' (Some ''done'')))
     = Some (Inr (Some ''stop'')) \<and>
   map_option (world \<circ> snd) (run 4 2 (two_node_flow (Some ''stop'') ''go'' (Some ''done'')))
     = Some [''A.prep'', ''A.exec'', ''A.post'']"
proof -
  let ?g = "two_node_flow (Some ''stop'') ''go'' (Some ''done'')"
  note s = two_node_flow_simps[of "''go''" "Some ''stop''" "Some ''done''", simplified object_prototype_keys_def, simplified]
  let ?sC = "snd (clone 0 (set_world [] (warn_successors 2 ?g)))"
  define st1 where "st1 = snd (the (call_run 1 3 (setParams 3 [] ?sC)))"
  have "map_option fst (call_run 1 3 (setParams 3 [] ?sC)) = Some (Inr (Some ''stop''))"
    by code_simp
  then have runA: "call_run 1 3 (setParams 3 [] ?sC) = Some (Inr (Some ''stop''), st1)"
    unfolding st1_def by (rule returns_with)
  have un: "get_successor (successors (this_fields st1 3)) (action_key (Some ''stop'')) = Absent"
    unfolding st1_def by code_simp
  have w: "world st1 = [''A.prep'', ''A.exec'', ''A.post'']"
    unfolding st1_def by code_simp
  have flow: "kind (heap ?g 2) = Flow" "2 < nxt ?g" "post (this_meths ?g 2) = default_flow_post"
    by (simp_all add: s this_meths_def flow_methods_def)
  have start: "startNode (this_fields ?g 2) = Some 0"
    by (simp add: s this_fields_def new_fields_def)
  have prep: "prep (this_meths ?g 2) (this_fields ?g 2) (world ?g) = (Inr VUndefined, [])"
    by (simp add: s this_meths_def flow_methods_def node_methods_def default_prep_def)
  have p: "[] = spread (params (this_fields ?g 2)) []"
    by (simp add: s this_fields_def new_fields_def spread_def)
  have c: "3 = nxt ?g" by (simp only: s(2))
  from unmatched_label_ends_traversal[OF runA un, of "Some ''default''", THEN conjunct2,
         rule_format, OF flow start prep c p refl]
  obtain st3 where "run (Suc (Suc (Suc 1))) 2 ?g = Some (Inr (Some ''stop''), st3)"
    "world st3 = world st1" by blast
  then show ?thesis using w by (simp add: eval_nat_numeral del: call_run.simps)
qed


text \<open>
  The claim as first stated speaks of a label with no entry in the table. The empty
  label has no entry in the table of \<open>A\<close> below, whose only key is \<open>''default''\<close>; it is
  looked up as \<open>''default''\<close>, so \<open>B\<close> runs and the flow returns the label of \<open>B\<close>.
\<close>

theorem empty_label_follows_default_counterexample:
  "map_of (successors (this_fields (two_node_flow (Some []) ''default'' (Some ''done'')) 0)) [] = None \<and>
   fst (post (this_meths (two_node_flow (Some []) ''default'' (Some ''done'')) 0)
          (this_fields (two_node_flow (Some []) ''default'' (Some ''done'')) 0)
          (VStr ''A'') (VStr ''A'') []) = Inr (Some []) \<and>
   map_option fst (run 5 2 (two_node_flow (Some []) ''default'' (Some ''done'')))
     = Some (Inr (Some ''done'')) \<and>
   map_option (world \<circ> snd) (run 5 2 (two_node_flow (Some []) ''default'' (Some ''done'')))
     = Some [''A.prep'', ''A.exec'', ''A.post'', ''B.prep'', ''B.exec'', ''B.post'']"
  by code_simp


text \<open>
  A label that names a member of \<^verbatim>\<open>Object.prototype\<close> has no entry in the table either;
  the lookup finds the inherited member, and the next step of the orchestrator throws.
\<close>

theorem inherited_label_raises:
  "map_option fst (run 5 2 (two_node_flow (Some ''constructor'') ''go'' (Some ''done'')))
     = Some (Inl (VTypeError ''curr.setParams is not a function''))"
  by code_simp

section \<open>Copies of nodes\<close>

lemma same_state:
  assumes "heap s1 t1 = heap s2 t2" "world s1 = world s2"
  shows "set_world (world s1) (set_curRetry t1 (curRetry (this_fields s1 t1)) s1) = s1"
    and "set_world (world s1) (set_curRetry t2 (curRetry (this_fields s1 t1)) s2) = s2"
proof -
  have "curRetry (this_fields s1 t1) = curRetry (this_fields s2 t2)"
    using assms(1) by (simp add: this_fields_def)
  then show "set_world (world s1) (set_curRetry t2 (curRetry (this_fields s1 t1)) s2) = s2"
    using assms(2) by (metis set_curRetry_same set_world_same)
qed simp

lemma same_state_w:
  assumes "heap s1 t1 = heap s2 t2"
  shows "set_world w (set_curRetry t1 (curRetry (this_fields s1 t1)) s1) = set_world w s1"
    and "set_world w (set_curRetry t2 (curRetry (this_fields s1 t1)) s2) = set_world w s2"
proof -
  have "curRetry (this_fields s1 t1) = curRetry (this_fields s2 t2)"
    using assms(1) by (simp add: this_fields_def)
  then show "set_world w (set_curRetry t2 (curRetry (this_fields s1 t1)) s2) = set_world w s2"
    by (metis set_curRetry_same)
qed simp

lemma Node_exec_loop_transport:
  fixes s1 s2 :: "'w state"
  assumes "heap s1 t1 = heap s2 t2" "world s1 = world s2"
  shows "\<exists>r c w. Node_exec_loop t1 p s1 = (r, set_world w (set_curRetry t1 c s1)) \<and>
                 Node_exec_loop t2 p s2 = (r, set_world w (set_curRetry t2 c s2))"
  using assms
proof (induction t1 p s1 arbitrary: s2 rule: Node_exec_loop.induct)
  case (1 t1 p s1)
  have f: "this_fields s1 t1 = this_fields s2 t2" and m: "this_meths s1 t1 = this_meths s2 t2"
    using "1.prems" by (simp_all add: this_fields_def this_meths_def)
  show ?case
  proof (cases "curRetry (this_fields s1 t1) < maxRetries (this_fields s1 t1)")
    case False
    then have "Node_exec_loop t1 p s1 = (Inr VUndefined, s1)" "Node_exec_loop t2 p s2 = (Inr VUndefined, s2)"
      using f by (subst Node_exec_loop.simps, simp)+
    then have "Node_exec_loop t1 p s1
                 = (Inr VUndefined, set_world (world s1) (set_curRetry t1 (curRetry (this_fields s1 t1)) s1))"
      "Node_exec_loop t2 p s2
                 = (Inr VUndefined, set_world (world s1) (set_curRetry t2 (curRetry (this_fields s1 t1)) s2))"
      by (simp_all only: same_state[OF "1.prems"])
    then show ?thesis by blast
  next
    case lt: True
    obtain a w1 where ex: "exec (this_meths s1 t1) (this_fields s1 t1) p (world s1) = (a, w1)"
      by (cases "exec (this_meths s1 t1) (this_fields s1 t1) p (world s1)")
    then have ex2: "exec (this_meths s2 t2) (this_fields s2 t2) p (world s2) = (a, w1)"
      using f m "1.prems"(2) by simp
    show ?thesis
    proof (cases a)
      case (Inr r)
      have "Node_exec_loop t1 p s1 = (Inr r, set_world w1 s1)"
        using lt ex Inr by (subst Node_exec_loop.simps) simp
      moreover have "Node_exec_loop t2 p s2 = (Inr r, set_world w1 s2)"
        using lt ex2 Inr f by (subst Node_exec_loop.simps) simp
      ultimately have "Node_exec_loop t1 p s1
                 = (Inr r, set_world w1 (set_curRetry t1 (curRetry (this_fields s1 t1)) s1))"
        "Node_exec_loop t2 p s2
                 = (Inr r, set_world w1 (set_curRetry t2 (curRetry (this_fields s1 t1)) s2))"
        by (simp_all only: same_state_w[OF "1.prems"(1)])
      then show ?thesis by blast
    next
      case (Inl e1)
      show ?thesis
      proof (cases "curRetry (this_fields s1 t1) = maxRetries (this_fields s1 t1) - 1")
        case True
        obtain b w2 where fb: "execFallback (this_meths s1 t1) (this_fields s1 t1) p e1 w1 = (b, w2)"
          by (cases "execFallback (this_meths s1 t1) (this_fields s1 t1) p e1 w1")
        have "Node_exec_loop t1 p s1 = (b, set_world w2 s1)"
          using lt ex Inl True fb by (subst Node_exec_loop.simps) simp
        moreover have "Node_exec_loop t2 p s2 = (b, set_world w2 s2)"
          using lt ex2 Inl True fb f m by (subst Node_exec_loop.simps) simp
        ultimately have "Node_exec_loop t1 p s1
                 = (b, set_world w2 (set_curRetry t1 (curRetry (this_fields s1 t1)) s1))"
          "Node_exec_loop t2 p s2
                 = (b, set_world w2 (set_curRetry t2 (curRetry (this_fields s1 t1)) s2))"
          by (simp_all only: same_state_w[OF "1.prems"(1)])
        then show ?thesis by blast
      next
        case False
        let ?c = "curRetry (this_fields s1 t1) + 1"
        let ?s1 = "set_curRetry t1 ?c (set_world w1 s1)"
        let ?s2 = "set_curRetry t2 ?c (set_world w1 s2)"
        have e1: "Node_exec_loop t1 p s1 = Node_exec_loop t1 p ?s1"
          using lt ex Inl False by (subst Node_exec_loop.simps) simp
        have e2: "Node_exec_loop t2 p s2 = Node_exec_loop t2 p ?s2"
          using lt ex2 Inl False f by (subst Node_exec_loop.simps) simp
        have "heap ?s1 t1 = heap ?s2 t2" "world ?s1 = world ?s2"
          using "1.prems"(1) by simp_all
        from "1.IH"[OF lt ex[symmetric] Inl False this]
        obtain r c w where
          "Node_exec_loop t1 p ?s1 = (r, set_world w (set_curRetry t1 c ?s1))"
          "Node_exec_loop t2 p ?s2 = (r, set_world w (set_curRetry t2 c ?s2))"
          by blast
        then have "Node_exec_loop t1 p s1 = (r, set_world w (set_curRetry t1 c s1))"
          "Node_exec_loop t2 p s2 = (r, set_world w (set_curRetry t2 c s2))"
          using e1 e2 by (simp_all add: set_curRetry_set_world)
        then show ?thesis by blast
      qed
    qed
  qed
qed

lemma heap_eq_set:
  "heap s1 t1 = heap s2 t2 \<Longrightarrow>
   heap (set_world w (set_curRetry t1 c s1)) t1 = heap (set_world w' (set_curRetry t2 c s2)) t2"
  by simp

lemma Node_exec_transport:
  fixes s1 s2 :: "'w state"
  assumes "heap s1 t1 = heap s2 t2" "world s1 = world s2"
  shows "\<exists>r c w. Node_exec t1 p s1 = (r, set_world w (set_curRetry t1 c s1)) \<and>
                 Node_exec t2 p s2 = (r, set_world w (set_curRetry t2 c s2))"
proof -
  have "heap (set_curRetry t1 0 s1) t1 = heap (set_curRetry t2 0 s2) t2"
       "world (set_curRetry t1 0 s1) = world (set_curRetry t2 0 s2)"
    using assms by simp_all
  from Node_exec_loop_transport[OF this, of p]
  show ?thesis by (simp add: Node_exec_def)
qed

lemma BaseNode_exec_transport:
  fixes s1 s2 :: "'w state"
  assumes "heap s1 t1 = heap s2 t2" "world s1 = world s2"
  shows "\<exists>r c w. BaseNode_exec t1 p s1 = (r, set_world w (set_curRetry t1 c s1)) \<and>
                 BaseNode_exec t2 p s2 = (r, set_world w (set_curRetry t2 c s2))"
proof -
  have f: "this_fields s1 t1 = this_fields s2 t2" and m: "this_meths s1 t1 = this_meths s2 t2"
    using assms by (simp_all add: this_fields_def this_meths_def)
  obtain r w where e: "exec (this_meths s1 t1) (this_fields s1 t1) p (world s1) = (r, w)"
    by (cases "exec (this_meths s1 t1) (this_fields s1 t1) p (world s1)")
  have "BaseNode_exec t1 p s1 = (r, set_world w s1)" "BaseNode_exec t2 p s2 = (r,  set_world w s2)"
    using e f m assms(2) by (simp_all add: BaseNode_exec_def)
  then have "BaseNode_exec t1 p s1 = (r, set_world w (set_curRetry t1 (curRetry (this_fields s1 t1)) s1))"
    "BaseNode_exec t2 p s2 = (r, set_world w (set_curRetry t2 (curRetry (this_fields s1 t1)) s2))"
    by (simp_all only: same_state_w[OF assms(1)])
  then show ?thesis by blast
qed

lemma map_items_transport:
  fixes s1 s2 :: "'w state"
  assumes "heap s1 t1 = heap s2 t2" "world s1 = world s2"
  shows "\<exists>r c w. map_items (Node_exec t1) xs s1 = (r, set_world w (set_curRetry t1 c s1)) \<and>
                 map_items (Node_exec t2) xs s2 = (r, set_world w (set_curRetry t2 c s2))"
  using assms
proof (induction xs arbitrary: s1 s2)
  case Nil
  have "map_items (Node_exec t1) [] s1
          = (Inr [], set_world (world s1) (set_curRetry t1 (curRetry (this_fields s1 t1)) s1))"
       "map_items (Node_exec t2) [] s2
          = (Inr [], set_world (world s1) (set_curRetry t2 (curRetry (this_fields s1 t1)) s2))"
    by (simp_all only: same_state[OF Nil] map_items.simps)
  then show ?case by blast
next
  case (Cons x xs)
  from Node_exec_transport[OF Cons.prems, of x] obtain r c w where
    n1: "Node_exec t1 x s1 = (r, set_world w (set_curRetry t1 c s1))" and
    n2: "Node_exec t2 x s2 = (r, set_world w (set_curRetry t2 c s2))"
    by blast
  show ?case
  proof (cases r)
    case (Inl e)
    with n1 n2 show ?thesis by auto
  next
    case (Inr v)
    let ?s1 = "set_world w (set_curRetry t1 c s1)" and ?s2 = "set_world w (set_curRetry t2 c s2)"
    have "heap ?s1 t1 = heap ?s2 t2" "world ?s1 = world ?s2"
      using Cons.prems by simp_all
    from Cons.IH[OF this] obtain r' c' w' where
      m1: "map_items (Node_exec t1) xs ?s1 = (r', set_world w' (set_curRetry t1 c' ?s1))" and
      m2: "map_items (Node_exec t2) xs ?s2 = (r', set_world w' (set_curRetry t2 c' ?s2))"
      by blast
    have "map_items (Node_exec t1) (x # xs) s1
            = (case r' of Inl e \<Rightarrow> Inl e | Inr rs \<Rightarrow> Inr (v # rs), set_world w' (set_curRetry t1 c' s1))"
      "map_items (Node_exec t2) (x # xs) s2
            = (case r' of Inl e \<Rightarrow> Inl e | Inr rs \<Rightarrow> Inr (v # rs), set_world w' (set_curRetry t2 c' s2))"
      using n1 n2 m1 m2 Inr by (auto simp: set_curRetry_set_world split: sum.splits)
    then show ?thesis by blast
  qed
qed

lemma BatchNode_exec_transport:
  fixes s1 s2 :: "'w state"
  assumes "heap s1 t1 = heap s2 t2" "world s1 = world s2"
  shows "\<exists>r c w. BatchNode_exec t1 p s1 = (r, set_world w (set_curRetry t1 c s1)) \<and>
                 BatchNode_exec t2 p s2 = (r, set_world w (set_curRetry t2 c s2))"
proof -
  have self: "BatchNode_exec t1 p s1 = (r, s1) \<Longrightarrow> BatchNode_exec t2 p s2 = (r, s2) \<Longrightarrow> ?thesis" for r
  proof -
    assume "BatchNode_exec t1 p s1 = (r, s1)" "BatchNode_exec t2 p s2 = (r, s2)"
    then have "BatchNode_exec t1 p s1
          = (r, set_world (world s1) (set_curRetry t1 (curRetry (this_fields s1 t1)) s1))"
       "BatchNode_exec t2 p s2
          = (r, set_world (world s1) (set_curRetry t2 (curRetry (this_fields s1 t1)) s2))"
      by (simp_all only: same_state[OF assms])
    then show ?thesis by blast
  qed
  show ?thesis
  proof (cases "truthy p")
    case False
    then show ?thesis by (intro self) (simp_all add: BatchNode_exec_def)
  next
    case True
    show ?thesis
    proof (cases p)
      case (VArr xs)
      from map_items_transport[OF assms, of xs] obtain r c w where
        "map_items (Node_exec t1) xs s1 = (r, set_world w (set_curRetry t1 c s1))"
        "map_items (Node_exec t2) xs s2 = (r, set_world w (set_curRetry t2 c s2))"
        by blast
      then have "BatchNode_exec t1 p s1
              = (case r of Inl e \<Rightarrow> Inl e | Inr rs \<Rightarrow> Inr (VArr rs), set_world w (set_curRetry t1 c s1))"
        "BatchNode_exec t2 p s2
              = (case r of Inl e \<Rightarrow> Inl e | Inr rs \<Rightarrow> Inr (VArr rs), set_world w (set_curRetry t2 c s2))"
        using VArr by (auto simp: BatchNode_exec_def split: sum.splits)
      then show ?thesis by blast
    qed (use True in \<open>(intro self; simp add: BatchNode_exec_def)+\<close>)
  qed
qed

lemma BaseNode_run_transport:
  fixes s1 s2 :: "'w state"
  assumes ex: "\<And>p (u1 :: 'w state) u2. heap u1 t1 = heap u2 t2 \<Longrightarrow> world u1 = world u2 \<Longrightarrow>
             \<exists>r c w. ex t1 p u1 = (r, set_world w (set_curRetry t1 c u1)) \<and>
                     ex t2 p u2 = (r, set_world w (set_curRetry t2 c u2))"
      and "heap s1 t1 = heap s2 t2" "world s1 = world s2"
  shows "\<exists>r c w. BaseNode_run ex t1 s1 = (r, set_world w (set_curRetry t1 c s1)) \<and>
                 BaseNode_run ex t2 s2 = (r, set_world w (set_curRetry t2 c s2))"
proof -
  have f: "this_fields s1 t1 = this_fields s2 t2" and m: "this_meths s1 t1 = this_meths s2 t2"
    using assms(2) by (simp_all add: this_fields_def this_meths_def)
  obtain a w0 where pr: "prep (this_meths s1 t1) (this_fields s1 t1) (world s1) = (a, w0)"
    by (cases "prep (this_meths s1 t1) (this_fields s1 t1) (world s1)")
  then have pr2: "prep (this_meths s2 t2) (this_fields s2 t2) (world s2) = (a, w0)"
    using f m assms(3) by simp
  show ?thesis
  proof (cases a)
    case (Inl e)
    have "BaseNode_run ex t1 s1 = (Inl e, set_world w0 s1)" "BaseNode_run ex t2 s2 = (Inl e, set_world w0 s2)"
      using pr pr2 Inl f by (simp_all add: BaseNode_run_def)
    then have "BaseNode_run ex t1 s1 = (Inl e, set_world w0 (set_curRetry t1 (curRetry (this_fields s1 t1)) s1))"
      "BaseNode_run ex t2 s2 = (Inl e, set_world w0 (set_curRetry t2 (curRetry (this_fields s1 t1)) s2))"
      by (simp_all only: same_state_w[OF assms(2)])
    then show ?thesis by blast
  next
    case (Inr p)
    have "heap (set_world w0 s1) t1 = heap (set_world w0 s2) t2"
         "world (set_world w0 s1) = world (set_world w0 s2)"
      using assms(2) by simp_all
    from ex[OF this, of p] obtain r c w where
      e1: "ex t1 p (set_world w0 s1) = (r, set_world w (set_curRetry t1 c s1))" and
      e2: "ex t2 p (set_world w0 s2) = (r, set_world w (set_curRetry t2 c s2))"
      by (auto simp: set_curRetry_set_world)
    show ?thesis
    proof (cases r)
      case (Inl e)
      with pr pr2 Inr e1 e2 show ?thesis by (auto simp: BaseNode_run_def)
    next
      case v: (Inr v)
      let ?u1 = "set_world w (set_curRetry t1 c s1)" and ?u2 = "set_world w (set_curRetry t2 c s2)"
      have fm: "this_fields ?u1 t1 = this_fields ?u2 t2" "this_meths ?u1 t1 = this_meths ?u2 t2"
        using f m by simp_all
      obtain l w' where po: "post (this_meths ?u1 t1) (this_fields ?u1 t1) p v (world ?u1) = (l, w')"
        by (cases "post (this_meths ?u1 t1) (this_fields ?u1 t1) p v (world ?u1)")
      then have po2: "post (this_meths ?u2 t2) (this_fields ?u2 t2) p v (world ?u2) = (l, w')"
        using fm by simp
      have "BaseNode_run ex t1 s1 = (l, set_world w' (set_curRetry t1 c s1))"
        "BaseNode_run ex t2 s2 = (l, set_world w' (set_curRetry t2 c s2))"
        using pr pr2 Inr e1 e2 v po po2 by (simp_all add: BaseNode_run_def)
      then show ?thesis by blast
    qed
  qed
qed

lemma refs_below_with_curRetry [simp]: "refs_below n (with_curRetry c ob) = refs_below n ob"
  by (simp add: refs_below_def with_curRetry_def)

lemma agree_set_world [simp]: "agree n (set_world w s1) (set_world w s2) = 
    (n \<le> nxt s1 \<and> n \<le> nxt s2 \<and> (\<forall>a<n. heap s1 a = heap s2 a))"
  by (auto simp: agree_def)

lemma agree_heap: "agree n s1 s2 \<Longrightarrow> a < n \<Longrightarrow> heap s1 a = heap s2 a"
  by (simp add: agree_def)

lemma paired_set_world [simp]: "paired n (set_world w s1) (set_world w' s2) t1 t2 = paired n s1 s2 t1 t2"
  by (simp add: paired_def)

lemma closed_set_world [simp]: "closed n (set_world w st) = closed n st"
  by (simp add: closed_def)

lemma closed_frame:
  assumes "closed n st" "frame A st st'" "\<And>a. a \<in> A \<Longrightarrow> a < n \<Longrightarrow> refs_below n (heap st' a)"
  shows "closed n st'"
  unfolding closed_def
proof (intro conjI allI impI)
  show "n \<le> nxt st'" using assms(1,2) by (simp add: closed_def frame_def)
  fix a assume a: "a < n"
  show "refs_below n (heap st' a)"
  proof (cases "a \<in> A")
    case True
    then show ?thesis using assms(3) a by blast
  next
    case False
    have "a < nxt st" using a assms(1) by (simp add: closed_def)
    then have "heap st' a = heap st a" using assms(2) False by (simp add: frame_def)
    then show ?thesis using assms(1) a by (simp add: closed_def)
  qed
qed

lemma closed_run:
  assumes "closed n st" "call_run k t st = Some (r, st')" "t < nxt st"
  shows "closed n st'"
proof -
  from assms(2) frame_all[of k] have rf: "run_frame t st st'" by blast
  with assms(3) obtain c where c: "heap st' t = with_curRetry c (heap st t)"
    by (auto simp: run_frame_def)
  show ?thesis
  proof (rule closed_frame[OF assms(1)])
    show "frame {t} st st'" using rf by (simp add: run_frame_def)
    fix a assume "a \<in> {t}" "a < n"
    then show "refs_below n (heap st' a)" using c assms(1) by (simp add: closed_def)
  qed
qed

lemma closed_orch:
  assumes "closed n st" "Flow_orch k t ps st = Some (r, st')"
  shows "closed n st'"
proof -
  from assms(2) frame_all[of k] have "frame {} st st'" by blast
  then show ?thesis by (rule closed_frame[OF assms(1)]) simp
qed

lemma paired_pres:
  assumes "paired n s1 s2 t1 t2" "heap s1' t1 = heap s1 t1" "heap s2' t2 = heap s2 t2"
    "nxt s1 \<le> nxt s1'" "nxt s2 \<le> nxt s2'"
  shows "paired n s1' s2' t1 t2"
proof -
  from assms(1) have p: "heap s1 t1 = heap s2 t2" "t1 < nxt s1" "t2 < nxt s2"
    "t1 < n \<or> t2 < n \<longrightarrow> t1 = t2" "refs_below n (heap s1 t1)"
    unfolding paired_def by blast+
  have "heap s1' t1 = heap s2' t2" using p(1) assms(2,3) by simp
  moreover have "refs_below n (heap s1' t1)" using p(5) assms(2) by simp
  moreover have "t1 < nxt s1'" "t2 < nxt s2'" using p(2,3) assms(4,5) by linarith+
  ultimately show ?thesis unfolding paired_def using p(4) by blast
qed

lemma clone_rel:
  assumes "agree n s1 s2" "closed n s1" "b < n"
  shows "agree n (snd (clone b s1)) (snd (clone b s2))"
    and "closed n (snd (clone b s1))"
    and "paired n (snd (clone b s1)) (snd (clone b s2)) (nxt s1) (nxt s2)"
proof -
  have n: "n \<le> nxt s1" "n \<le> nxt s2" and h: "heap s1 b = heap s2 b"
    using assms(1,3) by (simp_all add: agree_def)
  show "agree n (snd (clone b s1)) (snd (clone b s2))"
    using assms(1) n by (simp add: agree_def)
  show "closed n (snd (clone b s1))"
    using assms(2) n by (simp add: closed_def)
  show "paired n (snd (clone b s1)) (snd (clone b s2)) (nxt s1) (nxt s2)"
  proof -
    have "refs_below n (heap s1 b)" using assms(2,3) by (simp add: closed_def)
    then show ?thesis using n h by (simp add: paired_def)
  qed
qed

lemma setParams_rel:
  assumes "agree n s1 s2" "closed n s1" "paired n s1 s2 c1 c2"
  shows "agree n (setParams c1 p s1) (setParams c2 p s2)"
    and "closed n (setParams c1 p s1)"
    and "paired n (setParams c1 p s1) (setParams c2 p s2) c1 c2"
proof -
  from assms(3) have pr: "heap s1 c1 = heap s2 c2" "c1 < nxt s1" "c2 < nxt s2"
    "c1 < n \<or> c2 < n \<longrightarrow> c1 = c2" "refs_below n (heap s1 c1)"
    unfolding paired_def by blast+
  have h1: "heap (setParams c1 p s1) c1 = (heap s1 c1)\<lparr>flds := (flds (heap s1 c1))\<lparr>params := p\<rparr>\<rparr>"
    by (rule heap_setParams_same)
  have h2: "heap (setParams c2 p s2) c2 = (heap s2 c2)\<lparr>flds := (flds (heap s2 c2))\<lparr>params := p\<rparr>\<rparr>"
    by (rule heap_setParams_same)
  have h: "heap (setParams c1 p s1) c1 = heap (setParams c2 p s2) c2"
    unfolding h1 h2 pr(1) ..
  have r1: "refs_below n (heap (setParams c1 p s1) c1)"
    unfolding h1 using pr(5) by (simp add: refs_below_def)
  show "agree n (setParams c1 p s1) (setParams c2 p s2)"
    unfolding agree_def
  proof (intro conjI allI impI)
    show "n \<le> nxt (setParams c1 p s1)" "n \<le> nxt (setParams c2 p s2)"
      using assms(1) by (simp_all add: agree_def)
    show "world (setParams c1 p s1) = world (setParams c2 p s2)"
      using assms(1) by (simp add: agree_def)
    fix a assume a: "a < n"
    show "heap (setParams c1 p s1) a = heap (setParams c2 p s2) a"
    proof (cases "a = c1 \<or> a = c2")
      case True
      then have "c1 = c2 \<and> a = c1" using pr(4) a by blast
      then show ?thesis using h by blast
    next
      case False
      then have "heap (setParams c1 p s1) a = heap s1 a" "heap (setParams c2 p s2) a = heap s2 a"
        by (simp_all add: setParams_def)
      moreover have "heap s1 a = heap s2 a" using assms(1) a by (simp add: agree_def)
      ultimately show ?thesis by (simp only:)
    qed
  qed
  show "closed n (setParams c1 p s1)"
    unfolding closed_def
  proof (intro conjI allI impI)
    show "n \<le> nxt (setParams c1 p s1)" using assms(2) by (simp add: closed_def)
    fix a assume a: "a < n"
    show "refs_below n (heap (setParams c1 p s1) a)"
    proof (cases "a = c1")
      case True
      then show ?thesis using r1 by blast
    next
      case False
      then have "heap (setParams c1 p s1) a = heap s1 a" by (simp add: setParams_def)
      then show ?thesis using assms(2) a by (simp add: closed_def)
    qed
  qed
  show "paired n (setParams c1 p s1) (setParams c2 p s2) c1 c2"
    unfolding paired_def
  proof (intro conjI)
    show "heap (setParams c1 p s1) c1 = heap (setParams c2 p s2) c2" by (rule h)
    show "refs_below n (heap (setParams c1 p s1) c1)" by (rule r1)
    show "c1 < nxt (setParams c1 p s1)" "c2 < nxt (setParams c2 p s2)" using pr(2,3) by simp_all
    show "c1 < n \<or> c2 < n \<longrightarrow> c1 = c2" by (rule pr(4))
  qed
qed

lemma getNextNode_rel:
  assumes "heap s1 c1 = heap s2 c2"
  shows "fst (getNextNode c1 l s1) = fst (getNextNode c2 l s2)"
proof -
  have "this_fields s1 c1 = this_fields s2 c2" using assms by (simp add: this_fields_def)
  then show ?thesis
    by (cases "get_successor (successors (this_fields s2 c2)) (action_key l)")
       (simp_all add: getNextNode_def Let_def)
qed

lemma getNextNode_succ:
  assumes "getNextNode c l st = (CNode b, st')"
  shows "b \<in> snd ` set (successors (this_fields st c))"
proof -
  from assms have "get_successor (successors (this_fields st c)) (action_key l) = Own b"
    by (cases "get_successor (successors (this_fields st c)) (action_key l)")
       (simp_all add: getNextNode_def Let_def)
  then have "map_of (successors (this_fields st c)) (action_key l) = Some b"
    by (simp add: get_successor_def split: option.splits if_splits)
  then have "(action_key l, b) \<in> set (successors (this_fields st c))"
    by (rule map_of_SomeD)
  then show ?thesis by force
qed

lemma paired_D:
  assumes "paired n s1 s2 t1 t2"
  shows "heap s1 t1 = heap s2 t2" "t1 < nxt s1" "t2 < nxt s2"
    "t1 < n \<or> t2 < n \<longrightarrow> t1 = t2" "refs_below n (heap s1 t1)"
    "this_fields s1 t1 = this_fields s2 t2" "this_meths s1 t1 = this_meths s2 t2"
    "kind (heap s1 t1) = kind (heap s2 t2)"
proof -
  from assms show h: "heap s1 t1 = heap s2 t2" and "t1 < nxt s1" and "t2 < nxt s2"
    and "t1 < n \<or> t2 < n \<longrightarrow> t1 = t2" and "refs_below n (heap s1 t1)"
    unfolding paired_def by blast+
  show "this_fields s1 t1 = this_fields s2 t2" "this_meths s1 t1 = this_meths s2 t2"
    "kind (heap s1 t1) = kind (heap s2 t2)"
    unfolding this_fields_def this_meths_def h by (rule refl)+
qed

lemma curRetry_rel:
  assumes "agree n s1 s2" "paired n s1 s2 c1 c2"
  shows "agree n (set_world w (set_curRetry c1 c s1)) (set_world w (set_curRetry c2 c s2))"
    and "heap (set_world w (set_curRetry c1 c s1)) c1 = heap (set_world w (set_curRetry c2 c s2)) c2"
proof -
  note pr = paired_D[OF assms(2)]
  show h: "heap (set_world w (set_curRetry c1 c s1)) c1 = heap (set_world w (set_curRetry c2 c s2)) c2"
    by (rule heap_eq_set[OF pr(1)])
  show "agree n (set_world w (set_curRetry c1 c s1)) (set_world w (set_curRetry c2 c s2))"
    unfolding agree_def
  proof (intro conjI allI impI)
    fix a assume a: "a < n"
    show "heap (set_world w (set_curRetry c1 c s1)) a = heap (set_world w (set_curRetry c2 c s2)) a"
    proof (cases "a = c1 \<or> a = c2")
      case True
      then have "c1 = c2 \<and> a = c1" using pr(4) a by blast
      then show ?thesis using h by blast
    next
      case False
      then have "heap (set_world w (set_curRetry c1 c s1)) a = heap s1 a"
        "heap (set_world w (set_curRetry c2 c s2)) a = heap s2 a"
        by simp_all
      moreover have "heap s1 a = heap s2 a" using assms(1) a by (simp add: agree_def)
      ultimately show ?thesis by (simp only:)
    qed
  qed (use assms(1) in \<open>simp_all add: agree_def\<close>)
qed

lemma leaf_sim:
  fixes s1 s2 :: "'w state"
  assumes ex: "\<And>p (u1 :: 'w state) u2. heap u1 t1 = heap u2 t2 \<Longrightarrow> world u1 = world u2 \<Longrightarrow>
             \<exists>r c w. ex t1 p u1 = (r, set_world w (set_curRetry t1 c u1)) \<and>
                     ex t2 p u2 = (r, set_world w (set_curRetry t2 c u2))"
      and "agree n s1 s2" "paired n s1 s2 t1 t2"
      and "BaseNode_run ex t1 s1 = (r, s1')"
  shows "\<exists>s2'. BaseNode_run ex t2 s2 = (r, s2') \<and> agree n s1' s2' \<and> heap s1' t1 = heap s2' t2"
proof -
  have "heap s1 t1 = heap s2 t2" "world s1 = world s2"
    using assms(2,3) by (simp_all add: paired_def agree_def)
  from BaseNode_run_transport[of t1 t2 ex, OF ex this] obtain r0 c w where
    a: "BaseNode_run ex t1 s1 = (r0, set_world w (set_curRetry t1 c s1))" and
    b: "BaseNode_run ex t2 s2 = (r0, set_world w (set_curRetry t2 c s2))"
    by blast
  from a assms(4) have "r0 = r" "s1' = set_world w (set_curRetry t1 c s1)" by simp_all
  then show ?thesis using b curRetry_rel[OF assms(2,3), of w c] by blast
qed

lemma orch_frame_same:
  assumes "Flow_orch k t ps st = Some (r, st')" "t < nxt st"
  shows "heap st' t = heap st t" "nxt st \<le> nxt st'"
proof -
  from assms(1) frame_all[of k] have "frame {} st st'" by blast
  then show "heap st' t = heap st t" "nxt st \<le> nxt st'" using assms(2) by (simp_all add: frame_def)
qed

lemma batch_frame_same:
  assumes "BatchFlow_loop k t bps st = Some (r, st')" "t < nxt st"
  shows "heap st' t = heap st t" "nxt st \<le> nxt st'"
proof -
  from assms(1) frame_all[of k] have "frame {} st st'" by blast
  then show "heap st' t = heap st t" "nxt st \<le> nxt st'" using assms(2) by (simp_all add: frame_def)
qed

lemma closed_batch:
  assumes "closed n st" "BatchFlow_loop k t bps st = Some (r, st')"
  shows "closed n st'"
proof -
  from assms(2) frame_all[of k] have "frame {} st st'" by blast
  then show ?thesis by (rule closed_frame[OF assms(1)]) simp
qed

lemma run_heap_this:
  assumes "call_run k t st = Some (r, st')" "t < nxt st"
  shows "\<exists>c. heap st' t = with_curRetry c (heap st t)" "nxt st \<le> nxt st'"
proof -
  from assms(1) frame_all[of k] have rf: "run_frame t st st'" by blast
  then show "\<exists>c. heap st' t = with_curRetry c (heap st t)" "nxt st \<le> nxt st'"
    using assms(2) by (simp_all add: run_frame_def frame_def)
qed

lemma sim_runI:
  assumes "\<And>t1 t2 (s1 :: 'w state) s2 r s1'.
        agree n0 s1 s2 \<Longrightarrow> closed n0 s1 \<Longrightarrow> paired n0 s1 s2 t1 t2 \<Longrightarrow>
        call_run n t1 s1 = Some (r, s1') \<Longrightarrow>
        \<exists>s2'. call_run n t2 s2 = Some (r, s2') \<and> agree n0 s1' s2' \<and> heap s1' t1 = heap s2' t2"
  shows "sim_run n0 n TYPE('w)"
  unfolding sim_run_def using assms by blast

lemma sim_runD:
  assumes "sim_run n0 n TYPE('w)" "agree n0 (s1 :: 'w state) s2" "closed n0 s1" "paired n0 s1 s2 t1 t2"
    "call_run n t1 s1 = Some (r, s1')"
  shows "\<exists>s2'. call_run n t2 s2 = Some (r, s2') \<and> agree n0 s1' s2' \<and> heap s1' t1 = heap s2' t2"
  using assms unfolding sim_run_def by blast

lemma sim_orchD:
  assumes "sim_orch n0 n TYPE('w)" "agree n0 (s1 :: 'w state) s2" "closed n0 s1" "paired n0 s1 s2 t1 t2"
    "Flow_orch n t1 ps s1 = Some (r, s1')"
  shows "\<exists>s2'. Flow_orch n t2 ps s2 = Some (r, s2') \<and> agree n0 s1' s2'"
  using assms unfolding sim_orch_def by blast

lemma sim_loopD:
  assumes "sim_loop n0 n TYPE('w)" "agree n0 (s1 :: 'w state) s2" "closed n0 s1" "cur_rel n0 s1 s2 cu1 cu2"
    "Flow_orch_loop n cu1 p la s1 = Some (r, s1')"
  shows "\<exists>s2'. Flow_orch_loop n cu2 p la s2 = Some (r, s2') \<and> agree n0 s1' s2'"
  using assms unfolding sim_loop_def by blast

lemma sim_batchD:
  assumes "sim_batch n0 n TYPE('w)" "agree n0 (s1 :: 'w state) s2" "closed n0 s1" "paired n0 s1 s2 t1 t2"
    "BatchFlow_loop n t1 bps s1 = Some (r, s1')"
  shows "\<exists>s2'. BatchFlow_loop n t2 bps s2 = Some (r, s2') \<and> agree n0 s1' s2'"
  using assms unfolding sim_batch_def by blast

lemma sim_run_Suc:
  assumes orch: "sim_orch n0 n TYPE('w)" and batch: "sim_batch n0 n TYPE('w)"
  shows "sim_run n0 (Suc n) TYPE('w)"
proof (rule sim_runI)
  fix t1 t2 r and s1 s2 s1' :: "'w state"
  assume ag: "agree n0 s1 s2" and cl: "closed n0 s1" and pa: "paired n0 s1 s2 t1 t2"
     and run: "call_run (Suc n) t1 s1 = Some (r, s1')"
  note pr = paired_D[OF pa]
  have w: "world s1 = world s2" using ag by (simp add: agree_def)
  let ?k = "kind (heap s1 t1)"
  have k2: "kind (heap s2 t2) = ?k" using pr(8) by simp
  let ?goal = "\<exists>s2'. call_run (Suc n) t2 s2 = Some (r, s2') \<and> agree n0 s1' s2' \<and> heap s1' t1 = heap s2' t2"
  have leaf: ?goal
    if tr: "\<And>p (u1 :: 'w state) u2. heap u1 t1 = heap u2 t2 \<Longrightarrow> world u1 = world u2 \<Longrightarrow>
             \<exists>r c w. ex t1 p u1 = (r, set_world w (set_curRetry t1 c u1)) \<and>
                     ex t2 p u2 = (r, set_world w (set_curRetry t2 c u2))"
      and c1: "call_run (Suc n) t1 s1 = Some (BaseNode_run ex t1 s1)"
      and c2: "call_run (Suc n) t2 s2 = Some (BaseNode_run ex t2 s2)" for ex
  proof -
    from run c1 have br: "BaseNode_run ex t1 s1 = (r, s1')" by (simp only: option.inject)
    have "\<exists>s2'. BaseNode_run ex t2 s2 = (r, s2') \<and> agree n0 s1' s2' \<and> heap s1' t1 = heap s2' t2"
    proof (rule leaf_sim[where ex = ex and ?s1.0 = s1 and ?s2.0 = s2, OF _ ag pa br])
      fix p and u1 u2 :: "'w state"
      assume "heap u1 t1 = heap u2 t2" "world u1 = world u2"
      then show "\<exists>r c w. ex t1 p u1 = (r, set_world w (set_curRetry t1 c u1)) \<and>
                     ex t2 p u2 = (r, set_world w (set_curRetry t2 c u2))" by (rule tr)
    qed
    then show ?thesis unfolding c2 by (simp only: option.inject)
  qed
  consider (base) "?k = BaseNode" | (node) "?k = Node" | (bnode) "?k = BatchNode"
    | (async) "is_AsyncNode ?k" | (bflow) "?k = BatchFlow"
    | (flow) "?k \<noteq> BaseNode" "?k \<noteq> Node" "?k \<noteq> BatchNode" "\<not> is_AsyncNode ?k" "?k \<noteq> BatchFlow"
    by blast
  then show ?goal
  proof cases
    case base
    show ?thesis
      by (rule leaf[of BaseNode_exec]) (use base k2 BaseNode_exec_transport in \<open>simp_all\<close>)
  next
    case node
    show ?thesis
      by (rule leaf[of Node_exec]) (use node k2 Node_exec_transport in \<open>simp_all\<close>)
  next
    case bnode
    show ?thesis
      by (rule leaf[of BatchNode_exec]) (use bnode k2 BatchNode_exec_transport in \<open>simp_all\<close>)
  next
    case async
    then have a1: "call_run (Suc n) t1 s1 = Some (Inl (VError ''Use runAsync.''), s1)"
      and a2: "call_run (Suc n) t2 s2 = Some (Inl (VError ''Use runAsync.''), s2)"
      using k2 by (auto simp: is_AsyncNode_def)
    from run a1 have "r = Inl (VError ''Use runAsync.'')" "s1' = s1" by simp_all
    then show ?thesis using a2 ag pr(1) by blast
  next
    case bflow
    obtain a w0 where p1: "prep (this_meths s1 t1) (this_fields s1 t1) (world s1) = (a, w0)"
      by (cases "prep (this_meths s1 t1) (this_fields s1 t1) (world s1)")
    then have p2: "prep (this_meths s2 t2) (this_fields s2 t2) (world s2) = (a, w0)"
      unfolding pr(6,7) w .
    have ag0: "agree n0 (set_world w0 s1) (set_world w0 s2)" using ag by (simp add: agree_def)
    have cl0: "closed n0 (set_world w0 s1)" using cl by simp
    have pa0: "paired n0 (set_world w0 s1) (set_world w0 s2) t1 t2" using pa by simp
    have h0: "heap (set_world w0 s1) t1 = heap (set_world w0 s2) t2"
      using pr(1) by (simp only: heap_set_world)
    have stop: ?thesis
      if "call_run (Suc n) t1 s1 = Some (x, set_world w0 s1)"
         "call_run (Suc n) t2 s2 = Some (x, set_world w0 s2)" for x
    proof -
      from run that(1) have "r = x" "s1' = set_world w0 s1" by simp_all
      then show ?thesis using that(2) ag0 h0 by blast
    qed
    show ?thesis
    proof (cases a)
      case (Inl e)
      show ?thesis
        by (rule stop[of "Inl e"])
           (use bflow k2 p1 p2 Inl in \<open>simp_all add: is_AsyncNode_def is_BatchFlow_def\<close>)
    next
      case (Inr v)
      show ?thesis
      proof (cases "iterate (or_empty v)")
        case (Inl e)
        show ?thesis
          by (rule stop[of "Inl e"])
             (use bflow k2 p1 p2 Inr Inl in \<open>simp_all add: is_AsyncNode_def is_BatchFlow_def\<close>)
      next
        case it: (Inr bps)
        from run bflow p1 Inr it obtain rb s1b where
          b1: "BatchFlow_loop n t1 bps (set_world w0 s1) = Some (rb, s1b)"
          by (auto simp: is_AsyncNode_def is_BatchFlow_def split: option.splits)
        from sim_batchD[OF batch ag0 cl0 pa0 b1] obtain s2b where
          b2: "BatchFlow_loop n t2 bps (set_world w0 s2) = Some (rb, s2b)" and agb: "agree n0 s1b s2b"
          by blast
        have hb1: "heap s1b t1 = heap s1 t1" using batch_frame_same(1)[OF b1] pr(2) by simp
        have hb2: "heap s2b t2 = heap s2 t2" using batch_frame_same(1)[OF b2] pr(3) by simp
        have hb: "heap s1b t1 = heap s2b t2" unfolding hb1 hb2 by (rule pr(1))
        have wb: "world s1b = world s2b" using agb by (simp add: agree_def)
        have fm: "this_fields s1b t1 = this_fields s2b t2" "this_meths s1b t1 = this_meths s2b t2"
          unfolding this_fields_def this_meths_def hb by (rule refl)+
        show ?thesis
        proof (cases rb)
          case (Inl e)
          have c1: "call_run (Suc n) t1 s1 = Some (Inl e, s1b)"
            using bflow p1 Inr it b1 Inl by (simp add: is_AsyncNode_def is_BatchFlow_def)
          have c2: "call_run (Suc n) t2 s2 = Some (Inl e, s2b)"
            using bflow k2 p2 Inr it b2 Inl by (simp add: is_AsyncNode_def is_BatchFlow_def)
          from run c1 have "r = Inl e" "s1' = s1b" by simp_all
          then show ?thesis using c2 agb hb by blast
        next
          case u: (Inr u)
          obtain l w' where q1: "post (this_meths s1b t1) (this_fields s1b t1) (or_empty v) VNull (world s1b) = (l, w')"
            by (cases "post (this_meths s1b t1) (this_fields s1b t1) (or_empty v) VNull (world s1b)")
          then have q2: "post (this_meths s2b t2) (this_fields s2b t2) (or_empty v) VNull (world s2b) = (l, w')"
            unfolding fm wb .
          have c1: "call_run (Suc n) t1 s1 = Some (l, set_world w' s1b)"
            using bflow p1 Inr it b1 u q1 by (simp add: is_AsyncNode_def is_BatchFlow_def)
          have c2: "call_run (Suc n) t2 s2 = Some (l, set_world w' s2b)"
            using bflow k2 p2 Inr it b2 u q2 by (simp add: is_AsyncNode_def is_BatchFlow_def)
          have ag': "agree n0 (set_world w' s1b) (set_world w' s2b)" using agb by (simp add: agree_def)
          have h': "heap (set_world w' s1b) t1 = heap (set_world w' s2b) t2"
            using hb by (simp only: heap_set_world)
          from run c1 have "r = l" "s1' = set_world w' s1b" by simp_all
          then show ?thesis using c2 ag' h' by blast
        qed
      qed
    qed
  next
    case flow
    then have nb: "\<not> is_BatchFlow ?k" by (simp add: is_BatchFlow_def)
    obtain a w0 where p1: "prep (this_meths s1 t1) (this_fields s1 t1) (world s1) = (a, w0)"
      by (cases "prep (this_meths s1 t1) (this_fields s1 t1) (world s1)")
    then have p2: "prep (this_meths s2 t2) (this_fields s2 t2) (world s2) = (a, w0)"
      unfolding pr(6,7) w .
    have ag0: "agree n0 (set_world w0 s1) (set_world w0 s2)" using ag by (simp add: agree_def)
    have cl0: "closed n0 (set_world w0 s1)" using cl by simp
    have pa0: "paired n0 (set_world w0 s1) (set_world w0 s2) t1 t2" using pa by simp
    have h0: "heap (set_world w0 s1) t1 = heap (set_world w0 s2) t2"
      using pr(1) by (simp only: heap_set_world)
    show ?thesis
    proof (cases a)
      case (Inl e)
      have c1: "call_run (Suc n) t1 s1 = Some (Inl e, set_world w0 s1)"
        using flow nb p1 Inl by simp
      have c2: "call_run (Suc n) t2 s2 = Some (Inl e, set_world w0 s2)"
        using flow nb k2 p2 Inl by simp
      from run c1 have "r = Inl e" "s1' = set_world w0 s1" by simp_all
      then show ?thesis using c2 ag0 h0 by blast
    next
      case (Inr v)
      from run flow nb p1 Inr obtain rb s1b where
        b1: "Flow_orch n t1 None (set_world w0 s1) = Some (rb, s1b)"
        by (auto split: option.splits)
      from sim_orchD[OF orch ag0 cl0 pa0 b1] obtain s2b where
        b2: "Flow_orch n t2 None (set_world w0 s2) = Some (rb, s2b)" and agb: "agree n0 s1b s2b"
        by blast
      have hb1: "heap s1b t1 = heap s1 t1" using orch_frame_same(1)[OF b1] pr(2) by simp
      have hb2: "heap s2b t2 = heap s2 t2" using orch_frame_same(1)[OF b2] pr(3) by simp
      have hb: "heap s1b t1 = heap s2b t2" unfolding hb1 hb2 by (rule pr(1))
      have wb: "world s1b = world s2b" using agb by (simp add: agree_def)
      have fm: "this_fields s1b t1 = this_fields s2b t2" "this_meths s1b t1 = this_meths s2b t2"
        unfolding this_fields_def this_meths_def hb by (rule refl)+
      show ?thesis
      proof (cases rb)
        case (Inl e)
        have c1: "call_run (Suc n) t1 s1 = Some (Inl e, s1b)"
          using flow nb p1 Inr b1 Inl by (simp del: Flow_orch.simps)
        have c2: "call_run (Suc n) t2 s2 = Some (Inl e, s2b)"
          using flow nb k2 p2 Inr b2 Inl by (simp del: Flow_orch.simps)
        from run c1 have "r = Inl e" "s1' = s1b" by simp_all
        then show ?thesis using c2 agb hb by blast
      next
        case u: (Inr u)
        obtain l w' where q1: "post (this_meths s1b t1) (this_fields s1b t1) v (action_val u) (world s1b) = (l, w')"
          by (cases "post (this_meths s1b t1) (this_fields s1b t1) v (action_val u) (world s1b)")
        then have q2: "post (this_meths s2b t2) (this_fields s2b t2) v (action_val u) (world s2b) = (l, w')"
          unfolding fm wb .
        have c1: "call_run (Suc n) t1 s1 = Some (l, set_world w' s1b)"
          using flow nb p1 Inr b1 u q1 by (simp del: Flow_orch.simps)
        have c2: "call_run (Suc n) t2 s2 = Some (l, set_world w' s2b)"
          using flow nb k2 p2 Inr b2 u q2 by (simp del: Flow_orch.simps)
        have ag': "agree n0 (set_world w' s1b) (set_world w' s2b)" using agb by (simp add: agree_def)
        have h': "heap (set_world w' s1b) t1 = heap (set_world w' s2b) t2"
          using hb by (simp only: heap_set_world)
        from run c1 have "r = l" "s1' = set_world w' s1b" by simp_all
        then show ?thesis using c2 ag' h' by blast
      qed
    qed
  qed
qed

lemma cur_rel_cases:
  assumes "cur_rel n s1 s2 cu1 cu2"
  obtains (null) "cu1 = CNull" "cu2 = CNull"
    | (foreign) "cu1 = CForeign" "cu2 = CForeign"
    | (node) c1 c2 where "cu1 = CNode c1" "cu2 = CNode c2" "paired n s1 s2 c1 c2"
  using assms unfolding cur_rel_def by (cases cu1; cases cu2) simp_all

lemma cur_rel_simps [simp]:
  "cur_rel n s1 s2 CNull CNull" "cur_rel n s1 s2 CForeign CForeign"
  "cur_rel n s1 s2 (CNode c1) (CNode c2) = paired n s1 s2 c1 c2"
  by (simp_all add: cur_rel_def)

lemma sim_loop_end:
  fixes s1 s2 :: "'w state"
  assumes "agree n0 s1 s2" "cu = CNull \<or> cu = CForeign"
    "Flow_orch_loop n cu p la s1 = Some (r, s1')"
  shows "\<exists>s2'. Flow_orch_loop n cu p la s2 = Some (r, s2') \<and> agree n0 s1' s2'"
  using assms by auto

lemma sim_orch_Suc:
  assumes loop: "sim_loop n0 n TYPE('w)"
  shows "sim_orch n0 (Suc n) TYPE('w)"
  unfolding sim_orch_def
proof (intro allI impI)
  fix t1 t2 ps r and s1 s2 s1' :: "'w state"
  assume ag: "agree n0 s1 s2" and cl: "closed n0 s1" and pa: "paired n0 s1 s2 t1 t2"
     and run: "Flow_orch (Suc n) t1 ps s1 = Some (r, s1')"
  note pr = paired_D[OF pa]
  define p where "p = (case ps of Some q \<Rightarrow> q | None \<Rightarrow> spread (params (this_fields s1 t1)) [])"
  have p2: "p = (case ps of Some q \<Rightarrow> q | None \<Rightarrow> spread (params (this_fields s2 t2)) [])"
    unfolding p_def pr(6) by (rule refl)
  show "\<exists>s2'. Flow_orch (Suc n) t2 ps s2 = Some (r, s2') \<and> agree n0 s1' s2'"
  proof (cases "startNode (this_fields s1 t1)")
    case None
    then have n2: "startNode (this_fields s2 t2) = None" unfolding pr(6) .
    have l1: "Flow_orch_loop n CNull p (Some ''default'') s1 = Some (r, s1')"
      using run None by (simp add: p_def del: Flow_orch_loop.simps)
    have "Flow_orch (Suc n) t2 ps s2 = Flow_orch_loop n CNull p (Some ''default'') s2"
      using n2 by (simp add: p2 del: Flow_orch_loop.simps)
    then show ?thesis using sim_loop_end[OF ag _ l1] by simp
  next
    case (Some s)
    then have n2: "startNode (this_fields s2 t2) = Some s" unfolding pr(6) .
    have "startNode (flds (heap s1 t1)) = Some s" using Some by (simp add: this_fields_def)
    then have sn: "s < n0" using pr(5) unfolding refs_below_def by blast
    note cr = clone_rel[OF ag cl sn]
    have l1: "Flow_orch_loop n (CNode (nxt s1)) p (Some ''default'') (snd (clone s s1)) = Some (r, s1')"
      using run Some by (simp add: p_def clone_def del: Flow_orch_loop.simps)
    have c2: "Flow_orch (Suc n) t2 ps s2 =
              Flow_orch_loop n (CNode (nxt s2)) p (Some ''default'') (snd (clone s s2))"
      using n2 by (simp add: p2 clone_def del: Flow_orch_loop.simps)
    have "cur_rel n0 (snd (clone s s1)) (snd (clone s s2)) (CNode (nxt s1)) (CNode (nxt s2))"
      using cr(3) by (simp only: cur_rel_simps)
    from sim_loopD[OF loop cr(1) cr(2) this l1] show ?thesis unfolding c2 .
  qed
qed

lemma sim_batch_Nil:
  fixes s1 s2 :: "'w state"
  assumes "agree n0 s1 s2" "BatchFlow_loop n t1 [] s1 = Some (r, s1')"
  shows "\<exists>s2'. BatchFlow_loop n t2 [] s2 = Some (r, s2') \<and> agree n0 s1' s2'"
  using assms by auto

lemma sim_batch_Suc:
  assumes orch: "sim_orch n0 n TYPE('w)" and batch: "sim_batch n0 n TYPE('w)"
  shows "sim_batch n0 (Suc n) TYPE('w)"
  unfolding sim_batch_def
proof (intro allI impI)
  fix t1 t2 bps r and s1 s2 s1' :: "'w state"
  assume ag: "agree n0 s1 s2" and cl: "closed n0 s1" and pa: "paired n0 s1 s2 t1 t2"
     and run: "BatchFlow_loop (Suc n) t1 bps s1 = Some (r, s1')"
  note pr = paired_D[OF pa]
  show "\<exists>s2'. BatchFlow_loop (Suc n) t2 bps s2 = Some (r, s2') \<and> agree n0 s1' s2'"
  proof (cases bps)
    case Nil
    show ?thesis using sim_batch_Nil[OF ag run[unfolded Nil]] unfolding Nil .
  next
    case (Cons bp rest)
    let ?ps = "Some (spread (params (this_fields s1 t1)) (own_entries bp))"
    have ps2: "Some (spread (params (this_fields s2 t2)) (own_entries bp)) = ?ps"
      unfolding pr(6) by (rule refl)
    from run obtain ro so1 where o1: "Flow_orch n t1 ?ps s1 = Some (ro, so1)"
      unfolding Cons by (auto simp del: Flow_orch.simps split: option.splits)
    from sim_orchD[OF orch ag cl pa o1] obtain so2 where
      o2: "Flow_orch n t2 ?ps s2 = Some (ro, so2)" and ago: "agree n0 so1 so2" by blast
    show ?thesis
    proof (cases ro)
      case (Inl e)
      have c1: "BatchFlow_loop (Suc n) t1 bps s1 = Some (Inl e, so1)"
        unfolding Cons using o1 Inl by (simp del: Flow_orch.simps)
      have c2: "BatchFlow_loop (Suc n) t2 bps s2 = Some (Inl e, so2)"
        unfolding Cons using o2 Inl by (simp add: ps2 del: Flow_orch.simps)
      from run c1 have "r = Inl e" "s1' = so1" by simp_all
      then show ?thesis using c2 ago by blast
    next
      case (Inr a)
      have c1: "BatchFlow_loop (Suc n) t1 bps s1 = BatchFlow_loop n t1 rest so1"
        unfolding Cons using o1 Inr
        by (subst BatchFlow_loop.simps(3)) (simp del: Flow_orch.simps BatchFlow_loop.simps)
      have c2: "BatchFlow_loop (Suc n) t2 bps s2 = BatchFlow_loop n t2 rest so2"
        unfolding Cons using o2 Inr
        by (subst BatchFlow_loop.simps(3)) (simp add: ps2 del: Flow_orch.simps BatchFlow_loop.simps)
      have clo: "closed n0 so1" by (rule closed_orch[OF cl o1])
      have pao: "paired n0 so1 so2 t1 t2"
        by (rule paired_pres[OF pa orch_frame_same(1)[OF o1 pr(2)] orch_frame_same(1)[OF o2 pr(3)]
              orch_frame_same(2)[OF o1 pr(2)] orch_frame_same(2)[OF o2 pr(3)]])
      from run have "BatchFlow_loop n t1 rest so1 = Some (r, s1')" unfolding c1 .
      from sim_batchD[OF batch ago clo pao this] show ?thesis unfolding c2 .
    qed
  qed
qed

lemma Flow_orch_loop_step:
  assumes "call_run n c (setParams c p s) = Some (Inr a, sa)" "getNextNode c a sa = (nx, sb)"
  shows "Flow_orch_loop (Suc n) (CNode c) p la s =
         (case nx of CNode b \<Rightarrow> Flow_orch_loop n (CNode (nxt sb)) p a (snd (clone b sb))
                   | _ \<Rightarrow> Flow_orch_loop n nx p a sb)"
  using assms
  by (subst Flow_orch_loop.simps(4))
     (simp add: clone_def del: Flow_orch_loop.simps call_run.simps split: cur.splits)

lemma sim_loop_Suc:
  assumes run: "sim_run n0 n TYPE('w)" and loop: "sim_loop n0 n TYPE('w)"
  shows "sim_loop n0 (Suc n) TYPE('w)"
  unfolding sim_loop_def
proof (intro allI impI)
  fix cu1 cu2 p la r and s1 s2 s1' :: "'w state"
  assume ag: "agree n0 s1 s2" and cl: "closed n0 s1" and cr: "cur_rel n0 s1 s2 cu1 cu2"
     and lp: "Flow_orch_loop (Suc n) cu1 p la s1 = Some (r, s1')"
  let ?goal = "\<exists>s2'. Flow_orch_loop (Suc n) cu2 p la s2 = Some (r, s2') \<and> agree n0 s1' s2'"
  from cr show ?goal
  proof (cases rule: cur_rel_cases)
    case null
    show ?thesis using sim_loop_end[OF ag _ lp[unfolded null(1)]] unfolding null by blast
  next
    case foreign
    show ?thesis using sim_loop_end[OF ag _ lp[unfolded foreign(1)]] unfolding foreign by blast
  next
    case (node c1 c2)
    note sp = setParams_rel[OF ag cl node(3), of p]
    note prs = paired_D[OF sp(3)]
    from lp obtain ra sa1 where r1: "call_run n c1 (setParams c1 p s1) = Some (ra, sa1)"
      unfolding node(1)
      by (subst (asm) Flow_orch_loop.simps(4))
         (auto simp del: Flow_orch_loop.simps call_run.simps split: option.splits)
    from sim_runD[OF run sp(1) sp(2) sp(3) r1] obtain sa2 where
      r2: "call_run n c2 (setParams c2 p s2) = Some (ra, sa2)" and aga: "agree n0 sa1 sa2"
      and ha: "heap sa1 c1 = heap sa2 c2" by blast
    have cla: "closed n0 sa1" by (rule closed_run[OF sp(2) r1 prs(2)])
    show ?thesis
    proof (cases ra)
      case (Inl e)
      have c1: "Flow_orch_loop (Suc n) cu1 p la s1 = Some (Inl e, sa1)"
        unfolding node(1) using r1 Inl
        by (subst Flow_orch_loop.simps(4)) (simp del: Flow_orch_loop.simps call_run.simps)
      have c2: "Flow_orch_loop (Suc n) cu2 p la s2 = Some (Inl e, sa2)"
        unfolding node(2) using r2 Inl
        by (subst Flow_orch_loop.simps(4)) (simp del: Flow_orch_loop.simps call_run.simps)
      from lp c1 have "r = Inl e" "s1' = sa1" by simp_all
      then show ?thesis using c2 aga by blast
    next
      case (Inr a)
      obtain nx1 sb1 where g1: "getNextNode c1 a sa1 = (nx1, sb1)" by (cases "getNextNode c1 a sa1")
      obtain nx2 sb2 where g2: "getNextNode c2 a sa2 = (nx2, sb2)" by (cases "getNextNode c2 a sa2")
      have nx: "nx2 = nx1" using getNextNode_rel[OF ha, of a] g1 g2 by simp
      note e1 = getNextNode_state[OF g1] and e2 = getNextNode_state[OF g2]
      have agb: "agree n0 sb1 sb2" using aga e1 e2 by (simp add: agree_def)
      have clb: "closed n0 sb1" using cla e1 by (simp add: closed_def)
      have l1: "Flow_orch_loop (Suc n) cu1 p la s1 =
         (case nx1 of CNode b \<Rightarrow> Flow_orch_loop n (CNode (nxt sb1)) p a (snd (clone b sb1))
                   | _ \<Rightarrow> Flow_orch_loop n nx1 p a sb1)"
        unfolding node(1) by (rule Flow_orch_loop_step[OF r1[unfolded Inr] g1])
      have l2: "Flow_orch_loop (Suc n) cu2 p la s2 =
         (case nx1 of CNode b \<Rightarrow> Flow_orch_loop n (CNode (nxt sb2)) p a (snd (clone b sb2))
                   | _ \<Rightarrow> Flow_orch_loop n nx1 p a sb2)"
        unfolding node(2) by (rule Flow_orch_loop_step[OF r2[unfolded Inr] g2[unfolded nx]])
      show ?thesis
      proof (cases nx1)
        case CNull
        from lp have "Flow_orch_loop n CNull p a sb1 = Some (r, s1')" unfolding l1 CNull by simp
        from sim_loop_end[OF agb _ this] show ?thesis unfolding l2 CNull by simp
      next
        case CForeign
        from lp have "Flow_orch_loop n CForeign p a sb1 = Some (r, s1')" unfolding l1 CForeign by simp
        from sim_loop_end[OF agb _ this] show ?thesis unfolding l2 CForeign by simp
      next
        case (CNode b)
        have "b \<in> snd ` set (successors (this_fields sa1 c1))"
          by (rule getNextNode_succ[OF g1[unfolded CNode]])
        moreover from run_heap_this(1)[OF r1 prs(2)] obtain c where
          "heap sa1 c1 = with_curRetry c (heap (setParams c1 p s1) c1)" by blast
        then have "refs_below n0 (heap sa1 c1)" using prs(5) by simp
        ultimately have bn: "b < n0" unfolding refs_below_def this_fields_def by blast
        note cb = clone_rel[OF agb clb bn]
        have crb: "cur_rel n0 (snd (clone b sb1)) (snd (clone b sb2)) (CNode (nxt sb1)) (CNode (nxt sb2))"
          using cb(3) by (simp only: cur_rel_simps)
        from lp have "Flow_orch_loop n (CNode (nxt sb1)) p a (snd (clone b sb1)) = Some (r, s1')"
          unfolding l1 CNode by (simp only: cur.case)
        from sim_loopD[OF loop cb(1) cb(2) crb this] show ?thesis
          unfolding l2 CNode by (simp only: cur.case)
      qed
    qed
  qed
qed

lemma sim_all:
  "sim_run n0 n TYPE('w) \<and> sim_orch n0 n TYPE('w) \<and> sim_loop n0 n TYPE('w) \<and> sim_batch n0 n TYPE('w)"
proof (induction n)
  case 0
  have "sim_run n0 0 TYPE('w)" by (simp add: sim_run_def)
  moreover have "sim_orch n0 0 TYPE('w)" by (simp add: sim_orch_def)
  moreover have "sim_loop n0 0 TYPE('w)"
    unfolding sim_loop_def
  proof (intro allI impI)
    fix cu1 cu2 p la r and s1 s2 s1' :: "'w state"
    assume ag: "agree n0 s1 s2" and cr: "cur_rel n0 s1 s2 cu1 cu2"
       and lp: "Flow_orch_loop 0 cu1 p la s1 = Some (r, s1')"
    from cr show "\<exists>s2'. Flow_orch_loop 0 cu2 p la s2 = Some (r, s2') \<and> agree n0 s1' s2'"
    proof (cases rule: cur_rel_cases)
      case null
      show ?thesis using sim_loop_end[OF ag _ lp[unfolded null(1)]] unfolding null by blast
    next
      case foreign
      show ?thesis using sim_loop_end[OF ag _ lp[unfolded foreign(1)]] unfolding foreign by blast
    next
      case (node c1 c2)
      then show ?thesis using lp by simp
    qed
  qed
  moreover have "sim_batch n0 0 TYPE('w)"
    unfolding sim_batch_def
  proof (intro allI impI)
    fix t1 t2 bps r and s1 s2 s1' :: "'w state"
    assume ag: "agree n0 s1 s2" and lp: "BatchFlow_loop 0 t1 bps s1 = Some (r, s1')"
    show "\<exists>s2'. BatchFlow_loop 0 t2 bps s2 = Some (r, s2') \<and> agree n0 s1' s2'"
    proof (cases bps)
      case Nil
      show ?thesis using sim_batch_Nil[OF ag lp[unfolded Nil]] unfolding Nil .
    next
      case (Cons bp rest)
      then show ?thesis using lp by simp
    qed
  qed
  ultimately show ?case by blast
next
  case (Suc n)
  then have r: "sim_run n0 n TYPE('w)" and o: "sim_orch n0 n TYPE('w)"
    and l: "sim_loop n0 n TYPE('w)" and b: "sim_batch n0 n TYPE('w)" by blast+
  show ?case
    using sim_run_Suc[OF o b] sim_orch_Suc[OF l] sim_loop_Suc[OF r l] sim_batch_Suc[OF o b]
    by blast
qed

lemma outcome_simps [simp]: "outcome None = None" "outcome (Some (r, s)) = Some (r, world s)"
  by (simp_all add: outcome_def)

lemma rerun_le:
  fixes st :: "'w state"
  assumes ag: "agree n0 s1 s2" and cl: "closed n0 s1" and f: "flow < n0"
      and r: "run n flow s1 = Some (r, s1')"
  shows "\<exists>s2'. run n flow s2 = Some (r, s2') \<and> world s2' = world s1'"
proof -
  have ag': "agree n0 (warn_successors flow s1) (warn_successors flow s2)"
    using ag by (simp add: agree_def)
  have cl': "closed n0 (warn_successors flow s1)" using cl by (simp add: closed_def)
  have pa: "paired n0 (warn_successors flow s1) (warn_successors flow s2) flow flow"
    using ag cl f unfolding paired_def agree_def closed_def by simp
  from r have "call_run n flow (warn_successors flow s1) = Some (r, s1')" by (simp only: run_def)
  from sim_runD[OF sim_all[THEN conjunct1] ag' cl' pa this] obtain s2' where
    "call_run n flow (warn_successors flow s2) = Some (r, s2')" "agree n0 s1' s2'" by blast
  then show ?thesis by (auto simp: run_def agree_def simp del: call_run.simps)
qed

lemma rerun_same:
  fixes s1 s2 :: "'w state"
  assumes ag: "agree n0 s1 s2" and cl: "closed n0 s1" "closed n0 s2" and f: "flow < n0"
  shows "outcome (run n flow s2) = outcome (run n flow s1)"
proof (cases "run n flow s1")
  case None
  show ?thesis
  proof (cases "run n flow s2")
    case n2: None
    show ?thesis by (simp only: None n2)
  next
    case (Some x)
    obtain r s2' where x: "x = (r, s2')" by (cases x)
    have "agree n0 s2 s1" using ag by (simp add: agree_def)
    from rerun_le[OF this cl(2) f Some[unfolded x]] None show ?thesis by simp
  qed
next
  case (Some x)
  obtain r s1' where x: "x = (r, s1')" by (cases x)
  from rerun_le[OF ag cl(1) f Some[unfolded x]] obtain s2' where
    "run n flow s2 = Some (r, s2')" "world s2' = world s1'" by blast
  then show ?thesis unfolding Some x by simp
qed

lemma run_kept:
  assumes "is_Flow (kind (heap st flow))" "flow < nxt st" "run n flow st = Some (r, st')"
  shows "nxt st \<le> nxt st'" "\<forall>a<nxt st. heap st' a = heap st a"
proof -
  let ?s = "warn_successors flow st"
  from assms(3) have "call_run n flow ?s = Some (r, st')" by (simp only: run_def)
  with frame_all[of n] have rf: "run_frame flow ?s st'" by blast
  then have fr: "frame {flow} ?s st'" and h: "heap st' flow = heap ?s flow"
    using assms(1,2) by (simp_all add: run_frame_def)
  show "nxt st \<le> nxt st'" using fr by (simp add: frame_def)
  show "\<forall>a<nxt st. heap st' a = heap st a"
  proof (intro allI impI)
    fix a assume "a < nxt st"
    then show "heap st' a = heap st a" using fr h by (cases "a = flow") (simp_all add: frame_def)
  qed
qed

lemma copy_step:
  fixes st s :: "'w state"
  assumes cl: "closed (nxt st) st"
      and c: "nxt st \<le> c" "c < nxt s" and b0: "b0 < nxt st" "heap s c = heap st b0"
      and same: "\<forall>a<nxt st. heap s a = heap st a"
      and run: "call_run k c (setParams c p s) = Some (Inr l, s1)"
      and nx: "getNextNode c l s1 = (CNode b, s2)"
  shows "b < nxt st" "nxt st \<le> nxt s2"
    "Flow_orch_loop (Suc k) (CNode c) p la s =
       Flow_orch_loop k (CNode (nxt s2)) p l (snd (clone b s2))"
    "heap (snd (clone b s2)) (nxt s2) = heap st b"
    "\<forall>a<nxt st. heap (snd (clone b s2)) a = heap st a"
proof -
  let ?sp = "setParams c p s"
  from run frame_all[of k] have rf: "run_frame c ?sp s1" by blast
  then have fr: "frame {c} ?sp s1" and "\<exists>x. heap s1 c = with_curRetry x (heap ?sp c)"
    using c(2) by (simp_all add: run_frame_def)
  then obtain x where x: "heap s1 c = with_curRetry x (heap ?sp c)" by blast
  have "successors (flds (heap s1 c)) = successors (flds (heap st b0))"
    unfolding x using b0(2) by (simp add: with_curRetry_def heap_setParams_same)
  moreover have "b \<in> snd ` set (successors (this_fields s1 c))" by (rule getNextNode_succ[OF nx])
  moreover have "refs_below (nxt st) (heap st b0)" using cl b0(1) by (simp add: closed_def)
  ultimately show b: "b < nxt st" unfolding refs_below_def this_fields_def by auto
  note e = getNextNode_state[OF nx]
  have n1: "nxt s \<le> nxt s1" using fr by (simp add: frame_def)
  show n2: "nxt st \<le> nxt s2" using c n1 e by simp
  have k: "\<And>a. a < nxt st \<Longrightarrow> heap s2 a = heap st a"
  proof -
    fix a assume a: "a < nxt st"
    then have "a < nxt ?sp" "a \<notin> {c}" using c by simp_all
    then have "heap s1 a = heap ?sp a" using fr unfolding frame_def by blast
    also have "\<dots> = heap s a" using a c(1) by (simp add: setParams_def)
    finally show "heap s2 a = heap st a" using e same a by simp
  qed
  show "Flow_orch_loop (Suc k) (CNode c) p la s =
       Flow_orch_loop k (CNode (nxt s2)) p l (snd (clone b s2))"
    using Flow_orch_loop_step[OF run nx, of la] by simp
  show "heap (snd (clone b s2)) (nxt s2) = heap st b" using k[OF b] by (simp add: clone_def)
  show "\<forall>a<nxt st. heap (snd (clone b s2)) a = heap st a" using k n2 by (simp add: clone_def)
qed

lemma loop_example_simps:
  "heap loop_example =
     (\<lambda>a. \<lparr>kind = BaseNode, meths = node_methods, flds = new_fields\<rparr>)
       (0 := \<lparr>kind = Node, meths = observing_methods,
              flds = new_fields\<lparr>successors := [(''again'', 0)], maxRetries := 2\<rparr>\<rparr>,
        1 := \<lparr>kind = Flow, meths = flow_methods,
              flds = new_fields\<lparr>params := [(''k'', VNum 1)], startNode := Some 0\<rparr>\<rparr>)"
  "nxt loop_example = 2"
  "world loop_example = []"
  by (auto simp add: loop_example_def new_Node_def new_Flow_def alloc_def init_state_def
        BaseNode_next_def get_successor_def new_fields_def this_fields_def Let_def fun_eq_iff
        setParams_def object_prototype_keys_def)

section \<open>The frame of the suspendable engine\<close>

lemma kept_refl [simp]: "kept n0 st st"
  by (simp add: kept_def)

lemma kept_trans: "kept n0 st st' \<Longrightarrow> kept n0 st' st'' \<Longrightarrow> kept n0 st st''"
  by (auto simp: kept_def)

lemma kept_nxt: "kept n0 st st' \<Longrightarrow> n0 \<le> nxt st \<Longrightarrow> n0 \<le> nxt st'"
  by (auto simp: kept_def)

lemma kept_set_world [simp]: "kept n0 st (set_world w st)"
  by (simp add: kept_def)

lemma kept_warn [simp]: "kept n0 st (warn m st)"
  by (simp add: kept_def)

lemma keeps_procI:
  assumes "\<And>st. n0 \<le> nxt st \<Longrightarrow> kept n0 st (snd (p st))"
      and "\<And>st. n0 \<le> nxt st \<Longrightarrow> keeps n0 (fst (p st))"
  shows "keeps_proc n0 p"
  using assms by (simp add: keeps_proc_def)

lemma keeps_procD:
  assumes "keeps_proc n0 p" "n0 \<le> nxt st"
  shows "kept n0 st (snd (p st))" "keeps n0 (fst (p st))" "n0 \<le> nxt (snd (p st))"
  using assms by (auto simp: keeps_proc_def kept_def)

lemma keeps_susp: "keeps_proc n0 p \<Longrightarrow> keeps n0 (susp p)"
  by (simp add: susp_def keeps_proc_def)

lemma keeps_await_then:
  assumes "keeps n0 t" "\<And>r. keeps_proc n0 (c r)"
  shows "keeps n0 (await_then t c)"
  using assms(1)
proof (induction t)
  case (Done r)
  show ?case using assms(2)[of r] by (simp add: keeps_susp)
next
  case Stuck
  show ?case by simp
next
  case (Await u k)
  show ?case
  proof (simp, intro allI impI conjI)
    fix st :: "'b state" assume n: "n0 \<le> nxt st"
    from Await.prems n show "kept n0 st (u st)" by simp
    from Await.prems n have "keeps n0 (k st)" by simp
    then show "keeps n0 (await_then (k st) c)" by (rule Await.IH[OF rangeI])
  qed
qed

lemma keeps_proc_await:
  fixes p :: "('a, 'w) proc"
  assumes "keeps_proc n0 p" "\<And>r. keeps_proc n0 (c r)"
  shows "keeps_proc n0 (await p c)"
proof (rule keeps_procI)
  fix st :: "'w state" assume n: "n0 \<le> nxt st"
  note d = keeps_procD[OF assms(1) n]
  obtain t st' where p: "p st = (t, st')" by (cases "p st")
  show "kept n0 st (snd (await p c st))" using d(1) by (simp add: await_def p)
  have "keeps n0 t" using d(2) by (simp add: p)
  then have "keeps n0 (await_then t c)" by (rule keeps_await_then) (rule assms(2))
  then show "keeps n0 (fst (await p c st))" by (simp add: await_def p)
qed

lemma keeps_proc_settled [simp]: "keeps_proc n0 (settled r)"
  by (simp add: keeps_proc_def settled_def)

lemma keeps_proc_async_call [simp]: "keeps_proc n0 (async_call f)"
  by (simp add: keeps_proc_def async_call_def split: prod.splits)

lemma keeps_proc_promise: "keeps n0 t \<Longrightarrow> keeps_proc n0 (promise t)"
  by (simp add: keeps_proc_def promise_def)

lemma keeps_proc_or_throw: "(\<And>v. keeps_proc n0 (c v)) \<Longrightarrow> keeps_proc n0 (or_throw c r)"
  by (cases r) (simp_all add: or_throw_def)

lemma keeps_proc_at:
  assumes "\<And>st. keeps_proc n0 (f st)"
  shows "keeps_proc n0 (\<lambda>st. f st st)"
  using assms by (simp add: keeps_proc_def)

lemma keeps_proc_if:
  assumes "keeps_proc n0 p" "keeps_proc n0 q"
  shows "keeps_proc n0 (\<lambda>st. if b st then p st else q st)"
  using assms by (simp add: keeps_proc_def)

lemma keeps_proc_exec_loop: "keeps_proc n0 (AsyncNode_exec_loop n this p i :: (jsval, 'w) proc)"
proof (induction n arbitrary: i)
  case 0
  show ?case by (simp add: keeps_proc_def)
next
  case (Suc n)
  have inner: "keeps_proc n0 (\<lambda>st'. if i = maxRetries (this_fields st' this) - 1 then
                             await (async_call (execFallbackAsync (this_meths st' this)
                                                  (this_fields st' this) p e))
                               settled st'
                           else if wait (this_fields st' this) > 0 then
                             await (settled (Inr ()))
                               (\<lambda>u st''. AsyncNode_exec_loop n this p (i + 1) st'') st'
                           else AsyncNode_exec_loop n this p (i + 1) st' :: (jsval, 'w) task \<times> 'w state)" for e
  proof (rule keeps_procI)
    fix st :: "'w state" assume n: "n0 \<le> nxt st"
    have a: "keeps_proc n0 (await (async_call (execFallbackAsync (this_meths st this)
                                                  (this_fields st this) p e)) settled :: (jsval, 'w) proc)"
      by (rule keeps_proc_await) simp_all
    have b: "keeps_proc n0 (await (settled (Inr ()))
                               (\<lambda>u st''. AsyncNode_exec_loop n this p (i + 1) st'') :: (jsval, 'w) proc)"
      by (rule keeps_proc_await) (simp_all add: Suc.IH)
    note c = Suc.IH[of "i + 1"]
    show "kept n0 st (snd (if i = maxRetries (this_fields st this) - 1 then
                             await (async_call (execFallbackAsync (this_meths st this)
                                                  (this_fields st this) p e))
                               settled st
                           else if wait (this_fields st this) > 0 then
                             await (settled (Inr ()))
                               (\<lambda>u st''. AsyncNode_exec_loop n this p (i + 1) st'') st
                           else AsyncNode_exec_loop n this p (i + 1) st))"
      using keeps_procD(1)[OF a n] keeps_procD(1)[OF b n] keeps_procD(1)[OF c n] by simp
    show "keeps n0 (fst (if i = maxRetries (this_fields st this) - 1 then
                             await (async_call (execFallbackAsync (this_meths st this)
                                                  (this_fields st this) p e))
                               settled st
                           else if wait (this_fields st this) > 0 then
                             await (settled (Inr ()))
                               (\<lambda>u st''. AsyncNode_exec_loop n this p (i + 1) st'') st
                           else AsyncNode_exec_loop n this p (i + 1) st))"
      using keeps_procD(2)[OF a n] keeps_procD(2)[OF b n] keeps_procD(2)[OF c n] by simp
  qed
  show ?case
  proof (rule keeps_procI)
    fix st :: "'w state" assume n: "n0 \<le> nxt st"
    have "keeps_proc n0 (await (async_call (execAsync (this_meths st this) (this_fields st this) p))
          (\<lambda>r. case r of
                  Inr v \<Rightarrow> settled (Inr v)
                | Inl e \<Rightarrow>
                    (\<lambda>st'. if i = maxRetries (this_fields st' this) - 1 then
                             await (async_call (execFallbackAsync (this_meths st' this)
                                                  (this_fields st' this) p e))
                               settled st'
                           else if wait (this_fields st' this) > 0 then
                             await (settled (Inr ()))
                               (\<lambda>u st''. AsyncNode_exec_loop n this p (i + 1) st'') st'
                           else AsyncNode_exec_loop n this p (i + 1) st')) :: (jsval, 'w) proc)"
    proof (rule keeps_proc_await)
      fix r :: "jsval + jsval"
      show "keeps_proc n0 (case r of
                  Inr v \<Rightarrow> settled (Inr v)
                | Inl e \<Rightarrow>
                    (\<lambda>st'. if i = maxRetries (this_fields st' this) - 1 then
                             await (async_call (execFallbackAsync (this_meths st' this)
                                                  (this_fields st' this) p e))
                               settled st'
                           else if wait (this_fields st' this) > 0 then
                             await (settled (Inr ()))
                               (\<lambda>u st''. AsyncNode_exec_loop n this p (i + 1) st'') st'
                           else AsyncNode_exec_loop n this p (i + 1) st' :: (jsval, 'w) task \<times> 'w state))"
        by (cases r) (simp_all add: inner)
    qed simp
    from keeps_procD(1,2)[OF this n]
    show "kept n0 st (snd (AsyncNode_exec_loop (Suc n) this p i st))"
      "keeps n0 (fst (AsyncNode_exec_loop (Suc n) this p i st))"
      by (simp_all add: settled_def)
  qed
qed

lemma keeps_proc_exec: "keeps_proc n0 (AsyncNode_exec n this p)"
  unfolding AsyncNode_exec_def by (rule keeps_proc_exec_loop)

lemma keeps_proc_batch_loop: "keeps_proc n0 (AsyncBatchNode_loop n this xs acc :: (jsval, 'w) proc)"
proof (induction xs arbitrary: acc)
  case Nil
  show ?case by (simp add: keeps_proc_def settled_def)
next
  case (Cons x xs)
  have "keeps_proc n0 (await (AsyncNode_exec n this x)
       (or_throw (\<lambda>r st'. AsyncBatchNode_loop n this xs (acc @ [r]) st')) :: (jsval, 'w) proc)"
    by (intro keeps_proc_await keeps_proc_exec keeps_proc_or_throw) (simp add: Cons.IH)
  then show ?case by (simp add: keeps_proc_def)
qed

lemma keeps_proc_batch_exec: "keeps_proc n0 (AsyncBatchNode_exec n this items)"
  unfolding AsyncBatchNode_exec_def
  by (cases "iterate items") (simp_all add: keeps_proc_batch_loop)

lemma keeps_launch:
  assumes "\<And>p. p \<in> set ps \<Longrightarrow> keeps_proc n0 p" "n0 \<le> nxt st"
  shows "kept n0 st (snd (launch ps st)) \<and> (\<forall>t\<in>set (fst (launch ps st)). keeps n0 t)"
  using assms
proof (induction ps arbitrary: st)
  case Nil
  show ?case by simp
next
  case (Cons p ps)
  obtain t st1 where p: "p st = (t, st1)" by (cases "p st")
  obtain ts st2 where l: "launch ps st1 = (ts, st2)" by (cases "launch ps st1")
  have kp: "keeps_proc n0 p" using Cons.prems(1) by simp
  note d = keeps_procD[OF kp Cons.prems(2), unfolded p, simplified]
  from Cons.IH[of st1] Cons.prems(1) d(3) l
  have "kept n0 st1 st2" "\<forall>t\<in>set ts. keeps n0 t" by simp_all
  then show ?case using d(1,2) by (auto simp: p l intro: kept_trans)
qed

lemma kept_scheduled [simp]: "kept n0 st (scheduled st)"
  by (simp add: kept_def scheduled_def)

lemma nxt_scheduled [simp]: "nxt (scheduled st) = nxt st"
  by (simp add: scheduled_def)

lemma keeps_resume:
  assumes "keeps n0 t" "n0 \<le> nxt st"
  shows "kept n0 st (resume_state t st)" "keeps n0 (resume_task t st)"
  using assms by (cases t; simp)+

lemma chosen_in: "ps \<noteq> [] \<Longrightarrow> chosen ps st \<in> set ps"
  by (cases "schedule st") (simp_all add: chosen_def)

lemma pending_lt: "i \<in> set (pending ts) \<Longrightarrow> i < length ts"
  by (simp add: pending_def)

lemma keeps_Promise_all:
  assumes "\<forall>t\<in>set ts. keeps n0 t"
  shows "keeps n0 (Promise_all n ts)"
  using assms
proof (induction n arbitrary: ts)
  case 0
  show ?case by (simp split: option.splits)
next
  case (Suc n)
  have step: "kept n0 st (resume_state (ts ! chosen (pending ts) st) (scheduled st)) \<and>
              keeps n0 (Promise_all n (ts[chosen (pending ts) st :=
                                  resume_task (ts ! chosen (pending ts) st) (scheduled st)]))"
    if pe: "pending ts \<noteq> []" and n: "n0 \<le> nxt st" for st :: "'b state"
  proof -
    let ?i = "chosen (pending ts) st"
    have i: "?i < length ts" using chosen_in[OF pe] pending_lt by blast
    then have k: "keeps n0 (ts ! ?i)" using Suc.prems by simp
    have n': "n0 \<le> nxt (scheduled st)" using n by simp
    note r = keeps_resume[OF k n']
    have "kept n0 st (resume_state (ts ! ?i) (scheduled st))"
      using kept_trans[OF kept_scheduled r(1)] .
    moreover have "\<forall>t\<in>set (ts[?i := resume_task (ts ! ?i) (scheduled st)]). keeps n0 t"
      using Suc.prems r(2) by (auto dest!: set_update_subset_insert[THEN subsetD])
    ultimately show ?thesis using Suc.IH by blast
  qed
  show ?case using step by (simp split: option.splits del: Promise_all.simps add: Promise_all.simps[of "Suc n"])
qed

lemma keeps_proc_launch_all:
  fixes ps :: "('a, 'w) proc list"
  assumes "\<And>p. p \<in> set ps \<Longrightarrow> keeps_proc n0 p" "\<And>rs. keeps_proc n0 (c rs)"
  shows "keeps_proc n0 ((\<lambda>st. case launch ps st of
           (ts, st') \<Rightarrow> await (promise (Promise_all n ts)) c st') :: ('b, 'w) proc)"
proof (rule keeps_procI)
  fix st :: "'w state" assume n: "n0 \<le> nxt st"
  obtain ts st1 where l: "launch ps st = (ts, st1)" by (cases "launch ps st")
  have "kept n0 st (snd (launch ps st)) \<and> (\<forall>t\<in>set (fst (launch ps st)). keeps n0 t)"
    by (rule keeps_launch) (use assms(1) n in blast)+
  then have k: "kept n0 st st1" "\<forall>t\<in>set ts. keeps n0 t"
    by (simp_all add: l)
  have n1: "n0 \<le> nxt st1" by (rule kept_nxt[OF k(1) n])
  have "keeps_proc n0 (await (promise (Promise_all n ts)) c)"
    by (intro keeps_proc_await keeps_proc_promise keeps_Promise_all k(2) assms(2))
  note d = keeps_procD(1,2)[OF this n1]
  show "kept n0 st (snd (case launch ps st of (ts, st') \<Rightarrow> await (promise (Promise_all n ts)) c st'))"
    using kept_trans[OF k(1) d(1)] by (simp add: l)
  show "keeps n0 (fst (case launch ps st of (ts, st') \<Rightarrow> await (promise (Promise_all n ts)) c st'))"
    using d(2) by (simp add: l)
qed

lemma keeps_proc_parallel_exec:
  "keeps_proc n0 (AsyncParallelBatchNode_exec n this items :: (jsval, 'w) proc)"
proof (cases "\<exists>xs. items = VArr xs")
  case True
  then obtain xs where x: "items = VArr xs" by blast
  have "keeps_proc n0 ((\<lambda>st. case launch (map (AsyncNode_exec n this) xs) st of
           (ts, st') \<Rightarrow> await (promise (Promise_all n ts))
              (or_throw (\<lambda>rs. settled (Inr (VArr rs)))) st') :: (jsval, 'w) proc)"
    by (rule keeps_proc_launch_all) (auto simp: keeps_proc_exec intro: keeps_proc_or_throw)
  then show ?thesis by (simp add: keeps_proc_def AsyncParallelBatchNode_exec_def x)
next
  case False
  then show ?thesis
    by (cases items) (simp_all add: keeps_proc_def AsyncParallelBatchNode_exec_def settled_def)
qed

lemma keeps_proc_exec_of: "keeps_proc n0 (AsyncNode_exec_of n this p :: (jsval, 'w) proc)"
proof (rule keeps_procI)
  fix st :: "'w state" assume n: "n0 \<le> nxt st"
  note a = keeps_procD(1,2)[OF keeps_proc_exec n, of n this p]
  note b = keeps_procD(1,2)[OF keeps_proc_batch_exec n, of n this p]
  note c = keeps_procD(1,2)[OF keeps_proc_parallel_exec n, of n this p]
  show "kept n0 st (snd (AsyncNode_exec_of n this p st))"
    using a(1) b(1) c(1) by (simp add: AsyncNode_exec_of_def)
  show "keeps n0 (fst (AsyncNode_exec_of n this p st))"
    using a(2) b(2) c(2) by (simp add: AsyncNode_exec_of_def)
qed

lemma keeps_proc_post:
  "keeps_proc n0 (\<lambda>st'. await (async_call (postAsync (this_meths st' this) (this_fields st' this) p e))
                 settled st' :: (action, 'w) task \<times> 'w state)"
  by (rule keeps_proc_at) (intro keeps_proc_await keeps_proc_async_call keeps_proc_settled)

lemma keeps_proc_lifecycle:
  fixes ex :: "jsval \<Rightarrow> ('a, 'w) proc"
  assumes "\<And>p. keeps_proc n0 (ex p)"
  shows "keeps_proc n0 (\<lambda>st. await (async_call (prepAsync (this_meths st this) (this_fields st this)))
       (or_throw (\<lambda>p.
          await (ex p)
            (or_throw (\<lambda>e st'.
               await (async_call (postAsync (this_meths st' this) (this_fields st' this) (f p) (g e)))
                 settled st'))))
       st :: (action, 'w) task \<times> 'w state)"
  by (rule keeps_proc_at)
     (intro keeps_proc_await keeps_proc_async_call keeps_proc_or_throw assms keeps_proc_post)

lemma keeps_proc_runAsync_node: "keeps_proc n0 (AsyncNode_runAsync n this :: (action, 'w) proc)"
proof -
  have "AsyncNode_runAsync n this = (\<lambda>st :: 'w state. await (async_call (prepAsync (this_meths st this) (this_fields st this)))
       (or_throw (\<lambda>p.
          await (AsyncNode_exec_of n this p)
            (or_throw (\<lambda>e st'.
               await (async_call (postAsync (this_meths st' this) (this_fields st' this) p e))
                 settled st'))))
       st)"
    by (rule ext) (simp add: AsyncNode_runAsync_def)
  then show ?thesis
    using keeps_proc_lifecycle[of n0 "AsyncNode_exec_of n this" this "\<lambda>p. p" "\<lambda>e. e"]
    by (simp add: keeps_proc_exec_of)
qed

lemma kept_setParams: "n0 \<le> c \<Longrightarrow> kept n0 st (setParams c p st)"
  by (simp add: kept_def setParams_def)

lemma kept_call_run:
  assumes "call_run n c st = Some (r, st')" "n0 \<le> c" "n0 \<le> nxt st"
  shows "kept n0 st st'"
proof -
  from assms(1) frame_all[of n] have "run_frame c st st'" by blast
  then have "frame {c} st st'" by (simp add: run_frame_def)
  then show ?thesis using assms(2,3) unfolding frame_def kept_def by auto
qed

lemma kept_getNextNode: "kept n0 st (snd (getNextNode c a st))"
  using getNextNode_state[of c a st "fst (getNextNode c a st)" "snd (getNextNode c a st)"]
  by (simp add: kept_def)

lemma kept_clone: "n0 \<le> nxt st \<Longrightarrow> kept n0 st (snd (clone b st))"
  by (simp add: kept_def clone_def)

lemma keeps_proc_loop:
  "(\<forall>cu p la. (\<forall>c. cu = CNode c \<longrightarrow> n0 \<le> c) \<longrightarrow>
       keeps_proc n0 (AsyncFlow_loop n cu p la :: (action, 'w) proc)) \<and>
   (\<forall>c p a. n0 \<le> c \<longrightarrow> keeps_proc n0 (AsyncFlow_next n c p a :: (action, 'w) proc))"
proof (induction n)
  case 0
  have l: "keeps_proc n0 (AsyncFlow_loop 0 cu p la :: (action, 'w) proc)" for cu p la
    by (cases cu) (simp_all add: keeps_proc_def settled_def)
  have "keeps_proc n0 (AsyncFlow_next 0 c p a :: (action, 'w) proc)" if c: "n0 \<le> c" for c p a
  proof (rule keeps_procI)
    fix st :: "'w state" assume n: "n0 \<le> nxt st"
    obtain nx st1 where g: "getNextNode c a st = (nx, st1)" by (cases "getNextNode c a st")
    have k1: "kept n0 st st1" using kept_getNextNode[of n0 st c a] g by simp
    have n1: "n0 \<le> nxt st1" by (rule kept_nxt[OF k1 n])
    show "kept n0 st (snd (AsyncFlow_next 0 c p a st))"
      using k1 n1 by (cases nx) (auto simp: g settled_def clone_def kept_def)
    show "keeps n0 (fst (AsyncFlow_next 0 c p a st))"
      by (cases nx) (auto simp: g settled_def clone_def)
  qed
  with l show ?case by blast
next
  case (Suc n)
  then have IHl: "\<And>cu p la. (\<forall>c. cu = CNode c \<longrightarrow> n0 \<le> c) \<Longrightarrow>
       keeps_proc n0 (AsyncFlow_loop n cu p la :: (action, 'w) proc)"
    and IHn: "\<And>c p a. n0 \<le> c \<Longrightarrow> keeps_proc n0 (AsyncFlow_next n c p a :: (action, 'w) proc)"
    by blast+
  have nextS: "keeps_proc n0 (AsyncFlow_next n' c p a :: (action, 'w) proc)"
    if c: "n0 \<le> c" and L: "\<And>cu p la. (\<forall>c. cu = CNode c \<longrightarrow> n0 \<le> c) \<Longrightarrow>
       keeps_proc n0 (AsyncFlow_loop n' cu p la :: (action, 'w) proc)" for c p a n'
  proof (rule keeps_procI)
    fix st :: "'w state" assume n: "n0 \<le> nxt st"
    obtain nx st1 where g: "getNextNode c a st = (nx, st1)" by (cases "getNextNode c a st")
    have k1: "kept n0 st st1" using kept_getNextNode[of n0 st c a] g by simp
    have n1: "n0 \<le> nxt st1" by (rule kept_nxt[OF k1 n])
    have "kept n0 st (snd (AsyncFlow_next n' c p a st)) \<and> keeps n0 (fst (AsyncFlow_next n' c p a st))"
    proof (cases nx)
      case (CNode b)
      have k2: "kept n0 st1 (snd (clone b st1))" by (rule kept_clone[OF n1])
      have n2: "n0 \<le> nxt (snd (clone b st1))" by (rule kept_nxt[OF k2 n1])
      have "keeps_proc n0 (AsyncFlow_loop n' (CNode (nxt st1)) p a :: (action, 'w) proc)"
        by (rule L) (use n1 in simp)
      note d = keeps_procD(1,2)[OF this n2]
      have e: "AsyncFlow_next n' c p a st = AsyncFlow_loop n' (CNode (nxt st1)) p a (snd (clone b st1))"
        by (simp add: g CNode clone_def del: AsyncFlow_loop.simps)
      show ?thesis unfolding e using d kept_trans[OF k1 kept_trans[OF k2 d(1)]] by blast
    next
      case CNull
      then show ?thesis using k1 by (simp add: g settled_def)
    next
      case CForeign
      then show ?thesis using k1 by (simp add: g settled_def)
    qed
    then show "kept n0 st (snd (AsyncFlow_next n' c p a st))"
      "keeps n0 (fst (AsyncFlow_next n' c p a st))" by blast+
  qed
  have loopS: "keeps_proc n0 (AsyncFlow_loop (Suc n) cu p la :: (action, 'w) proc)"
    if cu: "\<forall>c. cu = CNode c \<longrightarrow> n0 \<le> c" for cu p la
  proof (cases cu)
    case CNull
    then show ?thesis by (simp add: keeps_proc_def settled_def)
  next
    case CForeign
    then show ?thesis by (simp add: keeps_proc_def settled_def)
  next
    case (CNode c)
    then have c: "n0 \<le> c" using cu by simp
    show ?thesis
    proof (rule keeps_procI)
      fix st :: "'w state" assume n: "n0 \<le> nxt st"
      let ?s = "setParams c p st"
      have k0: "kept n0 st ?s" by (rule kept_setParams[OF c])
      have n0': "n0 \<le> nxt ?s" by (rule kept_nxt[OF k0 n])
      have "kept n0 st (snd (AsyncFlow_loop (Suc n) cu p la st)) \<and>
            keeps n0 (fst (AsyncFlow_loop (Suc n) cu p la st))"
      proof (cases "is_AsyncNode (kind (heap st c))")
        case True
        have "keeps_proc n0 (await (AsyncNode_runAsync n c)
                 (or_throw (\<lambda>a st'. AsyncFlow_next n c p a st')) :: (action, 'w) proc)"
          by (intro keeps_proc_await keeps_proc_runAsync_node keeps_proc_or_throw)
             (simp add: IHn[OF c] del: AsyncFlow_next.simps)
        note d = keeps_procD(1,2)[OF this n0']
        have e: "AsyncFlow_loop (Suc n) cu p la st =
                 await (AsyncNode_runAsync n c) (or_throw (\<lambda>a st'. AsyncFlow_next n c p a st')) ?s"
          using True by (simp add: CNode del: AsyncFlow_next.simps)
        show ?thesis unfolding e using d kept_trans[OF k0 d(1)] by blast
      next
        case False
        show ?thesis
        proof (cases "call_run n c ?s")
          case None
          then show ?thesis using False k0 by (simp add: CNode del: AsyncFlow_next.simps call_run.simps)
        next
          case (Some x)
          obtain r st' where x: "x = (r, st')" by (cases x)
          have k1: "kept n0 ?s st'" by (rule kept_call_run[OF Some[unfolded x] c n0'])
          have n1: "n0 \<le> nxt st'" by (rule kept_nxt[OF k1 n0'])
          show ?thesis
          proof (cases r)
            case (Inl e)
            then show ?thesis using False Some x kept_trans[OF k0 k1]
              by (simp add: CNode settled_def del: AsyncFlow_next.simps call_run.simps)
          next
            case (Inr a)
            note d = keeps_procD(1,2)[OF IHn[OF c, of p a] n1]
            have e: "AsyncFlow_loop (Suc n) cu p la st = AsyncFlow_next n c p a st'"
              using False Some x Inr by (simp add: CNode del: AsyncFlow_next.simps call_run.simps)
            show ?thesis unfolding e using d kept_trans[OF k0 kept_trans[OF k1 d(1)]] by blast
          qed
        qed
      qed
      then show "kept n0 st (snd (AsyncFlow_loop (Suc n) cu p la st))"
        "keeps n0 (fst (AsyncFlow_loop (Suc n) cu p la st))" by blast+
    qed
  qed
  have "keeps_proc n0 (AsyncFlow_next (Suc n) c p a :: (action, 'w) proc)" if c: "n0 \<le> c" for c p a
    by (rule nextS[OF c]) (rule loopS)
  with loopS show ?case by blast
qed

lemma keeps_proc_orchAsync: "keeps_proc n0 (AsyncFlow_orchAsync n this ps :: (action, 'w) proc)"
proof (rule keeps_procI)
  fix st :: "'w state" assume n: "n0 \<le> nxt st"
  let ?p = "case ps of Some q \<Rightarrow> q | None \<Rightarrow> spread (params (this_fields st this)) []"
  have "kept n0 st (snd (AsyncFlow_orchAsync n this ps st)) \<and>
        keeps n0 (fst (AsyncFlow_orchAsync n this ps st))"
  proof (cases "startNode (this_fields st this)")
    case None
    then show ?thesis by (simp add: AsyncFlow_orchAsync_def settled_def)
  next
    case (Some s)
    have k: "kept n0 st (snd (clone s st))" by (rule kept_clone[OF n])
    have n1: "n0 \<le> nxt (snd (clone s st))" by (rule kept_nxt[OF k n])
    have "keeps_proc n0 (AsyncFlow_loop n (CNode (nxt st)) ?p (Some ''default'') :: (action, 'w) proc)"
      by (rule keeps_proc_loop[THEN conjunct1, rule_format]) (use n in simp)
    note d = keeps_procD(1,2)[OF this n1]
    have e: "AsyncFlow_orchAsync n this ps st =
             AsyncFlow_loop n (CNode (nxt st)) ?p (Some ''default'') (snd (clone s st))"
      by (simp add: AsyncFlow_orchAsync_def Some clone_def Let_def del: AsyncFlow_loop.simps)
    show ?thesis unfolding e using d kept_trans[OF k d(1)] by blast
  qed
  then show "kept n0 st (snd (AsyncFlow_orchAsync n this ps st))"
    "keeps n0 (fst (AsyncFlow_orchAsync n this ps st))" by blast+
qed

lemma keeps_proc_runAsync_flow: "keeps_proc n0 (AsyncFlow_runAsync n this :: (action, 'w) proc)"
proof -
  have "AsyncFlow_runAsync n this = (\<lambda>st :: 'w state. await (async_call (prepAsync (this_meths st this) (this_fields st this)))
       (or_throw (\<lambda>p.
          await (AsyncFlow_orchAsync n this None)
            (or_throw (\<lambda>e st'.
               await (async_call (postAsync (this_meths st' this) (this_fields st' this) p (action_val e)))
                 settled st'))))
       st)"
    by (rule ext) (simp add: AsyncFlow_runAsync_def)
  then show ?thesis
    using keeps_proc_lifecycle[of n0 "\<lambda>p. AsyncFlow_orchAsync n this None" this "\<lambda>p. p" action_val]
    by (simp add: keeps_proc_orchAsync)
qed

lemma keeps_proc_batch_flow_loop:
  "keeps_proc n0 (AsyncBatchFlow_loop n this pr bps :: (action, 'w) proc)"
proof (induction bps)
  case Nil
  have "AsyncBatchFlow_loop n this pr [] = (\<lambda>st :: 'w state.
     await (async_call (postAsync (this_meths st this) (this_fields st this) pr VNull)) settled st)"
    by (rule ext) simp
  then show ?case using keeps_proc_post[of n0 this pr VNull] by simp
next
  case (Cons bp bps)
  have "keeps_proc n0 (\<lambda>st :: 'w state. await (AsyncFlow_orchAsync n this
              (Some (spread (params (this_fields st this)) (own_entries bp))))
       (or_throw (\<lambda>a st'. AsyncBatchFlow_loop n this pr bps st')) st)"
    by (rule keeps_proc_at)
       (intro keeps_proc_await keeps_proc_orchAsync keeps_proc_or_throw, simp add: Cons.IH)
  moreover have "AsyncBatchFlow_loop n this pr (bp # bps) = (\<lambda>st :: 'w state. await (AsyncFlow_orchAsync n this
              (Some (spread (params (this_fields st this)) (own_entries bp))))
       (or_throw (\<lambda>a st'. AsyncBatchFlow_loop n this pr bps st')) st)"
    by (rule ext) simp
  ultimately show ?case by simp
qed

lemma keeps_proc_runAsync_batch_flow:
  "keeps_proc n0 (AsyncBatchFlow_runAsync n this :: (action, 'w) proc)"
proof -
  have c: "keeps_proc n0 ((case iterate (or_empty v) of
            Inl e \<Rightarrow> settled (Inl e)
          | Inr bps \<Rightarrow> AsyncBatchFlow_loop n this (or_empty v) bps) :: (action, 'w) proc)" for v
    by (cases "iterate (or_empty v)") (simp_all add: keeps_proc_batch_flow_loop)
  have "keeps_proc n0 (\<lambda>st :: 'w state. await (async_call (prepAsync (this_meths st this) (this_fields st this)))
       (or_throw (\<lambda>v.
          case iterate (or_empty v) of
            Inl e \<Rightarrow> settled (Inl e)
          | Inr bps \<Rightarrow> AsyncBatchFlow_loop n this (or_empty v) bps))
       st)"
    by (rule keeps_proc_at) (intro keeps_proc_await keeps_proc_async_call keeps_proc_or_throw c)
  moreover have "AsyncBatchFlow_runAsync n this = (\<lambda>st :: 'w state. await (async_call (prepAsync (this_meths st this) (this_fields st this)))
       (or_throw (\<lambda>v.
          case iterate (or_empty v) of
            Inl e \<Rightarrow> settled (Inl e)
          | Inr bps \<Rightarrow> AsyncBatchFlow_loop n this (or_empty v) bps))
       st)"
    by (rule ext) (simp add: AsyncBatchFlow_runAsync_def)
  ultimately show ?thesis by simp
qed

lemma keeps_proc_runAsync_parallel_flow:
  "keeps_proc n0 (AsyncParallelBatchFlow_runAsync n this :: (action, 'w) proc)"
proof -
  let ?launch = "\<lambda>v bps. ((\<lambda>st1.
                 case launch (map (\<lambda>bp st'. AsyncFlow_orchAsync n this
                                    (Some (spread (params (this_fields st' this)) (own_entries bp))) st')
                              bps) st1 of
                   (ts, st2) \<Rightarrow>
                     await (promise (Promise_all n ts))
                       (or_throw (\<lambda>rs st3.
                          await (async_call (postAsync (this_meths st3 this) (this_fields st3 this)
                                               v VNull))
                            settled st3))
                       st2) :: (action, 'w) proc)"
  have l: "keeps_proc n0 (?launch v bps)" for v bps
  proof (rule keeps_proc_launch_all)
    fix p :: "(action, 'w) proc"
    assume "p \<in> set (map (\<lambda>bp st'. AsyncFlow_orchAsync n this
                (Some (spread (params (this_fields st' this)) (own_entries bp))) st') bps)"
    then obtain bp where p: "p = (\<lambda>st'. AsyncFlow_orchAsync n this
                (Some (spread (params (this_fields st' this)) (own_entries bp))) st')" by auto
    show "keeps_proc n0 p" unfolding p by (rule keeps_proc_at) (rule keeps_proc_orchAsync)
  next
    fix rs :: "jsval + action list"
    show "keeps_proc n0 (or_throw (\<lambda>rs st3.
                          await (async_call (postAsync (this_meths st3 this) (this_fields st3 this)
                                               v VNull))
                            settled st3) rs :: (action, 'w) proc)"
      by (intro keeps_proc_or_throw keeps_proc_post)
  qed
  have c: "keeps_proc n0 (case or_empty v of VArr bps \<Rightarrow> ?launch (or_empty v) bps
          | _ \<Rightarrow> settled (Inl (VTypeError ''pr.map is not a function'')))" for v
    by (cases "or_empty v") (simp_all add: l del: Promise_all.simps)
  have "keeps_proc n0 (\<lambda>st :: 'w state. await (async_call (prepAsync (this_meths st this) (this_fields st this)))
       (or_throw (\<lambda>v. case or_empty v of VArr bps \<Rightarrow> ?launch (or_empty v) bps
          | _ \<Rightarrow> settled (Inl (VTypeError ''pr.map is not a function''))))
       st)"
    by (rule keeps_proc_at) (intro keeps_proc_await keeps_proc_async_call keeps_proc_or_throw c)
  moreover have "AsyncParallelBatchFlow_runAsync n this = (\<lambda>st :: 'w state. await (async_call (prepAsync (this_meths st this) (this_fields st this)))
       (or_throw (\<lambda>v. case or_empty v of VArr bps \<Rightarrow> ?launch (or_empty v) bps
          | _ \<Rightarrow> settled (Inl (VTypeError ''pr.map is not a function''))))
       st)"
    by (rule ext) (simp add: AsyncParallelBatchFlow_runAsync_def del: Promise_all.simps)
  ultimately show ?thesis by simp
qed

lemma kept_warn_successors_async [simp]: "kept n0 st (warn_successors_async m this st)"
  by (simp add: warn_successors_async_def)

lemma keeps_proc_runAsync: "keeps_proc n0 (runAsync n this :: (action, 'w) proc)"
proof (rule keeps_procI)
  fix st :: "'w state" assume n: "n0 \<le> nxt st"
  have w: "n0 \<le> nxt (warn_successors_async m this st)" for m
    using n by (simp add: warn_successors_async_def)
  have a: "keeps_proc n0 (await (AsyncNode_runAsync n this) settled :: (action, 'w) proc)"
    by (intro keeps_proc_await keeps_proc_runAsync_node keeps_proc_settled)
  have b: "keeps_proc n0 (await (AsyncFlow_runAsync n this) settled :: (action, 'w) proc)"
    by (intro keeps_proc_await keeps_proc_runAsync_flow keeps_proc_settled)
  have c: "keeps_proc n0 (await (AsyncBatchFlow_runAsync n this) settled :: (action, 'w) proc)"
    by (intro keeps_proc_await keeps_proc_runAsync_batch_flow keeps_proc_settled)
  have d: "keeps_proc n0 (await (AsyncParallelBatchFlow_runAsync n this) settled :: (action, 'w) proc)"
    by (intro keeps_proc_await keeps_proc_runAsync_parallel_flow keeps_proc_settled)
  have k: "kept n0 st (snd (p (warn_successors_async m this st))) \<and>
           keeps n0 (fst (p (warn_successors_async m this st)))"
    if "keeps_proc n0 p" for p :: "(action, 'w) proc" and m
    using keeps_procD(1,2)[OF that w[of m]] kept_trans[OF kept_warn_successors_async] by blast
  show "kept n0 st (snd (runAsync n this st))"
    using k[OF a] k[OF b] k[OF c] k[OF d] by (simp add: runAsync_def settled_def)
  show "keeps n0 (fst (runAsync n this st))"
    using k[OF a] k[OF b] k[OF c] k[OF d] by (simp add: runAsync_def settled_def)
qed

lemma kept_drive:
  assumes "drive n t st = Some (r, st', m)" "keeps n0 t" "n0 \<le> nxt st"
  shows "kept n0 st st'"
  using assms
proof (induction n t st rule: drive.induct)
  case (4 n u k st)
  from "4.prems"(2,3) have k: "kept n0 st (u st)" "keeps n0 (k st)" by simp_all
  have "kept n0 (u st) st'"
    by (rule "4.IH") (use "4.prems"(1) k kept_nxt[OF k(1) "4.prems"(3)] in simp_all)
  with k(1) show ?case by (rule kept_trans)
qed simp_all

lemma kept_complete:
  assumes "complete n p st = Some (r, st')" "keeps_proc n0 p" "n0 \<le> nxt st"
  shows "kept n0 st st'"
proof -
  obtain t st1 where p: "p st = (t, st1)" by (cases "p st")
  note d = keeps_procD[OF assms(2,3), unfolded p, simplified]
  from assms(1) obtain m where "drive n t st1 = Some (r, st', m)"
    by (auto simp: complete_def p)
  from kept_drive[OF this d(2,3)] d(1) show ?thesis by (blast intro: kept_trans)
qed

lemma runAsync_kept:
  assumes "complete n (runAsync m this) st = Some (r, st')"
  shows "\<forall>a<nxt st. heap st' a = heap st a"
  using kept_complete[OF assms keeps_proc_runAsync, of "nxt st"] by (simp add: kept_def)

lemma AsyncFlow_orchAsync_start:
  "startNode (this_fields st flow) = Some a \<Longrightarrow>
   AsyncFlow_orchAsync n flow None st =
     AsyncFlow_loop n (CNode (nxt st)) (spread (params (this_fields st flow)) [])
       (Some ''default'') (snd (clone a st))"
  by (simp add: AsyncFlow_orchAsync_def clone_def del: AsyncFlow_loop.simps)

lemma AsyncFlow_next_copy:
  "getNextNode c l s1 = (CNode b, s2) \<Longrightarrow>
   AsyncFlow_next n c p l s1 = AsyncFlow_loop n (CNode (nxt s2)) p l (snd (clone b s2))"
  by (simp add: clone_def del: AsyncFlow_loop.simps)

lemma copy_next:
  fixes st s1 :: "'w state"
  assumes cl: "closed (nxt st) st"
      and b0: "b0 < nxt st" "successors (this_fields s1 c) = successors (this_fields st b0)"
      and same: "nxt st \<le> nxt s1" "\<forall>a<nxt st. heap s1 a = heap st a"
      and nx: "getNextNode c l s1 = (CNode b, s2)"
  shows "b < nxt st" "nxt st \<le> nxt s2"
    "AsyncFlow_next k c p l s1 = AsyncFlow_loop k (CNode (nxt s2)) p l (snd (clone b s2))"
    "heap (snd (clone b s2)) (nxt s2) = heap st b"
    "\<forall>a<nxt st. heap (snd (clone b s2)) a = heap st a"
proof -
  have "b \<in> snd ` set (successors (this_fields s1 c))" by (rule getNextNode_succ[OF nx])
  then have "b \<in> snd ` set (successors (flds (heap st b0)))"
    unfolding b0(2) by (simp add: this_fields_def)
  moreover have "refs_below (nxt st) (heap st b0)" using cl b0(1) by (simp add: closed_def)
  ultimately show b: "b < nxt st" unfolding refs_below_def by blast
  note e = getNextNode_state[OF nx]
  show n2: "nxt st \<le> nxt s2" using same(1) e by simp
  show "AsyncFlow_next k c p l s1 = AsyncFlow_loop k (CNode (nxt s2)) p l (snd (clone b s2))"
    by (rule AsyncFlow_next_copy[OF nx])
  show "heap (snd (clone b s2)) (nxt s2) = heap st b" using same(2) b e by (simp add: clone_def)
  show "\<forall>a<nxt st. heap (snd (clone b s2)) a = heap st a"
    using same(2) n2 e by (simp add: clone_def)
qed

lemma async_loop_example_closed: "closed (nxt async_loop_example) async_loop_example"
  by (auto simp add: async_loop_example_def new_Node_def new_Flow_def alloc_def init_state_def
        BaseNode_next_def get_successor_def new_fields_def this_fields_def Let_def
        setParams_def object_prototype_keys_def closed_def refs_below_def less_Suc_eq)

lemma parallel_flow_example_closed: "closed (nxt parallel_flow_example) parallel_flow_example"
  by (auto simp add: parallel_flow_example_def new_Node_def new_Flow_def alloc_def init_state_def
        new_fields_def Let_def closed_def refs_below_def less_Suc_eq)

text \<open>
  Claim C7. A flow \<open>flow\<close> that the caller has built, in a state \<open>st\<close> whose objects refer
  to one another only.
  (1) When \<^verbatim>\<open>run\<close> on the flow returns or throws, every object that existed before is
  the same after it: its parameters, its retry counter and its successor table are
  what they were. A second run, from the state the first has left and from any world
  \<open>w\<close>, returns what a run from \<open>st\<close> returns from \<open>w\<close>, and leaves the same world.
  (2) When the promise of \<^verbatim>\<open>runAsync\<close> on the flow is settled, whatever the class of the
  flow and in whatever order the runtime has resumed the traversals of an
  \<^verbatim>\<open>AsyncParallelBatchFlow\<close> and the items of an \<^verbatim>\<open>AsyncParallelBatchNode\<close>, every
  object that existed before is the same after it.
  (3) \<^verbatim>\<open>_orch\<close> and \<^verbatim>\<open>_orchAsync\<close> start on a new object that is a copy of the start node.
  (4) In a blocking traversal whose current object \<open>c\<close> is a new object and a copy of a
  node \<open>b0\<close> of the caller, in a state that still holds the caller's objects as they
  were: when the lifecycle of \<open>c\<close> returns a label that selects the successor \<open>b\<close>, then
  \<open>b\<close> is a node of the caller, and the traversal continues on a new object equal to \<open>b\<close>
  as the caller built it, whatever an earlier visit has left in its own copy, again
  in a state that holds the caller's objects as they were.
  (5) In a suspendable traversal the loop binds the parameters to the current object
  \<open>c\<close> and, when \<open>c\<close> is a suspendable node, awaits its lifecycle. (6) When the traversal
  goes on, in a state \<open>s1\<close> that holds the caller's objects as they were and in which
  \<open>c\<close> has the successor table of a node \<open>b0\<close> of the caller, with a label that selects
  the successor \<open>b\<close>: \<open>b\<close> is a node of the caller and the traversal continues on a new
  object equal to \<open>b\<close> as the caller built it.
\<close>

theorem flow_run_isolates_nodes:
  fixes st s s1 :: "'w state"
  assumes "flow < nxt st" "closed (nxt st) st"
  shows "(is_Flow (kind (heap st flow)) \<and> run n flow st = Some (r, st') \<longrightarrow>
            (\<forall>a<nxt st. heap st' a = heap st a) \<and>
            outcome (run m flow (set_world w st')) = outcome (run m flow (set_world w st))) \<and>
         (complete m (runAsync n flow) st = Some (ra, sta) \<longrightarrow>
            (\<forall>a<nxt st. heap sta a = heap st a)) \<and>
         (startNode (this_fields st f) = Some a \<longrightarrow>
            Flow_orch (Suc k) f None st =
              Flow_orch_loop k (CNode (nxt st)) (spread (params (this_fields st f)) [])
                (Some ''default'') (snd (clone a st)) \<and>
            AsyncFlow_orchAsync k f None st =
              AsyncFlow_loop k (CNode (nxt st)) (spread (params (this_fields st f)) [])
                (Some ''default'') (snd (clone a st)) \<and>
            heap (snd (clone a st)) (nxt st) = heap st a) \<and>
         (nxt st \<le> c \<and> c < nxt s \<and> b0 < nxt st \<and> heap s c = heap st b0 \<and>
          (\<forall>a<nxt st. heap s a = heap st a) \<and>
          call_run k c (setParams c p s) = Some (Inr l, s1) \<and>
          getNextNode c l s1 = (CNode b, s2) \<longrightarrow>
            b < nxt st \<and> nxt st \<le> nxt s2 \<and>
            Flow_orch_loop (Suc k) (CNode c) p la s =
              Flow_orch_loop k (CNode (nxt s2)) p l (snd (clone b s2)) \<and>
            heap (snd (clone b s2)) (nxt s2) = heap st b \<and>
            (\<forall>a<nxt st. heap (snd (clone b s2)) a = heap st a)) \<and>
         (is_AsyncNode (kind (heap s c)) \<longrightarrow>
            AsyncFlow_loop (Suc k) (CNode c) p la s =
              await (AsyncNode_runAsync k c) (or_throw (AsyncFlow_next k c p)) (setParams c p s)) \<and>
         (b0 < nxt st \<and> successors (this_fields s1 c) = successors (this_fields st b0) \<and>
          nxt st \<le> nxt s1 \<and> (\<forall>a<nxt st. heap s1 a = heap st a) \<and>
          getNextNode c l s1 = (CNode b, s2) \<longrightarrow>
            b < nxt st \<and> nxt st \<le> nxt s2 \<and>
            AsyncFlow_next k c p l s1 =
              AsyncFlow_loop k (CNode (nxt s2)) p l (snd (clone b s2)) \<and>
            heap (snd (clone b s2)) (nxt s2) = heap st b \<and>
            (\<forall>a<nxt st. heap (snd (clone b s2)) a = heap st a))"
proof (intro conjI impI)
  assume h: "is_Flow (kind (heap st flow)) \<and> run n flow st = Some (r, st')"
  note kept = run_kept[OF h[THEN conjunct1] assms(1) h[THEN conjunct2]]
  show "\<forall>a<nxt st. heap st' a = heap st a" by (rule kept(2))
  have ag: "agree (nxt st) (set_world w st) (set_world w st')"
    using kept by (simp add: agree_def)
  have c1: "closed (nxt st) (set_world w st)" using assms(2) by simp
  have "closed (nxt st) st'" using assms(2) kept by (simp add: closed_def)
  then have c2: "closed (nxt st) (set_world w st')" by simp
  show "outcome (run m flow (set_world w st')) = outcome (run m flow (set_world w st))"
    by (rule rerun_same[OF ag c1 c2 assms(1)])
next
  assume "complete m (runAsync n flow) st = Some (ra, sta)"
  then show "\<forall>a<nxt st. heap sta a = heap st a" by (rule runAsync_kept)
next
  assume s: "startNode (this_fields st f) = Some a"
  show "Flow_orch (Suc k) f None st =
              Flow_orch_loop k (CNode (nxt st)) (spread (params (this_fields st f)) [])
                (Some ''default'') (snd (clone a st))"
    using s by (rule Flow_orch_start)
  show "AsyncFlow_orchAsync k f None st =
              AsyncFlow_loop k (CNode (nxt st)) (spread (params (this_fields st f)) [])
                (Some ''default'') (snd (clone a st))"
    using s by (rule AsyncFlow_orchAsync_start)
next
  show "heap (snd (clone a st)) (nxt st) = heap st a" by (simp add: clone_def)
next
  assume h: "nxt st \<le> c \<and> c < nxt s \<and> b0 < nxt st \<and> heap s c = heap st b0 \<and>
          (\<forall>a<nxt st. heap s a = heap st a) \<and>
          call_run k c (setParams c p s) = Some (Inr l, s1) \<and>
          getNextNode c l s1 = (CNode b, s2)"
  then have h': "nxt st \<le> c" "c < nxt s" "b0 < nxt st" "heap s c = heap st b0"
          "\<forall>a<nxt st. heap s a = heap st a"
          "call_run k c (setParams c p s) = Some (Inr l, s1)"
          "getNextNode c l s1 = (CNode b, s2)" by blast+
  note cs = copy_step[OF assms(2) h']
  show "b < nxt st" by (rule cs(1))
  show "nxt st \<le> nxt s2" by (rule cs(2))
  show "Flow_orch_loop (Suc k) (CNode c) p la s =
              Flow_orch_loop k (CNode (nxt s2)) p l (snd (clone b s2))" by (rule cs(3))
  show "heap (snd (clone b s2)) (nxt s2) = heap st b" by (rule cs(4))
  show "\<forall>a<nxt st. heap (snd (clone b s2)) a = heap st a" by (rule cs(5))
next
  assume "is_AsyncNode (kind (heap s c))"
  then show "AsyncFlow_loop (Suc k) (CNode c) p la s =
              await (AsyncNode_runAsync k c) (or_throw (AsyncFlow_next k c p)) (setParams c p s)"
    by (simp del: AsyncFlow_next.simps)
next
  assume h: "b0 < nxt st \<and> successors (this_fields s1 c) = successors (this_fields st b0) \<and>
          nxt st \<le> nxt s1 \<and> (\<forall>a<nxt st. heap s1 a = heap st a) \<and>
          getNextNode c l s1 = (CNode b, s2)"
  then have h': "b0 < nxt st" "successors (this_fields s1 c) = successors (this_fields st b0)"
          "nxt st \<le> nxt s1" "\<forall>a<nxt st. heap s1 a = heap st a"
          "getNextNode c l s1 = (CNode b, s2)" by blast+
  note cn = copy_next[OF assms(2) h']
  show "b < nxt st" by (rule cn(1))
  show "nxt st \<le> nxt s2" by (rule cn(2))
  show "AsyncFlow_next k c p l s1 =
              AsyncFlow_loop k (CNode (nxt s2)) p l (snd (clone b s2))" by (rule cn(3))
  show "heap (snd (clone b s2)) (nxt s2) = heap st b" by (rule cn(4))
  show "\<forall>a<nxt st. heap (snd (clone b s2)) a = heap st a" by (rule cn(5))
qed

theorem flow_run_isolates_nodes_witness:
  "outcome (run 5 1 loop_example)
     = Some (Inr (Some ''done''), [([(''k'', VNum 1)], 0), ([(''k'', VNum 1)], 0)]) \<and>
   this_fields (snd (the (run 5 1 loop_example))) 0 = this_fields loop_example 0 \<and>
   this_fields (snd (the (run 5 1 loop_example))) 1 = this_fields loop_example 1 \<and>
   outcome (run 5 1 (set_world [] (snd (the (run 5 1 loop_example)))))
     = outcome (run 5 1 loop_example) \<and>
   this_fields (snd (the (call_run 2 2 (setParams 2 [(''k'', VNum 1)] (snd (clone 0 loop_example)))))) 2
     = (this_fields loop_example 0)\<lparr>params := [(''k'', VNum 1)], curRetry := 1\<rparr> \<and>
   this_fields (snd (clone 0 (snd (the (call_run 2 2 (setParams 2 [(''k'', VNum 1)] (snd (clone 0 loop_example)))))))) 3
     = this_fields loop_example 0 \<and>
   outcome (complete 30 (runAsync 4 1) async_loop_example)
     = Some (Inr (Some ''done''), [([(''k'', VNum 1)], 0), ([(''k'', VNum 1)], 0)]) \<and>
   this_fields (snd (the (complete 30 (runAsync 4 1) async_loop_example))) 0
     = this_fields async_loop_example 0 \<and>
   this_fields (snd (the (complete 30 (runAsync 4 1) async_loop_example))) 1
     = this_fields async_loop_example 1 \<and>
   this_fields (snd (the (complete 10 (AsyncNode_runAsync 3 2)
       (setParams 2 [(''k'', VNum 1)] (snd (clone 0 async_loop_example)))))) 2
     = (this_fields async_loop_example 0)\<lparr>params := [(''k'', VNum 1)]\<rparr> \<and>
   this_fields (snd (clone 0 (snd (the (complete 10 (AsyncNode_runAsync 3 2)
       (setParams 2 [(''k'', VNum 1)] (snd (clone 0 async_loop_example)))))))) 3
     = this_fields async_loop_example 0 \<and>
   outcome (complete 30 (runAsync 12 1) parallel_flow_example)
     = Some (Inr None, [([(''k'', VNum 1)], 0), ([(''k'', VNum 2)], 0)]) \<and>
   this_fields (snd (the (complete 30 (runAsync 12 1) parallel_flow_example))) 0
     = this_fields parallel_flow_example 0 \<and>
   this_fields (snd (the (complete 30 (runAsync 12 1) parallel_flow_example))) 1
     = this_fields parallel_flow_example 1"
proof -
  have sync: "outcome (run 5 1 loop_example)
     = Some (Inr (Some ''done''), [([(''k'', VNum 1)], 0), ([(''k'', VNum 1)], 0)]) \<and>
   this_fields (snd (the (run 5 1 loop_example))) 0 = this_fields loop_example 0 \<and>
   this_fields (snd (the (run 5 1 loop_example))) 1 = this_fields loop_example 1 \<and>
   outcome (run 5 1 (set_world [] (snd (the (run 5 1 loop_example)))))
     = outcome (run 5 1 loop_example) \<and>
   this_fields (snd (the (call_run 2 2 (setParams 2 [(''k'', VNum 1)] (snd (clone 0 loop_example)))))) 2
     = (this_fields loop_example 0)\<lparr>params := [(''k'', VNum 1)], curRetry := 1\<rparr> \<and>
   this_fields (snd (clone 0 (snd (the (call_run 2 2 (setParams 2 [(''k'', VNum 1)] (snd (clone 0 loop_example)))))))) 3
     = this_fields loop_example 0"
  proof -
  let ?g = "loop_example"
  let ?p = "[(''k'', VNum 1)]"
  note s = loop_example_simps
  let ?sC = "snd (clone 0 ?g)"
  define s1 where "s1 = snd (the (call_run 2 2 (setParams 2 ?p ?sC)))"
  define s2 where "s2 = snd (the (call_run 1 3 (setParams 3 ?p (snd (clone 0 s1)))))"
  have w: "set_world [] ?g = ?g" using s(3) by (simp add: set_world_def)
  have ws: "warn_successors 1 ?g = ?g"
    by (simp add: warn_successors_def s this_fields_def new_fields_def)
  have flow: "is_Flow (kind (heap ?g 1))" "1 < nxt ?g" by (simp_all add: s is_Flow_def)
  have flow': "kind (heap ?g 1) = Flow" "post (this_meths ?g 1) = default_flow_post"
    "startNode (this_fields ?g 1) = Some 0"
    "prep (this_meths ?g 1) (this_fields ?g 1) (world ?g) = (Inr VUndefined, [])"
    "spread (params (this_fields ?g 1)) [] = ?p"
    by (simp_all add: s this_meths_def this_fields_def flow_methods_def node_methods_def
          default_prep_def new_fields_def spread_def)
  have cl: "closed (nxt ?g) ?g"
    by (simp add: s closed_def refs_below_def new_fields_def less_Suc_eq numeral_2_eq_2)
  have "map_option fst (call_run 2 2 (setParams 2 ?p ?sC)) = Some (Inr (Some ''again''))"
    by code_simp
  then have r1: "call_run 2 2 (setParams 2 ?p ?sC) = Some (Inr (Some ''again''), s1)"
    unfolding s1_def by (rule returns_with)
  have m1: "map_of (successors (this_fields s1 2)) (action_key (Some ''again'')) = Some 0"
    unfolding s1_def by code_simp
  have n1: "nxt s1 = 3" unfolding s1_def by code_simp
  have f1: "this_fields s1 2 = (this_fields ?g 0)\<lparr>params := ?p, curRetry := 1\<rparr>"
    unfolding s1_def by code_simp
  have g: "getNextNode 2 (Some ''again'') s1 = (CNode 0, s1)"
    using m1 by (simp add: getNextNode_def get_successor_def Let_def)
  have "map_option fst (call_run 1 3 (setParams 3 ?p (snd (clone 0 s1)))) = Some (Inr (Some ''done''))"
    unfolding s1_def by code_simp
  then have r2: "call_run 1 (nxt s1) (setParams (nxt s1) ?p (snd (clone 0 s1))) = Some (Inr (Some ''done''), s2)"
    unfolding s2_def n1 by (rule returns_with)
  have m2: "get_successor (successors (this_fields s2 (nxt s1))) (action_key (Some ''done'')) = Absent"
    unfolding n1 unfolding s2_def s1_def by code_simp
  have w2: "world s2 = [(?p, 0), (?p, 0)]" unfolding s2_def s1_def by code_simp
  have five: "Suc (Suc (Suc 2)) = (5::nat)" by simp
  have "Flow_orch_loop (Suc 2) (CNode 2) ?p (Some ''default'') ?sC
          = Flow_orch_loop 2 (CNode (nxt s1)) ?p (Some ''again'') (snd (clone 0 s1))"
    by (rule Flow_orch_loop_next[OF r1 m1])
  moreover from Flow_orch_loop_end[OF r2 m2, of "Some ''again''"] obtain st' where
    "Flow_orch_loop 2 (CNode (nxt s1)) ?p (Some ''again'') (snd (clone 0 s1)) = Some (Inr (Some ''done''), st')"
    and w': "world st' = world s2" unfolding Suc_1 by blast
  ultimately have "Flow_orch_loop (Suc 2) (CNode (nxt ?g)) (spread (params (this_fields ?g 1)) [])
             (Some ''default'') (snd (clone 0 (set_world [] (warn_successors 1 ?g))))
           = Some (Inr (Some ''done''), st')"
    unfolding flow'(5) ws w s(2) by (simp only:)
  from Flow_run_start[OF flow'(1) flow(2) flow'(2,3,4) this]
  have run: "run 5 1 ?g = Some (Inr (Some ''done''), st')" unfolding five .
  have pre: "nxt ?g \<le> 2 \<and> 2 < nxt ?sC \<and> 0 < nxt ?g \<and> heap ?sC 2 = heap ?g 0 \<and>
             (\<forall>a<nxt ?g. heap ?sC a = heap ?g a) \<and>
             call_run 2 2 (setParams 2 ?p ?sC) = Some (Inr (Some ''again''), s1) \<and>
             getNextNode 2 (Some ''again'') s1 = (CNode 0, s1)"
    using r1 g by (simp add: s clone_def del: call_run.simps)
  from flow_run_isolates_nodes[OF flow(2) cl, where n = 5 and r = "Inr (Some ''done'')"
         and st' = st' and m = 5 and w = "[]" and f = 1 and a = 0 and k = 2 and c = 2
         and s = ?sC and ?b0.0 = 0 and p = ?p and l = "Some ''again''" and ?s1.0 = s1
         and b = 0 and ?s2.0 = s1 and la = "Some ''default''"] flow(1) run pre
  have kept: "\<forall>a<nxt ?g. heap st' a = heap ?g a"
    and again: "outcome (run 5 1 (set_world [] st')) = outcome (run 5 1 (set_world [] ?g))"
    and copy: "heap (snd (clone 0 s1)) (nxt s1) = heap ?g 0"
    by blast+
  have "this_fields st' 0 = this_fields ?g 0" "this_fields st' 1 = this_fields ?g 1"
    using kept by (simp_all add: s(2) this_fields_def)
  moreover have "this_fields (snd (clone 0 s1)) 3 = this_fields ?g 0"
    using copy n1 by (simp add: this_fields_def)
  moreover have "outcome (run 5 1 ?g) = Some (Inr (Some ''done''), [(?p, 0), (?p, 0)])"
    unfolding run using w' w2 by simp
  ultimately show ?thesis using again f1 unfolding w run s1_def by (simp only: simp_thms snd_conv option.sel)
  qed
  have asy: "outcome (complete 30 (runAsync 4 1) async_loop_example)
     = Some (Inr (Some ''done''), [([(''k'', VNum 1)], 0), ([(''k'', VNum 1)], 0)]) \<and>
   this_fields (snd (the (complete 30 (runAsync 4 1) async_loop_example))) 0
     = this_fields async_loop_example 0 \<and>
   this_fields (snd (the (complete 30 (runAsync 4 1) async_loop_example))) 1
     = this_fields async_loop_example 1 \<and>
   this_fields (snd (the (complete 10 (AsyncNode_runAsync 3 2)
       (setParams 2 [(''k'', VNum 1)] (snd (clone 0 async_loop_example)))))) 2
     = (this_fields async_loop_example 0)\<lparr>params := [(''k'', VNum 1)]\<rparr> \<and>
   this_fields (snd (clone 0 (snd (the (complete 10 (AsyncNode_runAsync 3 2)
       (setParams 2 [(''k'', VNum 1)] (snd (clone 0 async_loop_example)))))))) 3
     = this_fields async_loop_example 0"
  proof -
    let ?h = "async_loop_example"
    let ?p = "[(''k'', VNum 1)]"
    let ?sC = "setParams 2 ?p (snd (clone 0 ?h))"
    define sta where "sta = snd (the (complete 30 (runAsync 4 1) ?h))"
    define t1 where "t1 = snd (the (complete 10 (AsyncNode_runAsync 3 2) ?sC))"
    note cl = async_loop_example_closed
    have nh: "nxt ?h = 2" by code_simp
    have o: "outcome (complete 30 (runAsync 4 1) ?h) = Some (Inr (Some ''done''), [(?p, 0), (?p, 0)])"
      by code_simp
    have "map_option fst (complete 30 (runAsync 4 1) ?h) = Some (Inr (Some ''done''))" by code_simp
    then have run: "complete 30 (runAsync 4 1) ?h = Some (Inr (Some ''done''), sta)"
      unfolding sta_def by (rule returns_with)
    have "map_option fst (complete 10 (AsyncNode_runAsync 3 2) ?sC) = Some (Inr (Some ''again''))"
      by code_simp
    then have r1: "complete 10 (AsyncNode_runAsync 3 2) ?sC = Some (Inr (Some ''again''), t1)"
      unfolding t1_def by (rule returns_with)
    have m1: "map_of (successors (this_fields t1 2)) (action_key (Some ''again'')) = Some 0"
      unfolding t1_def by code_simp
    have g: "getNextNode 2 (Some ''again'') t1 = (CNode 0, t1)"
      using m1 by (simp add: getNextNode_def get_successor_def Let_def)
    have su: "successors (this_fields t1 2) = successors (this_fields ?h 0)"
      unfolding t1_def by code_simp
    have n1: "nxt t1 = 3" unfolding t1_def by code_simp
    have f1: "this_fields t1 2 = (this_fields ?h 0)\<lparr>params := ?p\<rparr>"
      unfolding t1_def by code_simp
    have k0: "kept (nxt ?h) ?h ?sC"
      by (rule kept_trans[OF kept_clone kept_setParams]) (simp_all add: nh)
    have "kept (nxt ?h) ?sC t1"
      by (rule kept_complete[OF r1 keeps_proc_runAsync_node kept_nxt[OF k0]]) simp
    with k0 have "kept (nxt ?h) ?h t1" by (rule kept_trans)
    then have pre: "0 < nxt ?h \<and> successors (this_fields t1 2) = successors (this_fields ?h 0) \<and>
          nxt ?h \<le> nxt t1 \<and> (\<forall>a<nxt ?h. heap t1 a = heap ?h a) \<and>
          getNextNode 2 (Some ''again'') t1 = (CNode 0, t1)"
      using su g by (simp add: kept_def nh)
    have lt: "1 < nxt ?h" by (simp add: nh)
    from flow_run_isolates_nodes[OF lt cl, where m = 30 and n = 4
           and ra = "Inr (Some ''done'')" and sta = sta and c = 2 and ?b0.0 = 0
           and l = "Some ''again''" and ?s1.0 = t1 and b = 0 and ?s2.0 = t1] run pre
    have kept: "\<forall>a<nxt ?h. heap sta a = heap ?h a"
      and copy: "heap (snd (clone 0 t1)) (nxt t1) = heap ?h 0"
      by blast+
    have "this_fields sta 0 = this_fields ?h 0" "this_fields sta 1 = this_fields ?h 1"
      using kept by (simp_all add: nh this_fields_def)
    moreover have "this_fields (snd (clone 0 t1)) 3 = this_fields ?h 0"
      using copy n1 by (simp add: this_fields_def)
    ultimately show ?thesis using o f1 unfolding sta_def t1_def by (simp only: simp_thms)
  qed
  have par: "outcome (complete 30 (runAsync 12 1) parallel_flow_example)
     = Some (Inr None, [([(''k'', VNum 1)], 0), ([(''k'', VNum 2)], 0)]) \<and>
   this_fields (snd (the (complete 30 (runAsync 12 1) parallel_flow_example))) 0
     = this_fields parallel_flow_example 0 \<and>
   this_fields (snd (the (complete 30 (runAsync 12 1) parallel_flow_example))) 1
     = this_fields parallel_flow_example 1"
  proof -
    let ?q = "parallel_flow_example"
    define stq where "stq = snd (the (complete 30 (runAsync 12 1) ?q))"
    note cl = parallel_flow_example_closed
    have nq: "nxt ?q = 2" by code_simp
    have o: "outcome (complete 30 (runAsync 12 1) ?q)
               = Some (Inr None, [([(''k'', VNum 1)], 0), ([(''k'', VNum 2)], 0)])"
      by code_simp
    have "map_option fst (complete 30 (runAsync 12 1) ?q) = Some (Inr None)" by code_simp
    then have run: "complete 30 (runAsync 12 1) ?q = Some (Inr None, stq)"
      unfolding stq_def by (rule returns_with)
    have lt: "1 < nxt ?q" by (simp add: nq)
    from flow_run_isolates_nodes[OF lt cl, where m = 30 and n = 12
           and ra = "Inr None" and sta = stq] run
    have kept: "\<forall>a<nxt ?q. heap stq a = heap ?q a" by blast
    have "this_fields stq 0 = this_fields ?q 0" "this_fields stq 1 = this_fields ?q 1"
      using kept by (simp_all add: nq this_fields_def)
    then show ?thesis using o unfolding stq_def by (simp only: simp_thms)
  qed
  show ?thesis using sync asy par by (simp only: simp_thms)
qed

section \<open>Batches of suspendable items\<close>

lemma settles_mono: "settles P d t r \<Longrightarrow> d \<le> d' \<Longrightarrow> settles P d' t r"
proof (induction P d t r arbitrary: d' rule: settles.induct)
  case (4 P d u k r)
  then obtain e where d': "d' = Suc e" "d \<le> e" by (cases d') auto
  show ?case unfolding d' using 4 d'(2) by auto
qed auto

lemma settles_proc_mono: "settles_proc P d p r \<Longrightarrow> d \<le> d' \<Longrightarrow> settles_proc P d' p r"
  unfolding settles_proc_def using settles_mono by blast

lemma settles_drive:
  assumes "settles P d t r" "P s" "d \<le> n"
  shows "\<exists>s' m. drive n t s = Some (r, s', m) \<and> P s' \<and> n \<le> m + d"
  using assms
proof (induction n t s arbitrary: d rule: drive.induct)
  case (1 n r' st)
  then show ?case by (cases d) auto
next
  case (2 n st)
  then show ?case by (cases d) auto
next
  case (3 u k st)
  then show ?case by simp
next
  case (4 n u k st)
  then obtain e where d: "d = Suc e" by (cases d) auto
  from "4.prems" d have a: "P (u st)" "settles P e (k st) r" "e \<le> n" by auto
  from "4.IH"[OF a(2,1,3)] show ?case using d by auto
qed

lemma settles_complete:
  assumes "settles_proc P d p r" "P s" "d \<le> n"
  shows "\<exists>s'. complete n p s = Some (r, s') \<and> P s'"
proof -
  obtain t s1 where p: "p s = (t, s1)" by (cases "p s")
  from assms(1,2) have "P s1" "settles P d t r" by (auto simp: settles_proc_def p)
  from settles_drive[OF this(2,1) assms(3)] show ?thesis by (auto simp: complete_def p)
qed

lemma settles_susp: "settles_proc P d p r \<Longrightarrow> settles P (Suc d) (susp p) r"
  by (simp add: susp_def settles_proc_def)

lemma settles_await_then:
  assumes "settles P d t r" "settles_proc P d' (c r) r'"
  shows "settles P (d + Suc d') (await_then t c) r'"
  using assms(1)
proof (induction t arbitrary: d)
  case (Done r0)
  then have "r0 = r" by simp
  moreover have "settles P (d + Suc d') (susp (c r)) r'"
    by (rule settles_mono[OF settles_susp[OF assms(2)]]) simp
  ultimately show ?case by simp
next
  case Stuck
  then show ?case by simp
next
  case (Await u k)
  then obtain e where d: "d = Suc e" by (cases d) auto
  show ?case unfolding d
  proof (simp, intro allI impI conjI)
    fix s assume s: "P s"
    from Await.prems d s show "P (u s)" by simp
    from Await.prems d s have "settles P e (k s) r" by simp
    then show "settles P (Suc (e + d')) (await_then (k s) c) r'"
      using Await.IH[OF rangeI, of e s] by simp
  qed
qed

lemma settles_proc_await:
  assumes "settles_proc P d p r" "settles_proc P d' (c r) r'"
  shows "settles_proc P (d + Suc d') (await p c) r'"
  unfolding settles_proc_def
proof (intro allI impI)
  fix s assume s: "P s"
  obtain t s1 where p: "p s = (t, s1)" by (cases "p s")
  from assms(1) s have a: "P s1" "settles P d t r" by (auto simp: settles_proc_def p)
  show "P (snd (await p c s)) \<and> settles P (d + Suc d') (fst (await p c s)) r'"
    using a(1) settles_await_then[where c = c and r = r, OF a(2) assms(2)] by (simp add: await_def p)
qed

lemma settles_proc_settled [simp]: "settles_proc P d (settled r) r' = ((\<exists>s. P s) \<longrightarrow> r = r')"
  by (auto simp: settles_proc_def settled_def)

lemma settles_proc_cong:
  "(\<And>s. P s \<Longrightarrow> p s = q s) \<Longrightarrow> settles_proc P d p r = settles_proc P d q r"
  by (simp add: settles_proc_def)

lemma unchanged_simps [simp]:
  "unchanged this ob (set_world w s) = unchanged this ob s"
  "unchanged this ob (scheduled s) = unchanged this ob s"
  by (simp_all add: unchanged_def scheduled_def)

lemma unchanged_fields:
  "unchanged this ob s \<Longrightarrow> this_fields s this = flds ob"
  "unchanged this ob s \<Longrightarrow> this_meths s this = meths ob"
  by (simp_all add: unchanged_def this_fields_def this_meths_def)

lemma settles_async_call:
  assumes "\<And>w. fst (f w) = r"
  shows "settles_proc (unchanged this ob) 0 (async_call f) r"
  using assms by (auto simp: settles_proc_def async_call_def split: prod.splits) (metis fst_conv)

lemma exec_loop_settles:
  fixes ob :: "'w obj"
  assumes pure: "pure_exec ob"
  shows "0 \<le> i \<Longrightarrow> i < maxRetries (flds ob) \<Longrightarrow> nat (maxRetries (flds ob) - i) \<le> n \<Longrightarrow>
         settles_proc (unchanged this ob) (2 * nat (maxRetries (flds ob) - i))
           (AsyncNode_exec_loop n this x i) (item_result ob w0 x)"
proof (induction n arbitrary: i)
  case 0
  then show ?case by simp
next
  case (Suc n)
  let ?P = "unchanged this ob"
  let ?m = "meths ob" and ?f = "flds ob"
  let ?D = "\<lambda>i. 2 * nat (maxRetries ?f - i)"
  let ?R = "item_result ob w0 x"
  let ?c = "\<lambda>r. case r of
                  Inr v \<Rightarrow> settled (Inr v)
                | Inl e \<Rightarrow>
                    (\<lambda>st'. if i = maxRetries (this_fields st' this) - 1 then
                             await (async_call (execFallbackAsync (this_meths st' this)
                                                  (this_fields st' this) x e))
                               settled st'
                           else if wait (this_fields st' this) > 0 then
                             await (settled (Inr ()))
                               (\<lambda>u st''. AsyncNode_exec_loop n this x (i + 1) st'') st'
                           else AsyncNode_exec_loop n this x (i + 1) st')"
  define r where "r = fst (execAsync ?m ?f x w0)"
  have pos: "\<not> maxRetries ?f \<le> 0" using Suc.prems(1,2) by linarith
  have call: "settles_proc ?P 0 (async_call (execAsync ?m ?f x)) r"
    by (rule settles_async_call) (use pure in \<open>auto simp: pure_exec_def r_def\<close>)
  have cont: "settles_proc ?P (?D i - 1) (?c r) ?R"
  proof (cases r)
    case (Inr v)
    then show ?thesis using pos by (simp add: item_result_def r_def[symmetric])
  next
    case (Inl e)
    have R: "?R = fst (execFallbackAsync ?m ?f x e w0)"
      using pos Inl by (simp add: item_result_def r_def[symmetric])
    show ?thesis
    proof (cases "i = maxRetries ?f - 1")
      case True
      have fb: "settles_proc ?P 0 (async_call (execFallbackAsync ?m ?f x e)) ?R"
        by (rule settles_async_call) (use pure in \<open>auto simp: pure_exec_def R\<close>)
      have "settles_proc ?P (0 + Suc 0) (await (async_call (execFallbackAsync ?m ?f x e)) settled) ?R"
        by (rule settles_proc_await[OF fb]) simp
      moreover have "settles_proc ?P (0 + Suc 0) (?c r) ?R =
           settles_proc ?P (0 + Suc 0) (await (async_call (execFallbackAsync ?m ?f x e)) settled) ?R"
        by (rule settles_proc_cong) (simp add: Inl True unchanged_fields)
      ultimately have "settles_proc ?P (0 + Suc 0) (?c r) ?R" by simp
      then show ?thesis by (rule settles_proc_mono) (use True Suc.prems(2) in simp)
    next
      case False
      then have lt: "i + 1 < maxRetries ?f" using Suc.prems(2) by simp
      have fuel: "nat (maxRetries ?f - (i + 1)) \<le> n" using Suc.prems(3) lt by simp
      have nn: "0 \<le> i + 1" using Suc.prems(1) by simp
      note IH = Suc.IH[OF nn lt fuel]
      have D: "?D i = ?D (i + 1) + 2" using lt by simp
      show ?thesis
      proof (cases "wait ?f > 0")
        case True
        have "settles_proc ?P (0 + Suc (?D (i + 1)))
                (await (settled (Inr ())) (\<lambda>u st''. AsyncNode_exec_loop n this x (i + 1) st'')) ?R"
          by (rule settles_proc_await[where r = "Inr ()"]) (simp_all add: IH)
        moreover have "settles_proc ?P (0 + Suc (?D (i + 1))) (?c r) ?R =
             settles_proc ?P (0 + Suc (?D (i + 1)))
                (await (settled (Inr ())) (\<lambda>u st''. AsyncNode_exec_loop n this x (i + 1) st'')) ?R"
          by (rule settles_proc_cong) (use False True in \<open>simp add: Inl unchanged_fields\<close>)
        ultimately have "settles_proc ?P (0 + Suc (?D (i + 1))) (?c r) ?R" by simp
        then show ?thesis by (rule settles_proc_mono) (simp add: D)
      next
        case nw: False
        have "settles_proc ?P (?D (i + 1)) (?c r) ?R = settles_proc ?P (?D (i + 1))
                (AsyncNode_exec_loop n this x (i + 1)) ?R"
          by (rule settles_proc_cong) (use False nw in \<open>simp add: Inl unchanged_fields\<close>)
        then have "settles_proc ?P (?D (i + 1)) (?c r) ?R" using IH by simp
        then show ?thesis by (rule settles_proc_mono) (simp add: D)
      qed
    qed
  qed
  have "settles_proc ?P (0 + Suc (?D i - 1)) (await (async_call (execAsync ?m ?f x)) ?c) ?R"
    by (rule settles_proc_await[where c = ?c and r = r, OF call cont])
  moreover have "settles_proc ?P (0 + Suc (?D i - 1)) (AsyncNode_exec_loop (Suc n) this x i) ?R =
      settles_proc ?P (0 + Suc (?D i - 1)) (await (async_call (execAsync ?m ?f x)) ?c) ?R"
    by (rule settles_proc_cong) (use Suc.prems(2) in \<open>simp add: unchanged_fields\<close>)
  ultimately have "settles_proc ?P (0 + Suc (?D i - 1)) (AsyncNode_exec_loop (Suc n) this x i) ?R"
    by simp
  then show ?case by (rule settles_proc_mono) (use Suc.prems(2) in simp)
qed

lemma exec_settles:
  fixes ob :: "'w obj"
  assumes "pure_exec ob" "nat (maxRetries (flds ob)) < n"
  shows "settles_proc (unchanged this ob) (2 * nat (maxRetries (flds ob)))
           (AsyncNode_exec n this x) (item_result ob w0 x)"
proof (cases "0 < maxRetries (flds ob)")
  case True
  show ?thesis unfolding AsyncNode_exec_def
    using exec_loop_settles[OF assms(1) order_refl True, of n this x w0] assms(2) by simp
next
  case False
  obtain k where n: "n = Suc k" using assms(2) by (cases n) auto
  have "settles_proc (unchanged this ob) (2 * nat (maxRetries (flds ob)))
           (AsyncNode_exec n this x) (item_result ob w0 x)
        = settles_proc (unchanged this ob) (2 * nat (maxRetries (flds ob)))
           (settled (Inr VUndefined)) (item_result ob w0 x)"
    by (rule settles_proc_cong) (use False in \<open>simp add: AsyncNode_exec_def n unchanged_fields\<close>)
  then show ?thesis using False by (simp add: item_result_def)
qed

lemma seq_result_Inr:
  "seq_result rs acc = Inr v \<Longrightarrow> (\<forall>r\<in>set rs. \<exists>u. r = Inr u) \<and> v = VArr (acc @ map projr rs)"
  by (induction rs acc rule: seq_result.induct) auto

lemma batch_loop_settles:
  fixes ob :: "'w obj"
  assumes "pure_exec ob" "nat (maxRetries (flds ob)) < n"
  shows "settles_proc (unchanged this ob) (length xs * Suc (2 * nat (maxRetries (flds ob))))
           (AsyncBatchNode_loop n this xs acc) (seq_result (map (item_result ob w0) xs) acc)"
proof (induction xs arbitrary: acc)
  case Nil
  show ?case by (simp add: settles_proc_def settled_def)
next
  case (Cons x xs)
  let ?P = "unchanged this ob"
  let ?D = "2 * nat (maxRetries (flds ob))"
  let ?c = "or_throw (\<lambda>r st'. AsyncBatchNode_loop n this xs (acc @ [r]) st')"
  let ?R = "seq_result (map (item_result ob w0) (x # xs)) acc"
  have e: "settles_proc ?P ?D (AsyncNode_exec n this x) (item_result ob w0 x)"
    by (rule exec_settles[OF assms])
  have c: "settles_proc ?P (length xs * Suc ?D) (?c (item_result ob w0 x)) ?R"
  proof (cases "item_result ob w0 x")
    case (Inl e)
    then show ?thesis by (simp add: or_throw_def)
  next
    case (Inr v)
    then show ?thesis using Cons.IH[of "acc @ [v]"] by (simp add: or_throw_def)
  qed
  have "settles_proc ?P (?D + Suc (length xs * Suc ?D)) (await (AsyncNode_exec n this x) ?c) ?R"
    by (rule settles_proc_await[where c = ?c and r = "item_result ob w0 x", OF e c])
  then have m: "settles_proc ?P (length (x # xs) * Suc ?D) (await (AsyncNode_exec n this x) ?c) ?R"
    by (rule settles_proc_mono) simp
  have eq: "AsyncBatchNode_loop n this (x # xs) acc = await (AsyncNode_exec n this x) ?c"
    by (rule ext) simp
  show ?case unfolding eq by (rule m)
qed

lemma launch_settles:
  fixes ob :: "'w obj"
  assumes "pure_exec ob" "nat (maxRetries (flds ob)) < n" "unchanged this ob s"
  shows "unchanged this ob (snd (launch (map (AsyncNode_exec n this) xs) s)) \<and>
         list_all2 (settles (unchanged this ob) (2 * nat (maxRetries (flds ob))))
           (fst (launch (map (AsyncNode_exec n this) xs) s)) (map (item_result ob w0) xs)"
  using assms(3)
proof (induction xs arbitrary: s)
  case Nil
  then show ?case by simp
next
  case (Cons x xs)
  obtain t s1 where p: "AsyncNode_exec n this x s = (t, s1)" by (cases "AsyncNode_exec n this x s")
  from exec_settles[OF assms(1,2), of this x w0] Cons.prems
  have a: "unchanged this ob s1" "settles (unchanged this ob) (2 * nat (maxRetries (flds ob))) t (item_result ob w0 x)"
    by (auto simp: settles_proc_def p)
  obtain ts s2 where l: "launch (map (AsyncNode_exec n this) xs) s1 = (ts, s2)"
    by (cases "launch (map (AsyncNode_exec n this) xs) s1")
  from Cons.IH[OF a(1)] have "unchanged this ob s2"
    "list_all2 (settles (unchanged this ob) (2 * nat (maxRetries (flds ob)))) ts (map (item_result ob w0) xs)"
    by (simp_all add: l)
  then show ?case using a(2) by (simp add: p l)
qed

lemma rejection_None: "(\<And>t e. t \<in> set ts \<Longrightarrow> t \<noteq> Done (Inl e)) \<Longrightarrow> rejection ts = None"
  by (induction ts rule: rejection.induct) auto

lemma fulfilled_all:
  "length rs = length ts \<Longrightarrow> (\<And>i. i < length ts \<Longrightarrow> ts ! i = Done (rs ! i)) \<Longrightarrow>
   (\<And>r. r \<in> set rs \<Longrightarrow> \<exists>v. r = Inr v) \<Longrightarrow> fulfilled ts = map projr rs"
proof (induction ts arbitrary: rs)
  case Nil
  then show ?case by simp
next
  case (Cons t ts)
  then obtain r rs' where rs: "rs = r # rs'" by (cases rs) auto
  from Cons.prems(2)[of 0] rs have t: "t = Done r" by simp
  from Cons.prems(3)[of r] rs obtain v where r: "r = Inr v" by auto
  have "fulfilled ts = map projr rs'"
  proof (rule Cons.IH)
    show "length rs' = length ts" using Cons.prems(1) rs by simp
    fix i assume "i < length ts"
    then show "ts ! i = Done (rs' ! i)" using Cons.prems(2)[of "Suc i"] rs by simp
  next
    fix r assume "r \<in> set rs'"
    then show "\<exists>v. r = Inr v" using Cons.prems(3)[of r] rs by simp
  qed
  then show ?case by (simp add: t r rs)
qed

lemma pending_Nil: "pending ts = [] \<longleftrightarrow> (\<forall>i<length ts. \<not> is_Await (ts ! i))"
  by (auto simp: pending_def filter_empty_conv)

lemma pending_Await: "i \<in> set (pending ts) \<Longrightarrow> i < length ts \<and> is_Await (ts ! i)"
  by (simp add: pending_def)

lemma chosen_pending: "pending ts \<noteq> [] \<Longrightarrow> chosen (pending ts) s \<in> set (pending ts)"
  by (cases "schedule s") (simp_all add: chosen_def)

declare Promise_all.simps [simp del]

lemma Promise_all_settles:
  fixes ts :: "('a, 'w) task list"
  assumes sch: "\<And>s. P s \<Longrightarrow> P (scheduled s)"
  shows "length ds = length ts \<Longrightarrow> length rs = length ts \<Longrightarrow>
         (\<And>i. i < length ts \<Longrightarrow> settles P (ds ! i) (ts ! i) (rs ! i)) \<Longrightarrow>
         (\<And>r. r \<in> set rs \<Longrightarrow> \<exists>v. r = Inr v) \<Longrightarrow> sum_list ds \<le> n \<Longrightarrow>
         settles P (sum_list ds) (Promise_all n ts) (Inr (map projr rs))"
proof (induction n arbitrary: ts ds)
  case 0
  note prems = 0
  have "\<forall>n\<in>set ds. n = 0" using prems(5) by simp
  then have z: "\<And>i. i < length ts \<Longrightarrow> ds ! i = 0"
    using prems(1) nth_mem[of _ ds] by simp
  have d: "\<And>i. i < length ts \<Longrightarrow> ts ! i = Done (rs ! i)"
  proof -
    fix i assume i: "i < length ts"
    from prems(3)[OF i] z[OF i] show "ts ! i = Done (rs ! i)" by (cases "ts ! i") auto
  qed
  have "\<not> list_ex is_Stuck ts" using d by (auto simp: list_ex_iff in_set_conv_nth)
  moreover have "rejection ts = None"
  proof (rule rejection_None)
    fix t e assume "t \<in> set ts"
    then obtain i where i: "i < length ts" "t = ts ! i" by (auto simp: in_set_conv_nth)
    then have "rs ! i \<in> set rs" using prems(2) by simp
    then obtain v where "rs ! i = Inr v" using prems(4) by blast
    then show "t \<noteq> Done (Inl e)" using d[OF i(1)] i(2) by simp
  qed
  moreover have "pending ts = []" using d by (simp add: pending_Nil)
  moreover have "fulfilled ts = map projr rs" by (rule fulfilled_all[OF prems(2) d prems(4)])
  ultimately show ?case by (simp add: Promise_all.simps[of 0])
next
  case (Suc n)
  note prems = Suc.prems
  have ns: "\<not> list_ex is_Stuck ts"
  proof
    assume "list_ex is_Stuck ts"
    then obtain i where i: "i < length ts" "is_Stuck (ts ! i)" by (auto simp: list_ex_iff in_set_conv_nth)
    from prems(3)[OF i(1)] i(2) show False by (cases "ts ! i"; cases "ds ! i") auto
  qed
  have rj: "rejection ts = None"
  proof (rule rejection_None)
    fix t e assume "t \<in> set ts"
    then obtain i where i: "i < length ts" "t = ts ! i" by (auto simp: in_set_conv_nth)
    then have "rs ! i \<in> set rs" using prems(2) by simp
    then obtain v where "rs ! i = Inr v" using prems(4) by blast
    with prems(3)[OF i(1)] i(2) show "t \<noteq> Done (Inl e)" by (cases "ds ! i") auto
  qed
  show ?case
  proof (cases "pending ts = []")
    case True
    have d: "\<And>i. i < length ts \<Longrightarrow> ts ! i = Done (rs ! i)"
    proof -
      fix i assume i: "i < length ts"
      from True i have "\<not> is_Await (ts ! i)" by (simp add: pending_Nil)
      with prems(3)[OF i] show "ts ! i = Done (rs ! i)"
        by (cases "ts ! i"; cases "ds ! i") auto
    qed
    have "fulfilled ts = map projr rs" by (rule fulfilled_all[OF prems(2) d prems(4)])
    then show ?thesis using ns rj True by (simp add: Promise_all.simps[of "Suc n"])
  next
    case False
    let ?u = "\<lambda>st. resume_state (ts ! chosen (pending ts) st) (scheduled st)"
    let ?k = "\<lambda>st. Promise_all n (ts[chosen (pending ts) st :=
                                  resume_task (ts ! chosen (pending ts) st) (scheduled st)])"
    have P: "Promise_all (Suc n) ts = Await ?u ?k"
      using ns rj False by (simp add: Promise_all.simps[of "Suc n"])
    have step: "P (?u s) \<and> settles P (sum_list ds - 1) (?k s) (Inr (map projr rs))"
      if s: "P s" for s
    proof -
      let ?i = "chosen (pending ts) s"
      from pending_Await[OF chosen_pending[OF False, of s]]
      have i: "?i < length ts" "is_Await (ts ! ?i)" by simp_all
      then obtain ui ki where t: "ts ! ?i = Await ui ki" by (cases "ts ! ?i") auto
      from prems(3)[OF i(1)] t obtain e where e: "ds ! ?i = Suc e" by (cases "ds ! ?i") auto
      from prems(3)[OF i(1)] t e sch[OF s]
      have a: "P (ui (scheduled s))" "settles P e (ki (scheduled s)) (rs ! ?i)" by auto
      let ?ts = "ts[?i := ki (scheduled s)]" and ?ds = "ds[?i := e]"
      have sm: "sum_list ?ds = sum_list ds - 1"
        using i(1) prems(1) e by (simp add: sum_list_update)
      have pos: "1 \<le> sum_list ds"
        using i(1) prems(1) e member_le_sum_list[of "ds ! ?i" ds] by (simp add: in_set_conv_nth) (metis Suc_le_eq gr0_conv_Suc le_trans nth_mem)
      have "settles P (sum_list ?ds) (Promise_all n ?ts) (Inr (map projr rs))"
      proof (rule Suc.IH)
        show "length ?ds = length ?ts" using prems(1) by simp
        show "length rs = length ?ts" using prems(2) by simp
        show "sum_list ?ds \<le> n" using sm prems(5) pos by simp
        fix j assume j: "j < length ?ts"
        show "settles P (?ds ! j) (?ts ! j) (rs ! j)"
          using prems(3)[of j] j a(2) prems(1) by (cases "j = ?i") simp_all
      next
        fix r assume "r \<in> set rs"
        then show "\<exists>v. r = Inr v" by (rule prems(4))
      qed
      then show ?thesis using a(1) t sm by simp
    qed
    obtain d where d: "sum_list ds = Suc d"
    proof -
      have "pending ts \<noteq> []" by (rule False)
      then obtain i where "i \<in> set (pending ts)" by (cases "pending ts") auto
      from pending_Await[OF this] have i: "i < length ts" "is_Await (ts ! i)" by simp_all
      then obtain ui ki where t: "ts ! i = Await ui ki" by (cases "ts ! i") auto
      from prems(3)[OF i(1)] t obtain e where e: "ds ! i = Suc e" by (cases "ds ! i") auto
      have "ds ! i \<le> sum_list ds" using i(1) prems(1) by (intro member_le_sum_list) simp_all
      with e that show thesis by (cases "sum_list ds") auto
    qed
    show ?thesis unfolding P d using step d by simp
  qed
qed

lemma parallel_exec_settles:
  fixes ob :: "'w obj"
  assumes pure: "pure_exec ob" and fuel: "nat (maxRetries (flds ob)) < n"
      and n: "length xs * (2 * nat (maxRetries (flds ob))) \<le> n"
      and ok: "\<And>x. x \<in> set xs \<Longrightarrow> \<exists>v. item_result ob w0 x = Inr v"
  shows "settles_proc (unchanged this ob) (Suc (length xs * (2 * nat (maxRetries (flds ob)))))
           (AsyncParallelBatchNode_exec n this (VArr xs))
           (Inr (VArr (map projr (map (item_result ob w0) xs))))"
  unfolding settles_proc_def
proof (intro allI impI)
  fix s :: "'w state" assume s: "unchanged this ob s"
  let ?P = "unchanged this ob"
  let ?D = "2 * nat (maxRetries (flds ob))"
  let ?rs = "map (item_result ob w0) xs"
  let ?c = "or_throw (\<lambda>rs. settled (Inr (VArr rs))) :: jsval + jsval list \<Rightarrow> (jsval, 'w) proc"
  obtain ts s1 where l: "launch (map (AsyncNode_exec n this) xs) s = (ts, s1)"
    by (cases "launch (map (AsyncNode_exec n this) xs) s")
  from launch_settles[OF pure fuel s, of xs w0] l
  have s1: "?P s1" and all: "list_all2 (settles ?P ?D) ts ?rs" by simp_all
  have len: "length ts = length xs" using all by (simp add: list_all2_lengthD)
  have "settles ?P (sum_list (replicate (length ts) ?D)) (Promise_all n ts) (Inr (map projr ?rs))"
  proof (rule Promise_all_settles)
    fix s :: "'w state" assume "?P s" then show "?P (scheduled s)" by simp
  next
    show "length (replicate (length ts) ?D) = length ts" by simp
    show "length ?rs = length ts" using len by simp
    show "sum_list (replicate (length ts) ?D) \<le> n" using n len by (simp add: sum_list_replicate)
    fix i assume i: "i < length ts"
    show "settles ?P (replicate (length ts) ?D ! i) (ts ! i) (?rs ! i)"
      using list_all2_nthD[OF all i] i by simp
  next
    fix r assume "r \<in> set ?rs"
    then show "\<exists>v. r = Inr v" using ok by auto
  qed
  then have pa: "settles ?P (length xs * ?D) (Promise_all n ts) (Inr (map projr ?rs))"
    by (simp add: sum_list_replicate len)
  have "settles ?P (length xs * ?D + Suc 0) (await_then (Promise_all n ts) ?c)
          (Inr (VArr (map projr ?rs)))"
    by (rule settles_await_then[where c = ?c and r = "Inr (map projr ?rs)", OF pa])
       (simp add: or_throw_def)
  then show "?P (snd (AsyncParallelBatchNode_exec n this (VArr xs) s)) \<and>
        settles ?P (Suc (length xs * ?D)) (fst (AsyncParallelBatchNode_exec n this (VArr xs) s))
          (Inr (VArr (map projr ?rs)))"
    using s1 by (simp add: AsyncParallelBatchNode_exec_def l await_def promise_def)
qed

lemma tagging_node_0:
  "flds (heap (tagging_node k sch) 0) = new_fields\<lparr>maxRetries := 2\<rparr>"
  "meths (heap (tagging_node k sch) 0) = tagging_methods"
  by (simp_all add: tagging_node_def new_Node_def alloc_def init_state_def new_fields_def)

text \<open>
  Claim C8, as amended. An object with the methods and fields of \<open>ob\<close>, whose
  \<^verbatim>\<open>execAsync\<close> and \<^verbatim>\<open>execFallbackAsync\<close> return or throw the same whatever the world, and
  items \<open>xs\<close>; enough fuel for the retries of all items. When \<^verbatim>\<open>AsyncBatchNode._exec\<close>
  on \<open>xs\<close>, called in some state, fulfils its promise with \<open>rs\<close>, then
  \<^verbatim>\<open>AsyncParallelBatchNode._exec\<close> on \<open>xs\<close>, called in any state, whatever its world and
  its schedule, fulfils its promise with the same \<open>rs\<close>, an array with one result for
  each item, and so does \<^verbatim>\<open>AsyncBatchNode._exec\<close> there.
\<close>

theorem parallel_batch_same_results:
  fixes ob :: "'w obj" and s s' :: "'w state"
  assumes pure: "pure_exec ob"
      and t1: "unchanged t1 ob s" and t2: "unchanged t2 ob s'"
      and fuel: "Suc (length xs) * (2 * nat (maxRetries (flds ob)) + 2) \<le> n"
      and seq: "map_option fst (complete n (AsyncBatchNode_exec n t1 (VArr xs)) s) = Some (Inr rs)"
  shows "map_option fst (complete n (AsyncParallelBatchNode_exec n t2 (VArr xs)) s') = Some (Inr rs) \<and>
         map_option fst (complete n (AsyncBatchNode_exec n t2 (VArr xs)) s') = Some (Inr rs) \<and>
         (\<exists>vs. rs = VArr vs \<and> length vs = length xs)"
proof -
  let ?D = "2 * nat (maxRetries (flds ob))"
  let ?R = "item_result ob (world s)"
  have f1: "nat (maxRetries (flds ob)) < n"
  proof -
    have "?D + 2 \<le> Suc (length xs) * (?D + 2)" by simp
    then show ?thesis using fuel by linarith
  qed
  have f2: "length xs * Suc ?D \<le> n"
  proof -
    have "length xs * Suc ?D \<le> Suc (length xs) * (?D + 2)" by (simp add: mult_le_mono)
    then show ?thesis using fuel by linarith
  qed
  have f3: "Suc (length xs * ?D) \<le> n"
  proof -
    have "Suc (length xs * ?D) \<le> Suc (length xs) * (?D + 2)" by simp
    then show ?thesis using fuel by linarith
  qed
  have sq: "settles_proc (unchanged t ob) (length xs * Suc ?D)
              (AsyncBatchNode_exec n t (VArr xs)) (seq_result (map ?R xs) [])" for t
    using batch_loop_settles[OF pure f1, of t xs "[]" "world s"]
    by (simp add: AsyncBatchNode_exec_def)
  from settles_complete[OF sq t1 f2] seq
  have res: "seq_result (map ?R xs) [] = Inr rs" by auto
  from seq_result_Inr[OF res]
  have ok: "\<forall>r\<in>set (map ?R xs). \<exists>u. r = Inr u" and rs: "rs = VArr (map projr (map ?R xs))"
    by simp_all
  have "settles_proc (unchanged t2 ob) (Suc (length xs * ?D))
           (AsyncParallelBatchNode_exec n t2 (VArr xs)) (Inr (VArr (map projr (map ?R xs))))"
    by (rule parallel_exec_settles[OF pure f1]) (use f3 ok in auto)
  from settles_complete[OF this t2 f3]
  have "map_option fst (complete n (AsyncParallelBatchNode_exec n t2 (VArr xs)) s') = Some (Inr rs)"
    by (auto simp: rs)
  moreover from settles_complete[OF sq t2 f2]
  have "map_option fst (complete n (AsyncBatchNode_exec n t2 (VArr xs)) s') = Some (Inr rs)"
    by (auto simp: res)
  moreover have "\<exists>vs. rs = VArr vs \<and> length vs = length xs" using rs by simp
  ultimately show ?thesis by blast
qed

theorem parallel_batch_same_results_witness:
  "map_option fst (complete 24 (AsyncParallelBatchNode_exec 24 0 (VArr [VStr ''a'', VNum 7, VStr ''c'']))
     (tagging_node AsyncParallelBatchNode [2, 0, 1, 1]))
   = Some (Inr (VArr [VStr ''done: a'', VStr ''skipped'', VStr ''done: c'']))"
proof -
  let ?ob = "heap (tagging_node AsyncBatchNode []) 0"
  let ?xs = "[VStr ''a'', VNum 7, VStr ''c'']"
  have pure: "pure_exec ?ob"
    by (simp add: pure_exec_def tagging_node_0 tagging_methods_def split: jsval.splits)
  have t1: "unchanged 0 ?ob (tagging_node AsyncBatchNode [])"
    by (simp add: unchanged_def)
  have t2: "unchanged 0 ?ob (tagging_node AsyncParallelBatchNode [2, 0, 1, 1])"
    by (simp add: unchanged_def tagging_node_0)
  have fuel: "Suc (length ?xs) * (2 * nat (maxRetries (flds ?ob)) + 2) \<le> 24"
    by (simp add: tagging_node_0 new_fields_def)
  have seq: "map_option fst (complete 24 (AsyncBatchNode_exec 24 0 (VArr ?xs)) (tagging_node AsyncBatchNode []))
               = Some (Inr (VArr [VStr ''done: a'', VStr ''skipped'', VStr ''done: c'']))"
    by code_simp
  from parallel_batch_same_results[OF pure t1 t2 fuel seq] show ?thesis by blast
qed

text \<open>
  The claim as first stated has no condition on \<^verbatim>\<open>execAsync\<close>. Below it counts its
  calls, and the node has two attempts. One after the other, the first item fails
  and is tried again before the second item starts, and the results are 1 and 2. With
  \<^verbatim>\<open>Promise.all\<close> the first attempt of every item is made when \<^verbatim>\<open>map\<close> calls
  \<^verbatim>\<open>_exec\<close>, before any item is resumed, so the second item is served before the first
  is tried again: the results are 2 and 1, whatever the schedule.
\<close>

theorem parallel_batch_results_differ_counterexample:
  "map_option fst (complete 9 (AsyncNode_exec_of 9 0 (VArr [VStr ''a'', VStr ''b'']))
     (flaky_node AsyncBatchNode)) = Some (Inr (VArr [VNum 1, VNum 2])) \<and>
   map_option fst (complete 9 (AsyncNode_exec_of 9 0 (VArr [VStr ''a'', VStr ''b'']))
     (flaky_node AsyncParallelBatchNode)) = Some (Inr (VArr [VNum 2, VNum 1]))"
  by code_simp

end
